(* ===== verification/Prelude.thy ===== *)
theory Prelude
  imports Main "HOL-Library.Word" "HOL-Library.AList" "HOL-Library.Monad_Syntax"
begin

text \<open>
  What the component theories share: names for the machine types of the Rust code, the
  checked and saturating arithmetic of \<open>U256\<close>/\<open>u128\<close>/\<open>u64\<close>, panicking vector access, the
  \<open>BTreeMap::range(..k).next_back()\<close> lookup that every multi-version read is built on, and the
  lemma collections the component proofs pass to the simplifier.

  Conventions used by every theory:
  \<^item> \<open>usize\<close> counters, cursors and transaction ids are natural numbers: every one of them is
    bounded by the block size or counts scheduler events, and none can reach \<open>2 ^ 64\<close>;
  \<^item> \<open>u64\<close>, \<open>u128\<close> and \<open>U256\<close> values are words of their width, so wrap-around, checked and
    saturating operations are visible;
  \<^item> a Rust panic (an index out of range, a failed assertion, an \<open>expect\<close>) is the value
    \<^const>\<open>None\<close> of an option type; a \<open>Result\<close> is a sum with \<open>Inl\<close> for the error;
  \<^item> a mutex-protected or atomic field is an ordinary field, and one critical section of the
    code is one function or one step.
\<close>

section \<open>Machine types\<close>

type_synonym usize = nat
type_synonym tx_id = usize
type_synonym u64 = "64 word"
type_synonym u128 = "128 word"
type_synonym u256 = "256 word"
type_synonym address = "160 word"
type_synonym b256 = "256 word"
type_synonym bytes = "8 word list"
type_synonym bytecode = bytes

named_theorems grevm_simps
  \<open>frame and projection rules of the components' operations\<close>
named_theorems grevm_wf
  \<open>the operations' preservation of the components' well-formedness invariants\<close>

section \<open>Checked and saturating word arithmetic\<close>

definition checked_add :: "'a::len word \<Rightarrow> 'a word \<Rightarrow> 'a word option" where
  "checked_add a b = (if unat a + unat b < 2 ^ LENGTH('a) then Some (a + b) else None)"

definition saturating_add :: "'a::len word \<Rightarrow> 'a word \<Rightarrow> 'a word" where
  "saturating_add a b = (if unat a + unat b < 2 ^ LENGTH('a) then a + b else - 1)"

definition saturating_sub :: "'a::len word \<Rightarrow> 'a word \<Rightarrow> 'a word" where
  "saturating_sub a b = (if b \<le> a then a - b else 0)"

lemma unat_max_word: "unat (- 1 :: 'a::len word) = 2 ^ LENGTH('a) - 1"
  by (simp add: unsigned_minus_1_eq_mask mask_eq_exp_minus_1)

lemma unat_saturating_add:
  "unat (saturating_add a b :: 'a::len word) = min (unat a + unat b) (2 ^ LENGTH('a) - 1)"
  by (auto simp: saturating_add_def unat_word_ariths unat_max_word min_def)

lemma unat_saturating_sub: "unat (saturating_sub a b) = unat a - unat b"
  by (auto simp: saturating_sub_def unat_sub word_le_nat_alt)

lemma saturating_sub_eq: "b \<le> a \<Longrightarrow> saturating_sub a b = a - b"
  by (simp add: saturating_sub_def)

lemma unat_checked_add:
  "checked_add a b = Some c \<Longrightarrow> unat c = unat a + unat b"
  by (auto simp: checked_add_def unat_word_ariths split: if_splits)

lemma checked_add_None_iff:
  "checked_add a b = None \<longleftrightarrow> 2 ^ LENGTH('a) \<le> unat a + unat (b :: 'a::len word)"
  by (auto simp: checked_add_def)

lemma saturating_add_le: "a \<le> saturating_add a b"
proof -
  have "unat a < 2 ^ LENGTH('a)" by (rule unsigned_less)
  then have "unat a \<le> 2 ^ LENGTH('a) - 1" by linarith
  then show ?thesis by (simp add: word_le_nat_alt unat_saturating_add)
qed

section \<open>Vectors\<close>

text \<open>\<open>v[i]\<close> and \<open>v[i] = x\<close>: both panic when the index is out of range.\<close>

definition list_get :: "'a list \<Rightarrow> usize \<Rightarrow> 'a option" where
  "list_get xs i = (if i < length xs then Some (xs ! i) else None)"

definition list_set :: "'a list \<Rightarrow> usize \<Rightarrow> 'a \<Rightarrow> 'a list option" where
  "list_set xs i x = (if i < length xs then Some (xs[i := x]) else None)"

lemma list_get_in [simp]: "i < length xs \<Longrightarrow> list_get xs i = Some (xs ! i)"
  by (simp add: list_get_def)

lemma list_get_out [simp]: "length xs \<le> i \<Longrightarrow> list_get xs i = None"
  by (simp add: list_get_def)

lemma list_get_Some_iff: "list_get xs i = Some x \<longleftrightarrow> i < length xs \<and> xs ! i = x"
  by (auto simp: list_get_def)

lemma nth_update_total: "xs[i := x] ! j = (if j = i \<and> i < length xs then x else xs ! j)"
  by (cases "i < length xs") (simp_all add: nth_list_update not_less list_update_beyond)

lemma list_set_in [simp]: "i < length xs \<Longrightarrow> list_set xs i x = Some (xs[i := x])"
  by (simp add: list_set_def)

lemma list_set_out [simp]: "length xs \<le> i \<Longrightarrow> list_set xs i x = None"
  by (simp add: list_set_def)

section \<open>The latest entry before a key\<close>

text \<open>
  \<open>BTreeMap::range(..k).next_back()\<close>: the entry with the greatest key below \<open>k\<close>. The keys are
  transaction ids, so the search walks down from \<open>k\<close>.
\<close>

fun prev_entry :: "(nat \<rightharpoonup> 'a) \<Rightarrow> nat \<Rightarrow> (nat \<times> 'a) option" where
  "prev_entry m 0 = None"
| "prev_entry m (Suc k) = (case m k of Some e \<Rightarrow> Some (k, e) | None \<Rightarrow> prev_entry m k)"

lemma prev_entry_None_iff: "prev_entry m k = None \<longleftrightarrow> (\<forall>j<k. m j = None)"
  by (induction k) (auto simp: less_Suc_eq split: option.splits)

lemma prev_entry_SomeD:
  "prev_entry m k = Some (j, e) \<Longrightarrow> j < k \<and> m j = Some e \<and> (\<forall>i. j < i \<and> i < k \<longrightarrow> m i = None)"
  by (induction k) (auto simp: less_Suc_eq split: option.splits)

lemma prev_entry_SomeI:
  "j < k \<Longrightarrow> m j = Some e \<Longrightarrow> (\<And>i. j < i \<Longrightarrow> i < k \<Longrightarrow> m i = None) \<Longrightarrow> prev_entry m k = Some (j, e)"
  by (induction k) (auto simp: less_Suc_eq split: option.splits)

lemma prev_entry_Some_iff:
  "prev_entry m k = Some (j, e) \<longleftrightarrow> j < k \<and> m j = Some e \<and> (\<forall>i. j < i \<and> i < k \<longrightarrow> m i = None)"
  using prev_entry_SomeD [of m k j e] prev_entry_SomeI [of j k m e] by blast

lemma prev_entry_cong: "(\<And>j. j < k \<Longrightarrow> m j = m' j) \<Longrightarrow> prev_entry m k = prev_entry m' k"
  by (induction k) (auto split: option.splits)

lemma prev_entry_empty [simp]: "prev_entry Map.empty k = None"
  by (simp add: prev_entry_None_iff)

lemma prev_entry_update_ge [simp]: "k \<le> j \<Longrightarrow> prev_entry (m(j := v)) k = prev_entry m k"
  by (rule prev_entry_cong) auto

lemma prev_entry_update_last [simp]: "prev_entry (m(k \<mapsto> e)) (Suc k) = Some (k, e)"
  by simp

section \<open>Decimal numbers\<close>

text \<open>\<open>Display\<close> and \<open>FromStr\<close> of \<open>usize\<close>: an optional plus sign and at least one digit, refused beyond 64
  bits.\<close>

fun show_nat :: "nat \<Rightarrow> string" where
  "show_nat n = (if n < 10 then [char_of (48 + n)] else show_nat (n div 10) @ [char_of (48 + n mod 10)])"

declare show_nat.simps [simp del]

definition digit_value :: "char \<Rightarrow> nat option" where
  "digit_value c = (let k = of_char c :: nat in if 48 \<le> k \<and> k \<le> 57 then Some (k - 48) else None)"

fun parse_digits :: "nat \<Rightarrow> string \<Rightarrow> nat option" where
  "parse_digits acc [] = Some acc"
| "parse_digits acc (c # cs) =
    (case digit_value c of
       None \<Rightarrow> None
     | Some d \<Rightarrow> let acc' = 10 * acc + d in if acc' < 2 ^ 64 then parse_digits acc' cs else None)"

definition parse_usize :: "string \<Rightarrow> nat option" where
  "parse_usize s =
    (let digits = (case s of c # cs \<Rightarrow> if c = CHR ''+'' then cs else s | [] \<Rightarrow> s)
     in if digits = [] then None else parse_digits 0 digits)"

definition parse_bool :: "string \<Rightarrow> bool option" where
  "parse_bool s = (if s = ''true'' then Some True else if s = ''false'' then Some False else None)"

lemma digit_value_char: "d < 10 \<Longrightarrow> digit_value (char_of (48 + d)) = Some d"
  by (simp add: digit_value_def Let_def)

lemma digit_not_plus: "(d :: nat) < 10 \<Longrightarrow> char_of (48 + d) \<noteq> CHR ''+''"
proof
  assume "d < 10" and "char_of (48 + d) = CHR ''+''"
  moreover have "of_char (CHR ''+'') = (43 :: nat)" by simp
  ultimately have "of_char (char_of (48 + d)) = (43 :: nat)" by simp
  with \<open>d < 10\<close> show False by simp
qed

lemma parse_digits_append: "parse_digits a (xs @ ys) = Option.bind (parse_digits a xs) (\<lambda>b. parse_digits b ys)"
  by (induction xs arbitrary: a) (auto simp: Let_def split: option.split)

lemma parse_show_digits: "n < 2 ^ 64 \<Longrightarrow> parse_digits 0 (show_nat n) = Some n"
proof (induction n rule: show_nat.induct)
  case (1 n)
  show ?case
  proof (cases "n < 10")
    case True
    then show ?thesis by (simp add: show_nat.simps [of n] digit_value_char)
  next
    case False
    have "n div 10 < 2 ^ 64" using "1.prems" by linarith
    then have "parse_digits 0 (show_nat (n div 10)) = Some (n div 10)" using 1 False by blast
    moreover have "10 * (n div 10) + n mod 10 = n" by simp
    ultimately show ?thesis using False "1.prems"
      by (simp add: show_nat.simps [of n] parse_digits_append digit_value_char)
  qed
qed

lemma show_nat_head: "\<exists>d cs. (d :: nat) < 10 \<and> show_nat n = char_of (48 + d) # cs"
proof (induction n rule: show_nat.induct)
  case (1 n)
  show ?case
  proof (cases "n < 10")
    case False
    then obtain d cs where "(d :: nat) < 10" "show_nat (n div 10) = char_of (48 + d) # cs" using 1 by blast
    then show ?thesis using False by (auto simp: show_nat.simps [of n])
  qed (auto simp: show_nat.simps [of n])
qed

lemma parse_show: "n < 2 ^ 64 \<Longrightarrow> parse_usize (show_nat n) = Some n"
  using show_nat_head [of n] parse_show_digits [of n] by (auto simp: parse_usize_def digit_not_plus Let_def)

end
