(* ===== verification/Model.thy ===== *)
theory Model
  imports Prelude
begin

text \<open>
  The data of \<open>model.rs\<close>, \<open>account.rs\<close> and \<open>outcome.rs\<close>, and the part of revm's data they are
  built from. revm is a third-party crate: its structures appear with the fields this program
  reads or writes, and its methods are the fields of a record \<open>revm_ops\<close> that every definition
  using them takes as an argument \<open>R\<close>. The type variables \<open>'r\<close> and \<open>'e\<close> stand for revm's
  \<open>ExecutionResult\<close> and for the database error type \<open>DBError\<close>.
\<close>

section \<open>revm's data\<close>

text \<open>\<open>revm_state::AccountInfo\<close>, \<open>EvmStorageSlot\<close> and \<open>Account\<close>; the status bits of an account
  are the three predicates the program asks for.\<close>

record account_info =
  info_balance :: u256
  info_nonce :: u64
  info_code_hash :: b256
  info_code :: "bytecode option"

record storage_slot =
  original_value :: u256
  present_value :: u256

record account =
  acct_info :: account_info
  is_touched :: bool
  is_selfdestructed :: bool
  is_created :: bool
  acct_storage :: "(u256 \<times> storage_slot) list"

type_synonym evm_state = "(address \<times> account) list"

text \<open>The revm methods the program calls on this data.\<close>

record revm_ops =
  is_empty_code_hash :: "account_info \<Rightarrow> bool"
  is_empty_info :: "account_info \<Rightarrow> bool"
  default_info :: account_info
  slot_is_changed :: "storage_slot \<Rightarrow> bool"

text \<open>The trait \<open>DatabaseRef\<close>.\<close>

record 'e database_ref =
  basic_ref :: "address \<Rightarrow> 'e + account_info option"
  code_by_hash_ref :: "b256 \<Rightarrow> 'e + bytecode"
  storage_ref :: "address \<Rightarrow> u256 \<Rightarrow> 'e + u256"
  block_hash_ref :: "u64 \<Rightarrow> 'e + b256"

text \<open>\<open>EVMError\<close> and \<open>InvalidTransaction\<close>, with the constructors the program distinguishes.\<close>

datatype invalid_transaction =
    NonceOverflowInTransaction
  | NonceTooLow
  | NonceTooHigh
  | OtherInvalid nat

datatype 'e evm_error =
    TransactionError invalid_transaction
  | HeaderError nat
  | DatabaseError 'e
  | CustomError string

text \<open>The fields of \<open>TxEnv\<close> the program reads.\<close>

datatype tx_kind = TxCall address | TxCreate

record tx_env =
  caller :: address
  tx_nonce :: u64
  tx_value :: u256
  kind :: tx_kind

section \<open>Accounts\<close>

datatype finalized_account =
    Unchanged
  | Deleted
  | Created account_info
  | Updated account_info

definition finalized_account_from :: "revm_ops \<Rightarrow> account \<Rightarrow> finalized_account" where
  "finalized_account_from R a =
    (if \<not> is_touched a then Unchanged
     else if is_selfdestructed a then Deleted
     else if is_created a then Created (acct_info a)
     else if is_empty_info R (acct_info a) then Deleted
     else Updated (acct_info a))"

record account_basic =
  ab_balance :: u256
  ab_nonce :: u64
  ab_code_hash :: "b256 option"

definition account_basic_from :: "revm_ops \<Rightarrow> account_info \<Rightarrow> account_basic" where
  "account_basic_from R info =
    \<lparr>ab_balance = info_balance info, ab_nonce = info_nonce info,
     ab_code_hash = (if \<not> is_empty_code_hash R info then Some (info_code_hash info) else None)\<rparr>"

section \<open>Transactions and versions\<close>

datatype transaction_status =
    Initial | Executing | Executed | Validating | Unconfirmed | Conflict | Finality

record tx_state =
  status :: transaction_status
  incarnation :: usize
  dependency :: "tx_id option"

definition tx_state_default :: tx_state where
  "tx_state_default = \<lparr>status = Initial, incarnation = 0, dependency = None\<rparr>"

datatype tx_version = TxVersion (v_txid: tx_id) (v_incarnation: usize)

datatype beneficiary_read_version = BeneficiaryReadVersion (origins: "tx_version list")

datatype read_version =
    RvMvMemory tx_version
  | RvBeneficiary beneficiary_read_version
  | RvStorage

section \<open>Multi-version memory\<close>

datatype location =
    LBasic address
  | LStorage address u256
  | LStorageReset address
  | LCode address

datatype memory_value =
    MBasic "account_info option"
  | MCode bytecode
  | MStorage u256
  | MStorageReset

record memory_entry =
  me_incarnation :: usize
  me_data :: memory_value
  me_estimate :: bool

definition memory_entry_new :: "usize \<Rightarrow> memory_value \<Rightarrow> bool \<Rightarrow> memory_entry" where
  "memory_entry_new i d e = \<lparr>me_incarnation = i, me_data = d, me_estimate = e\<rparr>"

type_synonym mv_memory = "location \<Rightarrow> (tx_id \<rightharpoonup> memory_entry)"

section \<open>Results\<close>

datatype deferred_beneficiary_reward = DeferredBeneficiaryReward u256

record 'r speculative_result =
  sr_result :: 'r
  sr_state :: evm_state
  deferred_reward :: "deferred_beneficiary_reward option"

definition settled :: "'r \<Rightarrow> evm_state \<Rightarrow> 'r speculative_result" where
  "settled r s = \<lparr>sr_result = r, sr_state = s, deferred_reward = None\<rparr>"

definition deferred :: "'r \<Rightarrow> evm_state \<Rightarrow> deferred_beneficiary_reward \<Rightarrow> 'r speculative_result" where
  "deferred r s d = \<lparr>sr_result = r, sr_state = s, deferred_reward = Some d\<rparr>"

definition into_commit_parts ::
  "'r speculative_result \<Rightarrow> ('r \<times> evm_state) \<times> deferred_beneficiary_reward option" where
  "into_commit_parts s = ((sr_result s, sr_state s), deferred_reward s)"

record ('r, 'e) transaction_result =
  read_set :: "(location \<times> read_version) list"
  write_set :: "location set"
  execute_result :: "'e evm_error + 'r speculative_result"

datatype task = Execution tx_version | Validation tx_version

datatype 'r tx_execution_outcome =
    OExecuted 'r
  | OSkipped invalid_transaction

datatype 'e grevm_error = GrevmError (ge_txid: usize) (ge_error: "'e evm_error")

datatype 'e abort_reason =
    FatalEvmError tx_id
  | CommitError "'e grevm_error"
  | ParallelError tx_id string
  | FallbackSequential

text \<open>A concrete instance of revm's methods, with revm's documented definitions for an account
  without code; the witnesses evaluate on it.\<close>

definition keccak_empty :: b256 where
  "keccak_empty = 0xc5d2460186f7233c927e7db2dcc703c0e500b653ca82273b7bfad8045d85a470"

definition sample_info :: "u256 \<Rightarrow> account_info" where
  "sample_info b = \<lparr>info_balance = b, info_nonce = 0, info_code_hash = keccak_empty, info_code = None\<rparr>"

definition sample_revm :: revm_ops where
  "sample_revm =
    \<lparr>is_empty_code_hash = (\<lambda>i. info_code_hash i = keccak_empty),
     is_empty_info = (\<lambda>i. info_balance i = 0 \<and> info_nonce i = 0 \<and>
       (info_code_hash i = keccak_empty \<or> info_code_hash i = 0)),
     default_info = sample_info 0,
     slot_is_changed = (\<lambda>s. original_value s \<noteq> present_value s)\<rparr>"

end
