(* ===== verification/Versions.thy ===== *)
theory Versions
  imports Model
begin

text \<open>
  The contract optimistic validation rests on: a published value is identified by its slot and
  the incarnation that published it. Both multi-version stores of the program, the MV memory and
  the beneficiary history, promise it, and each interprets this locale on its own operations.

  A slot holds at most one \<open>(incarnation, value)\<close> pair. Each slot has a clock that bounds every
  incarnation it has held; a step keeps a slot, clears it, or republishes it with an incarnation
  beyond the clock.
\<close>

locale versioned_store =
  fixes step :: "'s \<Rightarrow> 's \<Rightarrow> bool"
    and clock :: "'s \<Rightarrow> 'k \<Rightarrow> nat"
    and slot :: "'s \<Rightarrow> 'k \<Rightarrow> (nat \<times> 'v) option"
    and inv :: "'s \<Rightarrow> bool"
  assumes step_inv: "inv s \<Longrightarrow> step s s' \<Longrightarrow> inv s'"
    and slot_clock: "inv s \<Longrightarrow> slot s k = Some (i, v) \<Longrightarrow> i \<le> clock s k"
    and step_clock: "inv s \<Longrightarrow> step s s' \<Longrightarrow> clock s k \<le> clock s' k"
    and step_slot: "inv s \<Longrightarrow> step s s' \<Longrightarrow> slot s' k = Some (i, v) \<Longrightarrow>
      slot s k = Some (i, v) \<or> clock s k < i"
begin

lemma steps_inv: "step\<^sup>*\<^sup>* s s' \<Longrightarrow> inv s \<Longrightarrow> inv s'"
  by (induction rule: rtranclp_induct) (auto intro: step_inv)

lemma steps_clock: "step\<^sup>*\<^sup>* s s' \<Longrightarrow> inv s \<Longrightarrow> clock s k \<le> clock s' k"
proof (induction rule: rtranclp_induct)
  case (step y z)
  then show ?case using step_clock [OF steps_inv step.hyps(2), of s k] by auto
qed simp

lemma steps_slot:
  assumes "step\<^sup>*\<^sup>* s s'" and "inv s" and "slot s' k = Some (i, v)"
  shows "slot s k = Some (i, v) \<or> clock s k < i"
  using assms
proof (induction arbitrary: i v rule: rtranclp_induct)
  case base
  then show ?case by simp
next
  case (step y z)
  have "inv y" and "clock s k \<le> clock y k"
    using step.hyps(1) step.prems(1) by (auto intro: steps_inv steps_clock)
  then show ?case
    using step_slot [OF _ step.hyps(2) step.prems(2)] step.IH step.prems(1) by fastforce
qed

text \<open>Same slot, same incarnation: same value, however many steps lie between the two readings.\<close>

lemma same_incarnation_same_value:
  assumes "step\<^sup>*\<^sup>* s s'" and "inv s"
    and "slot s k = Some (i, v)" and "slot s' k = Some (i, v')"
  shows "v' = v"
  using steps_slot [OF assms(1,2,4)] slot_clock [OF assms(2,3)] assms(3) by auto

end

end
