(* ===== verification/Beneficiary.thy ===== *)
theory Beneficiary
  imports Versions
begin

text \<open>
  The beneficiary of a block: the reward policy (\<open>beneficiary/reward.rs\<close>), the multi-version
  history of the beneficiary account (\<open>beneficiary/history.rs\<close>) and the aggregate that owns both
  (\<open>beneficiary.rs\<close>). The history is proved to compute the fold of the transactions' effects over
  the block-start account, and to satisfy the versioned-store contract, from which an earlier
  read that validates is still the current value.
\<close>

section \<open>Reward policy\<close>

text \<open>What the reward calculation reads from revm's context and gas counter.
  \<open>effective_gas_price\<close> is the transaction's method of that name.\<close>

record reward_ctx =
  fee_charge_disabled :: bool
  basefee :: u64
  effective_gas_price :: "u128 \<Rightarrow> u128"
  london_enabled :: bool

record gas =
  gas_used :: u64
  gas_reservoir :: u64

datatype beneficiary_mode = Deferred | Immediate

datatype beneficiary_reward = BeneficiaryReward u256

definition reward_from_gas :: "reward_ctx \<Rightarrow> gas \<Rightarrow> beneficiary_reward option" where
  "reward_from_gas ctx g =
    (if fee_charge_disabled ctx then None
     else
       let base = ucast (basefee ctx) :: u128;
           effective = effective_gas_price ctx base;
           price = (if london_enabled ctx then saturating_sub effective base else effective);
           used = saturating_sub (gas_used g) (gas_reservoir g)
       in Some (BeneficiaryReward (ucast (price * ucast used))))"

fun reward_is_zero :: "beneficiary_reward \<Rightarrow> bool" where
  "reward_is_zero (BeneficiaryReward a) = (a = 0)"

fun reward_defer :: "beneficiary_reward \<Rightarrow> deferred_beneficiary_reward option" where
  "reward_defer (BeneficiaryReward a) =
    (if reward_is_zero (BeneficiaryReward a) then None else Some (DeferredBeneficiaryReward a))"

text \<open>\<open>BeneficiaryMode::apply\<close>. \<open>reward_beneficiary\<close> is revm's post-execution hook on the EVM
  \<open>evm\<close>, and \<open>journaled\<close> whether the journal's state holds the beneficiary; the cell is the
  deferred reward the handler reads afterwards.\<close>

definition mode_apply ::
  "beneficiary_mode \<Rightarrow> reward_ctx \<Rightarrow> ('evm \<Rightarrow> 'err + 'evm) \<Rightarrow> ('evm \<Rightarrow> bool) \<Rightarrow> gas \<Rightarrow>
    'evm \<Rightarrow> deferred_beneficiary_reward option \<Rightarrow>
    ('err + 'evm \<times> deferred_beneficiary_reward option) option" where
  "mode_apply m ctx reward_beneficiary journaled g evm cell =
    (if m = Immediate then Some (map_sum id (\<lambda>e. (e, cell)) (reward_beneficiary evm))
     else case reward_from_gas ctx g of
       None \<Rightarrow> Some (Inr (evm, cell))
     | Some reward \<Rightarrow>
         if reward_is_zero reward \<or> journaled evm
         then Some (map_sum id (\<lambda>e. (e, cell)) (reward_beneficiary evm))
         else do { d \<leftarrow> reward_defer reward; Some (Inr (evm, Some d)) })"

fun apply_to :: "revm_ops \<Rightarrow> deferred_beneficiary_reward \<Rightarrow> account_info option \<Rightarrow> account_info" where
  "apply_to R (DeferredBeneficiaryReward a) acc =
    (let account = (case acc of None \<Rightarrow> default_info R | Some i \<Rightarrow> i)
     in case checked_add (info_balance account) a of
          Some b \<Rightarrow> account\<lparr>info_balance := b\<rparr>
        | None \<Rightarrow> account)"

section \<open>History\<close>

fun latest_dependency :: "beneficiary_read_version \<Rightarrow> tx_id option" where
  "latest_dependency (BeneficiaryReadVersion os) = (case os of [] \<Rightarrow> None | v # _ \<Rightarrow> Some (v_txid v))"

record beneficiary_read =
  br_account :: "account_info option"
  br_version :: beneficiary_read_version

record beneficiary_validation =
  bv_valid :: bool
  bv_dependency :: "tx_id option"

datatype beneficiary_effect =
    EffUnchanged
  | EffReward deferred_beneficiary_reward
  | EffSnapshot "account_info option"

definition effect_from_execution ::
  "revm_ops \<Rightarrow> deferred_beneficiary_reward option \<Rightarrow> account option \<Rightarrow> beneficiary_effect option" where
  "effect_from_execution R reward acc =
    (case reward of
       Some r \<Rightarrow> (if acc = None then Some (EffReward r) else None)
     | None \<Rightarrow> Some (case map_option (finalized_account_from R) acc of
           None \<Rightarrow> EffUnchanged
         | Some Unchanged \<Rightarrow> EffUnchanged
         | Some Deleted \<Rightarrow> EffSnapshot None
         | Some (Created info) \<Rightarrow> EffSnapshot (Some info)
         | Some (Updated info) \<Rightarrow> EffSnapshot (Some info)))"

datatype entry_value = Estimate | Exact beneficiary_effect

record entry_state =
  es_incarnation :: usize
  es_value :: entry_value

definition entry_estimate :: entry_state where
  "entry_estimate = \<lparr>es_incarnation = 0, es_value = Estimate\<rparr>"

definition entry_record :: "usize \<Rightarrow> entry_value \<Rightarrow> entry_state \<Rightarrow> bool \<times> entry_state" where
  "entry_record i v st =
    (if i \<le> es_incarnation st then (False, st)
     else (True, \<lparr>es_incarnation = i, es_value = v\<rparr>))"

definition entry_invalidate :: "usize \<Rightarrow> entry_state \<Rightarrow> bool \<times> entry_state" where
  "entry_invalidate i st =
    (if es_incarnation st \<noteq> i then (False, st)
     else (True, case es_value st of Exact _ \<Rightarrow> st\<lparr>es_value := Estimate\<rparr> | Estimate \<Rightarrow> st))"

record history_scan =
  scan_base :: "account_info option"
  rewards_newest_first :: "deferred_beneficiary_reward list"
  scan_version :: beneficiary_read_version

definition scan_resolve :: "revm_ops \<Rightarrow> history_scan \<Rightarrow> beneficiary_read" where
  "scan_resolve R s =
    \<lparr>br_account = fold (\<lambda>r acc. Some (apply_to R r acc)) (rev (rewards_newest_first s)) (scan_base s),
     br_version = scan_version s\<rparr>"

definition scan_validate :: "history_scan \<Rightarrow> beneficiary_read_version \<Rightarrow> beneficiary_validation" where
  "scan_validate s expected =
    \<lparr>bv_valid = (scan_version s = expected), bv_dependency = latest_dependency (scan_version s)\<rparr>"

record beneficiary_history =
  block_anchor :: "account_info option"
  entries :: "entry_state list"

definition history_new :: "account_info option \<Rightarrow> usize \<Rightarrow> beneficiary_history" where
  "history_new a n = \<lparr>block_anchor = a, entries = replicate n entry_estimate\<rparr>"

fun scan_loop ::
  "beneficiary_history \<Rightarrow> tx_id \<Rightarrow> tx_version list \<Rightarrow> deferred_beneficiary_reward list \<Rightarrow>
    tx_id + history_scan" where
  "scan_loop h 0 os rs = Inr \<lparr>scan_base = block_anchor h, rewards_newest_first = rs,
     scan_version = BeneficiaryReadVersion os\<rparr>"
| "scan_loop h (Suc w) os rs =
    (let st = entries h ! w; os' = os @ [TxVersion w (es_incarnation st)]
     in case es_value st of
          Estimate \<Rightarrow> Inl w
        | Exact EffUnchanged \<Rightarrow> scan_loop h w os' rs
        | Exact (EffReward r) \<Rightarrow> scan_loop h w os' (rs @ [r])
        | Exact (EffSnapshot acc) \<Rightarrow> Inr \<lparr>scan_base = acc, rewards_newest_first = rs,
            scan_version = BeneficiaryReadVersion os'\<rparr>)"

definition scan_before :: "beneficiary_history \<Rightarrow> tx_id \<Rightarrow> (tx_id + history_scan) option" where
  "scan_before h t = (if t \<le> length (entries h) then Some (scan_loop h t [] []) else None)"

definition history_resolve_before ::
  "revm_ops \<Rightarrow> beneficiary_history \<Rightarrow> tx_id \<Rightarrow> (tx_id + beneficiary_read) option" where
  "history_resolve_before R h t = map_option (map_sum id (scan_resolve R)) (scan_before h t)"

definition history_validate ::
  "beneficiary_history \<Rightarrow> tx_id \<Rightarrow> beneficiary_read_version \<Rightarrow> beneficiary_validation option" where
  "history_validate h t expected =
    map_option (\<lambda>r. case r of
        Inr scan \<Rightarrow> scan_validate scan expected
      | Inl blocker \<Rightarrow> \<lparr>bv_valid = False, bv_dependency = Some blocker\<rparr>) (scan_before h t)"

text \<open>An operation on the entry of one transaction; a transaction outside the block panics.\<close>

definition history_entry_op ::
  "(entry_state \<Rightarrow> bool \<times> entry_state) \<Rightarrow> tx_id \<Rightarrow> beneficiary_history \<Rightarrow>
    (bool \<times> beneficiary_history) option" where
  "history_entry_op f t h =
    do { st \<leftarrow> list_get (entries h) t;
         let (ok, st') = f st;
         Some (ok, h\<lparr>entries := (entries h)[t := st']\<rparr>) }"

definition history_record_execution ::
  "revm_ops \<Rightarrow> tx_version \<Rightarrow> deferred_beneficiary_reward option \<Rightarrow> account option \<Rightarrow>
    beneficiary_history \<Rightarrow> (bool \<times> beneficiary_history) option" where
  "history_record_execution R v reward acc h =
    do { eff \<leftarrow> effect_from_execution R reward acc;
         history_entry_op (entry_record (v_incarnation v) (Exact eff)) (v_txid v) h }"

definition history_record_estimate ::
  "tx_version \<Rightarrow> beneficiary_history \<Rightarrow> (bool \<times> beneficiary_history) option" where
  "history_record_estimate v = history_entry_op (entry_record (v_incarnation v) Estimate) (v_txid v)"

definition history_invalidate ::
  "tx_version \<Rightarrow> beneficiary_history \<Rightarrow> (bool \<times> beneficiary_history) option" where
  "history_invalidate v = history_entry_op (entry_invalidate (v_incarnation v)) (v_txid v)"

section \<open>The aggregate\<close>

record beneficiary =
  ben_address :: address
  ben_history :: beneficiary_history

definition beneficiary_new :: "address \<Rightarrow> account_info option \<Rightarrow> usize \<Rightarrow> beneficiary" where
  "beneficiary_new a anchor n = \<lparr>ben_address = a, ben_history = history_new anchor n\<rparr>"

definition beneficiary_matches :: "beneficiary \<Rightarrow> address \<Rightarrow> bool" where
  "beneficiary_matches b a = (ben_address b = a)"

definition lift_history ::
  "(beneficiary_history \<Rightarrow> (bool \<times> beneficiary_history) option) \<Rightarrow> beneficiary \<Rightarrow>
    (bool \<times> beneficiary) option" where
  "lift_history f b = map_option (\<lambda>(ok, h). (ok, b\<lparr>ben_history := h\<rparr>)) (f (ben_history b))"

definition record_execution ::
  "revm_ops \<Rightarrow> tx_version \<Rightarrow> 'r speculative_result \<Rightarrow> beneficiary \<Rightarrow> (bool \<times> beneficiary) option" where
  "record_execution R v res b =
    (let reward = deferred_reward res; acc = map_of (sr_state res) (ben_address b)
     in if reward = None \<or> acc = None
        then lift_history (history_record_execution R v reward acc) b else None)"

definition record_estimate :: "tx_version \<Rightarrow> beneficiary \<Rightarrow> (bool \<times> beneficiary) option" where
  "record_estimate v = lift_history (history_record_estimate v)"

definition invalidate :: "tx_version \<Rightarrow> beneficiary \<Rightarrow> (bool \<times> beneficiary) option" where
  "invalidate v = lift_history (history_invalidate v)"

definition resolve_before :: "revm_ops \<Rightarrow> beneficiary \<Rightarrow> tx_id \<Rightarrow> (tx_id + beneficiary_read) option" where
  "resolve_before R b t = history_resolve_before R (ben_history b) t"

definition beneficiary_validate ::
  "beneficiary \<Rightarrow> tx_id \<Rightarrow> beneficiary_read_version \<Rightarrow> beneficiary_validation option" where
  "beneficiary_validate b t expected = history_validate (ben_history b) t expected"

section \<open>Resolution is the fold of the effects\<close>

text \<open>What one effect does to the account, and the account before transaction \<open>t\<close> when the
  transactions have the effects \<open>effs\<close>: the specification the backward scan is compared with.\<close>

fun effect_apply :: "revm_ops \<Rightarrow> beneficiary_effect \<Rightarrow> account_info option \<Rightarrow> account_info option" where
  "effect_apply R EffUnchanged acc = acc"
| "effect_apply R (EffReward r) acc = Some (apply_to R r acc)"
| "effect_apply R (EffSnapshot a) acc = a"

fun account_before ::
  "revm_ops \<Rightarrow> account_info option \<Rightarrow> (tx_id \<Rightarrow> beneficiary_effect) \<Rightarrow> tx_id \<Rightarrow> account_info option" where
  "account_before R anchor effs 0 = anchor"
| "account_before R anchor effs (Suc t) = effect_apply R (effs t) (account_before R anchor effs t)"

definition completes :: "beneficiary_history \<Rightarrow> tx_id \<Rightarrow> (tx_id \<Rightarrow> beneficiary_effect) \<Rightarrow> bool" where
  "completes h t effs \<longleftrightarrow> (\<forall>w<t. \<forall>e. es_value (entries h ! w) = Exact e \<longrightarrow> effs w = e)"

lemma completes_Suc: "completes h (Suc w) effs \<Longrightarrow> completes h w effs"
  by (simp add: completes_def)

lemma scan_loop_account:
  "scan_loop h t os rs = Inr s \<Longrightarrow> completes h t effs \<Longrightarrow>
    br_account (scan_resolve R s) =
      fold (\<lambda>r acc. Some (apply_to R r acc)) (rev rs) (account_before R (block_anchor h) effs t)"
proof (induction h t os rs rule: scan_loop.induct)
  case (2 h w os rs)
  have eff: "\<And>e. es_value (entries h ! w) = Exact e \<Longrightarrow> effs w = e"
    using "2.prems"(2) by (simp add: completes_def)
  show ?case
    using "2.IH" "2.prems" completes_Suc [OF "2.prems"(2)]
    by (auto simp: Let_def eff scan_resolve_def
        split: entry_value.splits beneficiary_effect.splits)
qed (auto simp: scan_resolve_def)

lemma scan_loop_blocked: "scan_loop h t os rs = Inl b \<Longrightarrow> b < t \<and> es_value (entries h ! b) = Estimate"
  by (induction t arbitrary: os rs)
    (auto simp: Let_def less_Suc_eq split: entry_value.splits beneficiary_effect.splits)

lemma scan_loop_resolves:
  "(\<And>w. w < t \<Longrightarrow> es_value (entries h ! w) \<noteq> Estimate) \<Longrightarrow> \<exists>s. scan_loop h t os rs = Inr s"
proof (induction h t os rs rule: scan_loop.induct)
  case (2 h w os rs)
  then have "es_value (entries h ! w) \<noteq> Estimate" by simp
  with 2 show ?case
    by (auto simp: Let_def split: entry_value.splits beneficiary_effect.splits)
qed simp

section \<open>The history as a versioned store\<close>

text \<open>The operations other threads may perform between two looks at the history.\<close>

inductive history_step :: "revm_ops \<Rightarrow> beneficiary_history \<Rightarrow> beneficiary_history \<Rightarrow> bool" for R where
  exact: "history_record_execution R v reward acc h = Some (ok, h') \<Longrightarrow> history_step R h h'"
| estimate: "history_record_estimate v h = Some (ok, h') \<Longrightarrow> history_step R h h'"
| invalidated: "history_invalidate v h = Some (ok, h') \<Longrightarrow> history_step R h h'"

inductive_cases history_stepE: "history_step R h h'"

definition entry_at :: "beneficiary_history \<Rightarrow> tx_id \<Rightarrow> entry_state" where
  "entry_at h w = (if w < length (entries h) then entries h ! w else entry_estimate)"

definition history_clock :: "beneficiary_history \<Rightarrow> tx_id \<Rightarrow> nat" where
  "history_clock h w = es_incarnation (entry_at h w)"

definition history_slot :: "beneficiary_history \<Rightarrow> tx_id \<Rightarrow> (nat \<times> beneficiary_effect) option" where
  "history_slot h w = (case es_value (entry_at h w) of
     Estimate \<Rightarrow> None | Exact e \<Rightarrow> Some (es_incarnation (entry_at h w), e))"

lemma history_entry_op_Some:
  "history_entry_op f t h = Some (ok, h') \<longleftrightarrow>
    t < length (entries h) \<and> (\<exists>st'. f (entries h ! t) = (ok, st') \<and> h' = h\<lparr>entries := (entries h)[t := st']\<rparr>)"
  by (auto simp: history_entry_op_def list_get_def Let_def split: prod.splits)

lemma entry_op_at:
  "history_entry_op f t h = Some (ok, h') \<Longrightarrow>
    entry_at h' w = (if w = t then snd (f (entry_at h t)) else entry_at h w)"
  by (auto simp: history_entry_op_Some entry_at_def)

lemma history_step_entry:
  assumes "history_step R h h'"
  shows "entry_at h' w = entry_at h w \<or>
    es_incarnation (entry_at h w) < es_incarnation (entry_at h' w) \<or>
    (es_incarnation (entry_at h' w) = es_incarnation (entry_at h w) \<and> es_value (entry_at h' w) = Estimate)"
  using assms
  by (cases rule: history_stepE)
    (auto simp: history_record_execution_def history_record_estimate_def history_invalidate_def
      entry_record_def entry_invalidate_def bind_eq_Some_conv dest!: entry_op_at [where w = w]
      split: if_splits entry_value.splits)

lemma history_step_frame:
  "history_step R h h' \<Longrightarrow> block_anchor h' = block_anchor h \<and> length (entries h') = length (entries h)"
  by (erule history_stepE)
    (auto simp: history_record_execution_def history_record_estimate_def history_invalidate_def
      history_entry_op_Some bind_eq_Some_conv)

interpretation hv: versioned_store "history_step R" history_clock history_slot "\<lambda>_. True"
proof (unfold_locales, goal_cases)
  case (2 s k i v)
  then show ?case by (auto simp: history_slot_def history_clock_def split: entry_value.splits)
next
  case (3 s s' k)
  then show ?case using history_step_entry [of R s s' k] by (auto simp: history_clock_def)
next
  case (4 s s' k i v)
  then show ?case using history_step_entry [of R s s' k]
    by (auto simp: history_clock_def history_slot_def split: entry_value.splits)
qed simp

lemma history_steps_frame:
  "(history_step R)\<^sup>*\<^sup>* h h' \<Longrightarrow> block_anchor h' = block_anchor h \<and> length (entries h') = length (entries h)"
  by (induction rule: rtranclp_induct) (auto dest: history_step_frame)

section \<open>Validated reads\<close>

lemma scan_loop_origins: "scan_loop h t os rs = Inr s \<Longrightarrow> \<exists>xs. origins (scan_version s) = os @ xs"
proof (induction t arbitrary: os rs)
  case (Suc w)
  then show ?case
    by (fastforce simp: Let_def split: entry_value.splits beneficiary_effect.splits)
qed auto

lemma scan_loop_same_version:
  assumes "scan_loop h t os rs = Inr s" and "scan_loop h' t os rs = Inr s'"
    and "scan_version s' = scan_version s" and "block_anchor h' = block_anchor h"
    and same: "\<And>w e e'. w < t \<Longrightarrow> es_incarnation (entries h' ! w) = es_incarnation (entries h ! w) \<Longrightarrow>
      es_value (entries h ! w) = Exact e \<Longrightarrow> es_value (entries h' ! w) = Exact e' \<Longrightarrow> e' = e"
  shows "s' = s"
  using assms
proof (induction t arbitrary: os rs)
  case (Suc w)
  let ?v = "\<lambda>h. TxVersion w (es_incarnation (entries h ! w))"
  have head: "\<exists>xs. origins (scan_version s) = os @ ?v h # xs"
    if "scan_loop h (Suc w) os rs = Inr s" for h s
    using that scan_loop_origins [of h w "os @ [?v h]"]
    by (fastforce simp: Let_def split: entry_value.splits beneficiary_effect.splits)
  have inc: "es_incarnation (entries h' ! w) = es_incarnation (entries h ! w)"
    using head [OF Suc.prems(1)] head [OF Suc.prems(2)] Suc.prems(3) by auto
  have IH: "\<And>os rs. scan_loop h w os rs = Inr s \<Longrightarrow> scan_loop h' w os rs = Inr s' \<Longrightarrow> s' = s"
    using Suc.IH Suc.prems(3-5) by (meson less_Suc_eq)
  obtain e where e: "es_value (entries h ! w) = Exact e"
    using Suc.prems(1) by (auto simp: Let_def split: entry_value.splits)
  obtain e' where e': "es_value (entries h' ! w) = Exact e'"
    using Suc.prems(2) by (auto simp: Let_def split: entry_value.splits)
  have "e' = e" using Suc.prems(5) [OF _ inc e e'] by simp
  then show ?case
    using Suc.prems(1,2) e e' inc IH by (auto simp: Let_def split: beneficiary_effect.splits)
qed simp

text \<open>A scan locks one entry at a time, so the entries it sees may come from different moments:
  \<open>view\<close> is what a scan between \<open>h0\<close> and \<open>h1\<close> can see.\<close>

definition torn_view ::
  "revm_ops \<Rightarrow> beneficiary_history \<Rightarrow> beneficiary_history \<Rightarrow> beneficiary_history \<Rightarrow> bool" where
  "torn_view R h0 h1 view \<longleftrightarrow> (history_step R)\<^sup>*\<^sup>* h0 h1 \<and>
    block_anchor view = block_anchor h0 \<and> length (entries view) = length (entries h0) \<and>
    (\<forall>w<length (entries h0). \<exists>h. (history_step R)\<^sup>*\<^sup>* h0 h \<and> (history_step R)\<^sup>*\<^sup>* h h1 \<and>
       entries view ! w = entries h ! w)"

lemma torn_view_same_effect:
  assumes "torn_view R h0 h1 view" and "(history_step R)\<^sup>*\<^sup>* h1 h2" and "w < length (entries h0)"
    and "es_incarnation (entries h2 ! w) = es_incarnation (entries view ! w)"
    and "es_value (entries view ! w) = Exact e" and "es_value (entries h2 ! w) = Exact e'"
  shows "e' = e"
proof -
  obtain h where h: "(history_step R)\<^sup>*\<^sup>* h0 h" "(history_step R)\<^sup>*\<^sup>* h h1" "entries view ! w = entries h ! w"
    using assms(1,3) by (auto simp: torn_view_def)
  have "(history_step R)\<^sup>*\<^sup>* h h2" using h(2) assms(2) by (rule rtranclp_trans)
  moreover have "length (entries h) = length (entries h0)" "length (entries h2) = length (entries h)"
    using history_steps_frame [OF h(1)] history_steps_frame [OF calculation] by auto
  ultimately show ?thesis
    using hv.same_incarnation_same_value [of R h h2 w "es_incarnation (entries h ! w)" e e'] assms(3-6) h(3)
    by (simp add: history_slot_def entry_at_def)
qed

lemma validated_read_current:
  assumes "torn_view R h0 h1 view" and "(history_step R)\<^sup>*\<^sup>* h1 h2"
    and "history_resolve_before R view t = Some (Inr r)"
    and "history_validate h2 t (br_version r) = Some v" and "bv_valid v"
  shows "history_resolve_before R h2 t = Some (Inr r)"
proof -
  have len: "length (entries view) = length (entries h0)" and anchor: "block_anchor view = block_anchor h0"
    using assms(1) by (auto simp: torn_view_def)
  obtain s where t: "t \<le> length (entries view)" and s: "scan_loop view t [] [] = Inr s"
    and r: "r = scan_resolve R s"
    using assms(3)
    by (cases "scan_loop view t [] []")
      (auto simp: history_resolve_before_def scan_before_def split: if_splits)
  obtain s' where t': "t \<le> length (entries h2)" and s': "scan_loop h2 t [] [] = Inr s'"
    and ver: "scan_version s' = scan_version s"
    using assms(4,5) r
    by (cases "scan_loop h2 t [] []")
      (auto simp: history_validate_def scan_before_def scan_validate_def scan_resolve_def split: if_splits)
  have "(history_step R)\<^sup>*\<^sup>* h0 h2"
    using assms(1,2) by (auto simp: torn_view_def)
  then have "block_anchor h2 = block_anchor view"
    using history_steps_frame anchor by simp
  then have "s' = s"
  proof (rule scan_loop_same_version [OF s s' ver])
    fix w e e'
    assume "w < t" and same: "es_incarnation (entries h2 ! w) = es_incarnation (entries view ! w)"
      "es_value (entries view ! w) = Exact e" "es_value (entries h2 ! w) = Exact e'"
    then have "w < length (entries h0)" using t len by simp
    then show "e' = e" by (rule torn_view_same_effect [OF assms(1,2) _ same])
  qed
  then show ?thesis
    using t' s' r by (simp add: history_resolve_before_def scan_before_def)
qed

section \<open>Properties\<close>

text \<open>\<^bold>\<open>C11\<close>. Resolving the beneficiary before a transaction gives the account that the
  transactions before it produce from the block-start account, each adding its reward with a
  checked addition or replacing the account. Estimates that a newer snapshot hides may turn into
  any effect without changing the answer, so the account is right for every completion.\<close>

theorem resolve_before_correct:
  assumes "resolve_before R b t = Some (Inr r)" and "completes (ben_history b) t effs"
  shows "br_account r = account_before R (block_anchor (ben_history b)) effs t"
  using assms scan_loop_account [of "ben_history b" t "[]" "[]" _ effs R]
  by (auto simp: resolve_before_def history_resolve_before_def scan_before_def split: if_splits)
    (case_tac "scan_loop (ben_history b) t [] []"; auto)

definition sample_history :: beneficiary_history where
  "sample_history = \<lparr>block_anchor = Some (sample_info 1), entries =
    [entry_estimate, \<lparr>es_incarnation = 2, es_value = Exact (EffSnapshot (Some (sample_info 5)))\<rparr>,
     \<lparr>es_incarnation = 1, es_value = Exact (EffReward (DeferredBeneficiaryReward 7))\<rparr>]\<rparr>"

definition sample_effects :: "tx_id \<Rightarrow> beneficiary_effect" where
  "sample_effects w = (if w = 1 then EffSnapshot (Some (sample_info 5))
     else EffReward (DeferredBeneficiaryReward 7))"

theorem resolve_before_correct_witness:
  "\<exists>r. resolve_before sample_revm \<lparr>ben_address = 9, ben_history = sample_history\<rparr> 3 = Some (Inr r) \<and>
    completes sample_history 3 sample_effects \<and>
    br_account r = account_before sample_revm (Some (sample_info 1)) sample_effects 3 \<and>
    br_account r = Some (sample_info 12)"
proof -
  have c: "completes sample_history 3 sample_effects"
    by (auto simp: completes_def sample_history_def sample_effects_def entry_estimate_def
        less_Suc_eq numeral_3_eq_3)
  obtain r where r: "resolve_before sample_revm \<lparr>ben_address = 9, ben_history = sample_history\<rparr> 3 = Some (Inr r)"
    by (simp add: resolve_before_def history_resolve_before_def scan_before_def sample_history_def
        numeral_3_eq_3)
  have "account_before sample_revm (Some (sample_info 1)) sample_effects 3 = Some (sample_info 12)"
    by (simp add: sample_effects_def sample_info_def numeral_3_eq_3 checked_add_def)
  then show ?thesis
    using resolve_before_correct [OF r] c r by (auto simp: sample_history_def)
qed

text \<open>\<^bold>\<open>C29\<close>. A beneficiary read that validates is current: if the version chain of an
  earlier read, taken entry by entry while other threads publish and invalidate, validates on a
  later history, then resolving on that later history gives the account that was read.\<close>

theorem validated_beneficiary_read_current:
  assumes "torn_view R h0 h1 view" and "(history_step R)\<^sup>*\<^sup>* h1 h2"
    and "history_resolve_before R view t = Some (Inr r)"
    and "history_validate h2 t (br_version r) = Some v" and "bv_valid v"
  shows "history_resolve_before R h2 t = Some (Inr r)"
  using assms by (rule validated_read_current)

definition sample_history_at :: "nat \<Rightarrow> beneficiary_history" where
  "sample_history_at k = \<lparr>block_anchor = Some (sample_info 1), entries =
    [\<lparr>es_incarnation = (if 1 \<le> k then 1 else 0),
      es_value = (if 1 \<le> k then Exact (EffReward (DeferredBeneficiaryReward 7)) else Estimate)\<rparr>,
     \<lparr>es_incarnation = (if 2 \<le> k then 1 else 0), es_value = (if 2 \<le> k then Exact EffUnchanged else Estimate)\<rparr>]\<rparr>"

lemma sample_history_steps:
  "history_step R (sample_history_at 0) (sample_history_at 1)"
  "history_step R (sample_history_at 1) (sample_history_at 2)"
proof -
  have "history_record_execution R (TxVersion 0 1) (Some (DeferredBeneficiaryReward 7)) None
      (sample_history_at 0) = Some (True, sample_history_at 1)"
    by (simp add: history_record_execution_def effect_from_execution_def history_entry_op_def
        entry_record_def sample_history_at_def)
  then show "history_step R (sample_history_at 0) (sample_history_at 1)" by (rule exact)
  have "history_record_execution R (TxVersion 1 1) None None
      (sample_history_at 1) = Some (True, sample_history_at 2)"
    by (simp add: history_record_execution_def effect_from_execution_def history_entry_op_def
        entry_record_def sample_history_at_def)
  then show "history_step R (sample_history_at 1) (sample_history_at 2)" by (rule exact)
qed

theorem validated_beneficiary_read_current_witness:
  "\<exists>r. torn_view sample_revm (sample_history_at 0) (sample_history_at 1) (sample_history_at 1) \<and>
    history_resolve_before sample_revm (sample_history_at 1) 1 = Some (Inr r) \<and>
    history_resolve_before sample_revm (sample_history_at 2) 1 = Some (Inr r) \<and>
    br_account r = Some (sample_info 8)"
proof -
  let ?s = "history_step sample_revm"
  have torn: "torn_view sample_revm (sample_history_at 0) (sample_history_at 1) (sample_history_at 1)"
    using sample_history_steps(1) [of sample_revm]
    by (auto simp: torn_view_def sample_history_at_def intro: r_into_rtranclp)
  have steps: "?s\<^sup>*\<^sup>* (sample_history_at 1) (sample_history_at 2)"
    using sample_history_steps(2) by (rule r_into_rtranclp)
  let ?r = "\<lparr>br_account = Some (sample_info 8), br_version = BeneficiaryReadVersion [TxVersion 0 1]\<rparr>"
  have read: "history_resolve_before sample_revm (sample_history_at 1) 1 = Some (Inr ?r)"
    by (simp add: history_resolve_before_def scan_before_def sample_history_at_def scan_resolve_def
        checked_add_def sample_info_def)
  have valid: "history_validate (sample_history_at 2) 1 (br_version ?r) =
      Some \<lparr>bv_valid = True, bv_dependency = Some 0\<rparr>"
    by (simp add: history_validate_def scan_before_def sample_history_at_def scan_validate_def)
  show ?thesis
    using validated_beneficiary_read_current [OF torn steps read valid] torn read by simp
qed

end
