(* ===== verification/Incarnation_Db.thy ===== *)
theory Incarnation_Db
  imports Beneficiary
begin

text \<open>
  The database adapter of one transaction incarnation (\<open>incarnation_db.rs\<close>): reads resolve
  against the multi-version memory, the beneficiary history or the backing database, and record
  the version they saw; a finished incarnation publishes its writes.

  Other threads change the shared stores while an incarnation runs. A \<open>world\<close> is the shared stores
  at one moment; the operations take the sequence \<open>W\<close> of worlds, and every single access (one
  locked map entry, one database call) sees the world of its own moment and moves \<open>now\<close> on.
\<close>

section \<open>State\<close>

record 'e world =
  w_mv :: mv_memory
  w_ben :: beneficiary
  w_db :: "'e database_ref"

record incarnation_db =
  idb_read_set :: "(location \<times> read_version) list"
  account_snapshots :: "(address \<times> account_basic) list"
  idb_version :: tx_version
  idb_blocking_txs :: "tx_id set"
  idb_blocked_by_beneficiary :: bool
  now :: nat

record incarnation_accesses =
  ia_read_set :: "(location \<times> read_version) list"
  ia_write_set :: "location set"
  ia_blocking_txs :: "tx_id set"
  ia_blocked_by_beneficiary :: bool

definition is_blocked :: "incarnation_accesses \<Rightarrow> bool" where
  "is_blocked a \<longleftrightarrow> ia_blocking_txs a \<noteq> {}"

definition idb_new :: "nat \<Rightarrow> incarnation_db" where
  "idb_new n = \<lparr>idb_read_set = [], account_snapshots = [], idb_version = TxVersion 0 0, idb_blocking_txs = {},
     idb_blocked_by_beneficiary = False, now = n\<rparr>"

definition begin_incarnation :: "tx_version \<Rightarrow> incarnation_db \<Rightarrow> incarnation_db" where
  "begin_incarnation v db = db\<lparr>idb_version := v, idb_read_set := [], account_snapshots := [],
     idb_blocking_txs := {}, idb_blocked_by_beneficiary := False\<rparr>"

abbreviation idb_txid :: "incarnation_db \<Rightarrow> tx_id" where
  "idb_txid db \<equiv> v_txid (idb_version db)"

abbreviation tick :: "incarnation_db \<Rightarrow> incarnation_db" where
  "tick db \<equiv> db\<lparr>now := Suc (now db)\<rparr>"

section \<open>Reads\<close>

definition record_read :: "location \<Rightarrow> read_version \<Rightarrow> incarnation_db \<Rightarrow> incarnation_db" where
  "record_read l v db = db\<lparr>idb_read_set := AList.update l v (idb_read_set db)\<rparr>"

text \<open>The selectors of the \<open>if let MemoryValue::...\<close> patterns.\<close>

fun as_basic :: "memory_value \<Rightarrow> account_info option option" where
  "as_basic (MBasic a) = Some a"
| "as_basic _ = None"

fun as_code :: "memory_value \<Rightarrow> bytecode option" where
  "as_code (MCode c) = Some c"
| "as_code _ = None"

fun as_storage :: "memory_value \<Rightarrow> u256 option" where
  "as_storage (MStorage v) = Some v"
| "as_storage _ = None"

fun as_reset :: "memory_value \<Rightarrow> unit option" where
  "as_reset MStorageReset = Some ()"
| "as_reset _ = None"

text \<open>The lookup every read starts with: the latest entry of \<open>l\<close> before this transaction, the
  version it has, and the blocker if it is an estimate.\<close>

definition mv_probe ::
  "(nat \<Rightarrow> 'e world) \<Rightarrow> location \<Rightarrow> (memory_value \<Rightarrow> 'a option) \<Rightarrow> incarnation_db \<Rightarrow>
    (tx_id \<times> 'a) option \<times> read_version \<times> incarnation_db" where
  "mv_probe W l sel db =
    (case prev_entry (w_mv (W (now db)) l) (idb_txid db) of
       Some (t, e) \<Rightarrow>
         (case sel (me_data e) of
            Some x \<Rightarrow> (Some (t, x), RvMvMemory (TxVersion t (me_incarnation e)),
              tick (if me_estimate e then db\<lparr>idb_blocking_txs := insert t (idb_blocking_txs db)\<rparr> else db))
          | None \<Rightarrow> (None, RvStorage, tick db))
     | None \<Rightarrow> (None, RvStorage, tick db))"

definition code_by_address ::
  "(nat \<Rightarrow> 'e world) \<Rightarrow> address \<Rightarrow> b256 \<Rightarrow> incarnation_db \<Rightarrow> ('e + bytecode) \<times> incarnation_db" where
  "code_by_address W a h db =
    (let (hit, version, db1) = mv_probe W (LCode a) as_code db
     in case hit of
          Some (_, c) \<Rightarrow> (Inr c, record_read (LCode a) version db1)
        | None \<Rightarrow>
            (case code_by_hash_ref (w_db (W (now db1))) h of
               Inl e \<Rightarrow> (Inl e, tick db1)
             | Inr c \<Rightarrow> (Inr c, record_read (LCode a) version (tick db1))))"

definition snapshot_account :: "revm_ops \<Rightarrow> address \<Rightarrow> account_info option \<Rightarrow> incarnation_db \<Rightarrow> incarnation_db" where
  "snapshot_account R a acc db =
    (case acc of None \<Rightarrow> db
     | Some i \<Rightarrow> db\<lparr>account_snapshots := AList.update a (account_basic_from R i) (account_snapshots db)\<rparr>)"

text \<open>The first part of \<open>basic\<close>: the account, before its code is filled in. A beneficiary outside
  its block panics.\<close>

definition basic_account ::
  "revm_ops \<Rightarrow> (nat \<Rightarrow> 'e world) \<Rightarrow> address \<Rightarrow> incarnation_db \<Rightarrow>
    (('e + account_info option) \<times> incarnation_db) option" where
  "basic_account R W a db =
    (if beneficiary_matches (w_ben (W (now db))) a then
       do { r \<leftarrow> resolve_before R (w_ben (W (now db))) (idb_txid db);
            Some (case r of
              Inr read \<Rightarrow> (Inr (br_account read),
                snapshot_account R a (br_account read)
                  (record_read (LBasic a) (RvBeneficiary (br_version read)) (tick db)))
            | Inl blocker \<Rightarrow> (Inr None,
                (tick db)\<lparr>idb_blocking_txs := insert blocker (idb_blocking_txs db),
                  idb_blocked_by_beneficiary := True\<rparr>)) }
     else
       let (hit, version, db1) = mv_probe W (LBasic a) as_basic db
       in Some (case hit of
            Some (_, acc) \<Rightarrow> (Inr acc, record_read (LBasic a) version (snapshot_account R a acc db1))
          | None \<Rightarrow>
              (case basic_ref (w_db (W (now db1))) a of
                 Inl e \<Rightarrow> (Inl e, tick db1)
               | Inr acc \<Rightarrow> (Inr acc, record_read (LBasic a) version (snapshot_account R a acc (tick db1))))))"

definition idb_basic ::
  "revm_ops \<Rightarrow> (nat \<Rightarrow> 'e world) \<Rightarrow> address \<Rightarrow> incarnation_db \<Rightarrow>
    (('e + account_info option) \<times> incarnation_db) option" where
  "idb_basic R W a db =
    do { (r, db1) \<leftarrow> basic_account R W a db;
         Some (case r of
           Inr (Some info) \<Rightarrow>
             if \<not> is_empty_code_hash R info \<and> info_code info = None
             then (case code_by_address W a (info_code_hash info) db1 of
                     (Inl e, db2) \<Rightarrow> (Inl e, db2)
                   | (Inr c, db2) \<Rightarrow> (Inr (Some (info\<lparr>info_code := Some c\<rparr>)), db2))
             else (r, db1)
         | _ \<Rightarrow> (r, db1)) }"

definition idb_code_by_hash :: "(nat \<Rightarrow> 'e world) \<Rightarrow> b256 \<Rightarrow> incarnation_db \<Rightarrow> ('e + bytecode) \<times> incarnation_db" where
  "idb_code_by_hash W h db = (code_by_hash_ref (w_db (W (now db))) h, tick db)"

definition idb_storage ::
  "(nat \<Rightarrow> 'e world) \<Rightarrow> address \<Rightarrow> u256 \<Rightarrow> incarnation_db \<Rightarrow> ('e + u256) \<times> incarnation_db" where
  "idb_storage W a k db =
    (let (reset, reset_version, db1) = mv_probe W (LStorageReset a) as_reset db;
         db2 = record_read (LStorageReset a) reset_version db1;
         (slot_write, slot_version, db3) = mv_probe W (LStorage a k) as_storage db2;
         db4 = record_read (LStorage a k) slot_version db3
     in case slot_write of
          Some (slot_txid, v) \<Rightarrow>
            (case reset of
               None \<Rightarrow> (Inr v, db4)
             | Some (reset_txid, _) \<Rightarrow> if reset_txid \<le> slot_txid then (Inr v, db4) else (Inr 0, db4))
        | None \<Rightarrow>
            (case reset of
               Some _ \<Rightarrow> (Inr 0, db4)
             | None \<Rightarrow> (storage_ref (w_db (W (now db4))) a k, tick db4)))"

definition idb_block_hash :: "(nat \<Rightarrow> 'e world) \<Rightarrow> u64 \<Rightarrow> incarnation_db \<Rightarrow> ('e + b256) \<times> incarnation_db" where
  "idb_block_hash W n db = (block_hash_ref (w_db (W (now db))) n, tick db)"

section \<open>Publication\<close>

text \<open>\<open>publish_value\<close>: one insertion into the memory and the write set.\<close>

definition publish_value ::
  "tx_version \<Rightarrow> bool \<Rightarrow> location \<Rightarrow> memory_value \<Rightarrow> mv_memory \<times> location set \<Rightarrow> mv_memory \<times> location set" where
  "publish_value v estimate l d = (\<lambda>(m, ws).
     (m(l := (m l)(v_txid v \<mapsto> memory_entry_new (v_incarnation v) d estimate)), insert l ws))"

definition publish_storage_reset ::
  "tx_version \<Rightarrow> bool \<Rightarrow> address \<Rightarrow> mv_memory \<times> location set \<Rightarrow> mv_memory \<times> location set" where
  "publish_storage_reset v estimate a = publish_value v estimate (LStorageReset a) MStorageReset"

text \<open>revm's \<open>Account::changed_storage_slots\<close>.\<close>

definition changed_storage_slots :: "revm_ops \<Rightarrow> account \<Rightarrow> (u256 \<times> storage_slot) list" where
  "changed_storage_slots R acc = filter (\<lambda>(_, s). slot_is_changed R s) (acct_storage acc)"

definition code_changed :: "revm_ops \<Rightarrow> account_basic option \<Rightarrow> account_info \<Rightarrow> bool" where
  "code_changed R snapshot info \<longleftrightarrow> \<not> is_empty_code_hash R info \<and> info_code info \<noteq> None \<and>
     (case snapshot of None \<Rightarrow> True | Some b \<Rightarrow> ab_code_hash b \<noteq> Some (info_code_hash info))"

definition publish_account ::
  "revm_ops \<Rightarrow> beneficiary \<Rightarrow> incarnation_db \<Rightarrow> bool \<Rightarrow> address \<times> account \<Rightarrow>
    mv_memory \<times> location set \<Rightarrow> mv_memory \<times> location set" where
  "publish_account R b db estimate = (\<lambda>(a, acc) st.
    let put = publish_value (idb_version db) estimate;
        live = (\<lambda>info created st.
          let st1 = (if created then publish_storage_reset (idb_version db) estimate a st else st);
              snapshot = map_of (account_snapshots db) a;
              cc = code_changed R snapshot info;
              st2 = (if cc then put (LCode a) (MCode (the (info_code info))) st1 else st1);
              st3 = (if \<not> beneficiary_matches b a \<and>
                       (cc \<or> (case snapshot of None \<Rightarrow> True
                          | Some s \<Rightarrow> ab_nonce s \<noteq> info_nonce info \<or> ab_balance s \<noteq> info_balance info))
                     then put (LBasic a) (MBasic (Some (info\<lparr>info_code := None\<rparr>))) st2 else st2)
          in fold (\<lambda>(k, s). put (LStorage a k) (MStorage (present_value s))) (changed_storage_slots R acc) st3)
    in case finalized_account_from R acc of
         Unchanged \<Rightarrow> st
       | Deleted \<Rightarrow>
           publish_storage_reset (idb_version db) estimate a
             (if \<not> beneficiary_matches b a then put (LBasic a) (MBasic None) st else st)
       | Created info \<Rightarrow> live info True st
       | Updated info \<Rightarrow> live info False st)"

definition publish_writes ::
  "revm_ops \<Rightarrow> beneficiary \<Rightarrow> incarnation_db \<Rightarrow> evm_state \<Rightarrow> bool \<Rightarrow> mv_memory \<Rightarrow> mv_memory \<times> location set" where
  "publish_writes R b db changes estimate m = fold (publish_account R b db estimate) changes (m, {})"

definition finish_incarnation ::
  "revm_ops \<Rightarrow> beneficiary \<Rightarrow> evm_state \<Rightarrow> incarnation_db \<Rightarrow> mv_memory \<Rightarrow>
    incarnation_accesses \<times> incarnation_db \<times> mv_memory" where
  "finish_incarnation R b changes db m =
    (let estimate = (idb_blocking_txs db \<noteq> {});
         (m', ws) = publish_writes R b db changes estimate m
     in (\<lparr>ia_read_set = idb_read_set db, ia_write_set = ws, ia_blocking_txs = idb_blocking_txs db,
          ia_blocked_by_beneficiary = idb_blocked_by_beneficiary db\<rparr>,
         db\<lparr>account_snapshots := [], idb_read_set := [], idb_blocking_txs := {}, idb_blocked_by_beneficiary := False\<rparr>,
         m'))"

definition discard_incarnation :: "incarnation_db \<Rightarrow> incarnation_accesses \<times> incarnation_db" where
  "discard_incarnation db =
    (\<lparr>ia_read_set = [], ia_write_set = {}, ia_blocking_txs = idb_blocking_txs db,
      ia_blocked_by_beneficiary = idb_blocked_by_beneficiary db\<rparr>,
     db\<lparr>idb_read_set := [], account_snapshots := [], idb_blocking_txs := {}, idb_blocked_by_beneficiary := False\<rparr>)"

section \<open>What a publication changes\<close>

text \<open>\<open>published v est (m, ws) (m', ws')\<close>: between the two states only slots of transaction \<open>v\<close>
  changed, all of them are in the write set, and each holds an entry of this incarnation.\<close>

definition published ::
  "tx_version \<Rightarrow> bool \<Rightarrow> mv_memory \<times> location set \<Rightarrow> mv_memory \<times> location set \<Rightarrow> bool" where
  "published v est st st' \<longleftrightarrow>
    (\<forall>l t. t \<noteq> v_txid v \<longrightarrow> fst st' l t = fst st l t) \<and> snd st \<subseteq> snd st' \<and>
    (\<forall>l. l \<notin> snd st' \<longrightarrow> fst st' l (v_txid v) = fst st l (v_txid v)) \<and>
    ((\<forall>l\<in>snd st. \<exists>d. fst st l (v_txid v) = Some (memory_entry_new (v_incarnation v) d est)) \<longrightarrow>
     (\<forall>l\<in>snd st'. \<exists>d. fst st' l (v_txid v) = Some (memory_entry_new (v_incarnation v) d est)))"

lemma published_refl [grevm_simps]: "published v est st st"
  by (simp add: published_def)

lemma published_trans: "published v est st st' \<Longrightarrow> published v est st' st'' \<Longrightarrow> published v est st st''"
  by (auto simp: published_def)

lemma published_value: "published v est st (publish_value v est l d st)"
  by (cases st) (auto simp: published_def publish_value_def)

text \<open>A property of the operations on a publication in progress that holds for every publication of
  a value of its location's kind, and is closed under composition, holds for publishing a whole
  transaction.\<close>

fun value_fits :: "location \<Rightarrow> memory_value \<Rightarrow> bool" where
  "value_fits (LBasic a) d = (case d of MBasic x \<Rightarrow> True | _ \<Rightarrow> False)"
| "value_fits (LCode a) d = (case d of MCode c \<Rightarrow> True | _ \<Rightarrow> False)"
| "value_fits (LStorage a k) d = (case d of MStorage v \<Rightarrow> True | _ \<Rightarrow> False)"
| "value_fits (LStorageReset a) d = (case d of MStorageReset \<Rightarrow> True | _ \<Rightarrow> False)"

locale publication_contract =
  fixes v :: tx_version and est :: bool
    and P :: "(mv_memory \<times> location set \<Rightarrow> mv_memory \<times> location set) \<Rightarrow> bool"
  assumes noop: "P (\<lambda>x. x)"
    and compose: "P F \<Longrightarrow> P G \<Longrightarrow> P (\<lambda>x. G (F x))"
    and one_value: "value_fits l d \<Longrightarrow> P (publish_value v est l d)"
begin

lemma either: "P F \<Longrightarrow> P G \<Longrightarrow> P (\<lambda>x. if c then F x else G x)"
  by (cases c) simp_all

lemma folded: "(\<And>y. y \<in> set ys \<Longrightarrow> P (F y)) \<Longrightarrow> P (fold F ys)"
proof (induction ys)
  case (Cons y ys)
  have "P (\<lambda>x. fold F ys (F y x))" by (rule compose [where G = "fold F ys"]) (use Cons in auto)
  then show ?case by (simp add: comp_def)
qed (simp add: noop id_def)

lemma slots: "P (fold (\<lambda>(k, s). publish_value v est (LStorage a k) (MStorage (present_value s))) xs)"
  by (rule folded) (auto intro!: one_value split: prod.split)

lemma reset: "P (publish_storage_reset v est a)"
  by (simp add: publish_storage_reset_def one_value)

lemmas closures = either compose [OF _ slots] compose [OF _ reset] compose [OF _ one_value] noop

lemma one_account:
  assumes "idb_version db = v"
  shows "P (publish_account R b db est z)"
proof -
  obtain a acc where z: "z = (a, acc)" by (cases z)
  show ?thesis
    unfolding z publish_account_def Let_def prod.case assms
    by (cases "finalized_account_from R acc"; simp only: finalized_account.case; intro closures; simp)
qed

lemma all_accounts: "idb_version db = v \<Longrightarrow> P (fold (publish_account R b db est) st)"
  by (rule folded) (rule one_account)

end

interpretation own_slots_only: publication_contract v est "\<lambda>F. \<forall>st. published v est st (F st)"
  by unfold_locales (auto simp only: published_refl published_value intro: published_trans)

lemma published_writes:
  assumes "publish_writes R b db changes est m = (m', ws)"
  shows "published (idb_version db) est (m, {}) (m', ws)"
  using own_slots_only.all_accounts [of db "idb_version db" est R b changes] assms
  by (metis publish_writes_def)

section \<open>Properties\<close>

text \<open>\<^bold>\<open>C31\<close>. Finishing an incarnation changes only its own slots of the memory: the reported
  write set is exactly where it has an entry of this incarnation, every such entry is marked an
  estimate if and only if the incarnation read an estimate, every other transaction's entry and
  every slot outside the write set is as before.\<close>

theorem finish_incarnation_publishes:
  assumes "finish_incarnation R b changes db m = (acc, db', m')"
  shows "(\<forall>l t. t \<noteq> idb_txid db \<longrightarrow> m' l t = m l t) \<and>
    (\<forall>l. l \<notin> ia_write_set acc \<longrightarrow> m' l (idb_txid db) = m l (idb_txid db)) \<and>
    (\<forall>l\<in>ia_write_set acc. \<exists>d. m' l (idb_txid db) =
       Some (memory_entry_new (v_incarnation (idb_version db)) d (is_blocked acc))) \<and>
    ia_read_set acc = idb_read_set db \<and> ia_blocking_txs acc = idb_blocking_txs db"
proof -
  obtain ws where ws: "publish_writes R b db changes (idb_blocking_txs db \<noteq> {}) m = (m', ws)"
    and acc: "acc = \<lparr>ia_read_set = idb_read_set db, ia_write_set = ws, ia_blocking_txs = idb_blocking_txs db,
      ia_blocked_by_beneficiary = idb_blocked_by_beneficiary db\<rparr>"
    using assms by (auto simp: finish_incarnation_def Let_def split: prod.splits)
  show ?thesis
    using published_writes [OF ws] by (simp add: published_def acc is_blocked_def)
qed

text \<open>An updated account with a changed slot, and the two locations it publishes.\<close>

definition sample_change :: account where
  "sample_change = \<lparr>acct_info = sample_info 4, is_touched = True, is_selfdestructed = False, is_created = False,
     acct_storage = [(1, \<lparr>original_value = 0, present_value = 6\<rparr>)]\<rparr>"

theorem finish_incarnation_publishes_witness:
  "\<exists>acc db' m'. finish_incarnation sample_revm (beneficiary_new 9 None 2) [(7, sample_change)]
      (begin_incarnation (TxVersion 1 3) (idb_new 0)) (\<lambda>_. Map.empty) = (acc, db', m') \<and>
    ia_write_set acc = {LBasic 7, LStorage 7 1} \<and>
    (\<forall>l\<in>ia_write_set acc. \<exists>d. m' l 1 = Some (memory_entry_new 3 d False))"
proof -
  let ?db = "begin_incarnation (TxVersion 1 3) (idb_new 0)"
  obtain acc db' m' where f: "finish_incarnation sample_revm (beneficiary_new 9 None 2) [(7, sample_change)] ?db
      (\<lambda>_. Map.empty) = (acc, db', m')"
    by (cases "finish_incarnation sample_revm (beneficiary_new 9 None 2) [(7, sample_change)] ?db (\<lambda>_. Map.empty)")
  have ws: "ia_write_set acc = {LBasic 7, LStorage 7 1}" and nb: "\<not> is_blocked acc"
    using f
    by (auto simp: finish_incarnation_def publish_writes_def publish_account_def sample_change_def
        finalized_account_from_def sample_revm_def sample_info_def begin_incarnation_def idb_new_def
        publish_value_def code_changed_def changed_storage_slots_def beneficiary_matches_def beneficiary_new_def
        is_blocked_def Let_def)
  show ?thesis
    using finish_incarnation_publishes [OF f] f ws nb by (simp add: begin_incarnation_def)
qed

end
