(* ===== verification/Validation.thy ===== *)
theory Validation
  imports Incarnation_Db
begin

text \<open>
  Read-set validation (the loop of \<open>Scheduler::validate\<close>) and what it guarantees. The EVM is
  third-party code that reaches its state only through the \<open>Database\<close> trait, so a transaction is
  an arbitrary tree of database requests; the theorems hold for all of them.
\<close>

section \<open>Validation of a read set\<close>

definition max_dependency :: "tx_id option \<Rightarrow> tx_id \<Rightarrow> tx_id option" where
  "max_dependency d p = Some (case d of None \<Rightarrow> p | Some q \<Rightarrow> max q p)"

fun validate_read ::
  "mv_memory \<Rightarrow> beneficiary \<Rightarrow> tx_id \<Rightarrow> location \<times> read_version \<Rightarrow> bool \<times> tx_id option \<Rightarrow>
    (bool \<times> tx_id option) option" where
  "validate_read m b t (l, RvBeneficiary expected) (conflict, dep) =
    do { v \<leftarrow> beneficiary_validate b t expected;
         Some (conflict \<or> \<not> bv_valid v,
               case bv_dependency v of None \<Rightarrow> dep | Some p \<Rightarrow> max_dependency dep p) }"
| "validate_read m b t (l, version) (conflict, dep) =
    (case prev_entry (m l) t of
       Some (p, e) \<Rightarrow>
         Some (conflict \<or> me_estimate e \<or>
                 (case version of
                    RvMvMemory v \<Rightarrow> v_txid v \<noteq> p \<or> v_incarnation v \<noteq> me_incarnation e
                  | _ \<Rightarrow> True),
               max_dependency dep p)
     | None \<Rightarrow> Some (conflict \<or> version \<noteq> RvStorage, dep))"

fun validate_reads ::
  "mv_memory \<Rightarrow> beneficiary \<Rightarrow> tx_id \<Rightarrow> (location \<times> read_version) list \<Rightarrow> bool \<times> tx_id option \<Rightarrow>
    (bool \<times> tx_id option) option" where
  "validate_reads m b t [] acc = Some acc"
| "validate_reads m b t (r # rs) acc = do { acc' \<leftarrow> validate_read m b t r acc; validate_reads m b t rs acc' }"

text \<open>A read is current when its recorded version is what the stores resolve to.\<close>

fun read_current :: "mv_memory \<Rightarrow> beneficiary \<Rightarrow> tx_id \<Rightarrow> location \<Rightarrow> read_version \<Rightarrow> bool" where
  "read_current m b t l (RvBeneficiary expected) \<longleftrightarrow>
     (\<exists>v. beneficiary_validate b t expected = Some v \<and> bv_valid v)"
| "read_current m b t l (RvMvMemory (TxVersion p i)) \<longleftrightarrow>
     (\<exists>e. prev_entry (m l) t = Some (p, e) \<and> me_incarnation e = i \<and> \<not> me_estimate e)"
| "read_current m b t l RvStorage \<longleftrightarrow> prev_entry (m l) t = None"

lemma validate_read_conflict:
  assumes "validate_read m b t (l, v) (c, d) = Some (c', d')"
  shows "c' \<longleftrightarrow> c \<or> \<not> read_current m b t l v"
proof (cases v)
  case (RvMvMemory x)
  then show ?thesis using assms by (cases x) (auto split: option.splits)
qed (use assms in \<open>auto split: option.splits simp: bind_eq_Some_conv\<close>)

lemma validate_reads_conflict:
  "validate_reads m b t rs (c, d) = Some (c', d') \<Longrightarrow>
    c' \<longleftrightarrow> c \<or> (\<exists>(l, v)\<in>set rs. \<not> read_current m b t l v)"
proof (induction rs arbitrary: c d)
  case (Cons r rs)
  then obtain c1 d1 where "validate_read m b t r (c, d) = Some (c1, d1)"
    and "validate_reads m b t rs (c1, d1) = Some (c', d')"
    by (auto simp: bind_eq_Some_conv)
  then show ?case using Cons.IH validate_read_conflict [of m b t "fst r" "snd r" c d c1 d1] by auto
qed simp

section \<open>The multi-version memory as a versioned store\<close>

text \<open>The memory with, for each slot, the newest incarnation that was ever published there.\<close>

record mv_sys =
  sys_mv :: mv_memory
  sys_inc :: "location \<Rightarrow> tx_id \<Rightarrow> nat"

definition mv_inv :: "mv_sys \<Rightarrow> bool" where
  "mv_inv s \<longleftrightarrow> (\<forall>l t e. sys_mv s l t = Some e \<longrightarrow> me_incarnation e \<le> sys_inc s l t)"

text \<open>What other threads do to the memory: a newer incarnation publishes, an entry is marked as an
  estimate, an entry that its transaction no longer writes is removed.\<close>

inductive mv_step :: "mv_sys \<Rightarrow> mv_sys \<Rightarrow> bool" where
  mv_publish: "sys_inc s l (v_txid v) < v_incarnation v \<Longrightarrow> publish_value v est l d (sys_mv s, ws) = (m', ws') \<Longrightarrow>
    mv_step s \<lparr>sys_mv = m', sys_inc = (sys_inc s)(l := (sys_inc s l)(v_txid v := v_incarnation v))\<rparr>"
| mv_mark: "sys_mv s l t = Some e \<Longrightarrow>
    mv_step s (s\<lparr>sys_mv := (sys_mv s)(l := (sys_mv s l)(t \<mapsto> e\<lparr>me_estimate := True\<rparr>))\<rparr>)"
| mv_remove: "mv_step s (s\<lparr>sys_mv := (sys_mv s)(l := (sys_mv s l)(t := None))\<rparr>)"

definition mv_slot :: "mv_sys \<Rightarrow> location \<times> tx_id \<Rightarrow> (nat \<times> memory_value) option" where
  "mv_slot s = (\<lambda>(l, t). map_option (\<lambda>e. (me_incarnation e, me_data e)) (sys_mv s l t))"

interpretation mvs: versioned_store mv_step "\<lambda>s (l, t). sys_inc s l t" mv_slot mv_inv
proof (unfold_locales, goal_cases)
  case (1 s s')
  from 1(2,1) show ?case
    by (cases rule: mv_step.cases) (auto simp: mv_inv_def publish_value_def memory_entry_new_def)
next
  case (2 s k i v)
  then show ?case by (auto simp: mv_inv_def mv_slot_def split: prod.splits)
next
  case (3 s s' k)
  from 3(2) show ?case by (cases rule: mv_step.cases) (auto split: prod.splits)
next
  case (4 s s' k i v)
  from 4(2,3) show ?case
    by (cases rule: mv_step.cases)
      (auto simp: mv_slot_def publish_value_def memory_entry_new_def split: prod.splits if_splits)
qed

section \<open>Transactions as database programs\<close>

datatype 'r evm =
    EDone 'r
  | EBasic address "account_info option \<Rightarrow> 'r evm"
  | ECodeByHash b256 "bytecode \<Rightarrow> 'r evm"
  | EStorage address u256 "u256 \<Rightarrow> 'r evm"
  | EBlockHash u64 "b256 \<Rightarrow> 'r evm"

text \<open>A database error ends the execution, as it does in revm.\<close>

definition continue ::
  "('e + 'a) \<times> incarnation_db \<Rightarrow> ('a \<Rightarrow> incarnation_db \<Rightarrow> (('e + 'r) \<times> incarnation_db) option) \<Rightarrow>
    (('e + 'r) \<times> incarnation_db) option" where
  "continue x k = (case x of (Inl e, db) \<Rightarrow> Some (Inl e, db) | (Inr v, db) \<Rightarrow> k v db)"

primrec run ::
  "revm_ops \<Rightarrow> (nat \<Rightarrow> 'e world) \<Rightarrow> 'r evm \<Rightarrow> incarnation_db \<Rightarrow> (('e + 'r) \<times> incarnation_db) option" where
  "run R W (EDone r) db = Some (Inr r, db)"
| "run R W (EBasic a k) db = do { x \<leftarrow> idb_basic R W a db; continue x (\<lambda>v. run R W (k v)) }"
| "run R W (ECodeByHash h k) db = continue (idb_code_by_hash W h db) (\<lambda>v. run R W (k v))"
| "run R W (EStorage a i k) db = continue (idb_storage W a i db) (\<lambda>v. run R W (k v))"
| "run R W (EBlockHash n k) db = continue (idb_block_hash W n db) (\<lambda>v. run R W (k v))"

text \<open>No later read of the run replaced the version an earlier read had recorded.\<close>

definition kept :: "incarnation_db \<Rightarrow> ('e + 'a) \<times> incarnation_db \<Rightarrow> ('a \<Rightarrow> incarnation_db \<Rightarrow> bool) \<Rightarrow> bool" where
  "kept db x k = (case x of (Inl e, db1) \<Rightarrow> True
     | (Inr v, db1) \<Rightarrow> map_of (idb_read_set db) \<subseteq>\<^sub>m map_of (idb_read_set db1) \<and> k v db1)"

primrec reads_kept :: "revm_ops \<Rightarrow> (nat \<Rightarrow> 'e world) \<Rightarrow> 'r evm \<Rightarrow> incarnation_db \<Rightarrow> bool" where
  "reads_kept R W (EDone r) db = True"
| "reads_kept R W (EBasic a k) db =
    (case idb_basic R W a db of None \<Rightarrow> True | Some x \<Rightarrow> kept db x (\<lambda>v. reads_kept R W (k v)))"
| "reads_kept R W (ECodeByHash h k) db = kept db (idb_code_by_hash W h db) (\<lambda>v. reads_kept R W (k v))"
| "reads_kept R W (EStorage a i k) db = kept db (idb_storage W a i db) (\<lambda>v. reads_kept R W (k v))"
| "reads_kept R W (EBlockHash n k) db = kept db (idb_block_hash W n db) (\<lambda>v. reads_kept R W (k v))"

section \<open>From the world of a read to the world of its validation\<close>

definition mv_leads :: "mv_memory \<Rightarrow> mv_memory \<Rightarrow> bool" where
  "mv_leads m m2 \<longleftrightarrow> (\<exists>s s2. sys_mv s = m \<and> sys_mv s2 = m2 \<and> mv_inv s \<and> mv_step\<^sup>*\<^sup>* s s2)"

definition ben_leads :: "revm_ops \<Rightarrow> beneficiary \<Rightarrow> beneficiary \<Rightarrow> bool" where
  "ben_leads R b b2 \<longleftrightarrow> ben_address b2 = ben_address b \<and>
    (\<exists>h0 h1. torn_view R h0 h1 (ben_history b) \<and> (history_step R)\<^sup>*\<^sup>* h1 (ben_history b2))"

text \<open>The backing database answers by hash and by block number the same way throughout, and its
  accounts and slots change only where a transaction before \<open>t\<close> has an entry in the memory; the
  beneficiary's account is read from its history instead.\<close>

definition db_leads :: "tx_id \<Rightarrow> 'e database_ref \<Rightarrow> 'e world \<Rightarrow> bool" where
  "db_leads t d w2 \<longleftrightarrow>
    (\<forall>h. code_by_hash_ref d h = code_by_hash_ref (w_db w2) h) \<and>
    (\<forall>n. block_hash_ref d n = block_hash_ref (w_db w2) n) \<and>
    (\<forall>a. \<not> beneficiary_matches (w_ben w2) a \<and> prev_entry (w_mv w2 (LBasic a)) t = None \<longrightarrow> basic_ref d a = basic_ref (w_db w2) a) \<and>
    (\<forall>a k. prev_entry (w_mv w2 (LStorageReset a)) t = None \<and> prev_entry (w_mv w2 (LStorage a k)) t = None \<longrightarrow>
       storage_ref d a k = storage_ref (w_db w2) a k)"

definition leads_to :: "revm_ops \<Rightarrow> tx_id \<Rightarrow> 'e world \<Rightarrow> 'e world \<Rightarrow> bool" where
  "leads_to R t w w2 \<longleftrightarrow> mv_leads (w_mv w) (w_mv w2) \<and> ben_leads R (w_ben w) (w_ben w2) \<and> db_leads t (w_db w) w2"

definition reads_current :: "'e world \<Rightarrow> incarnation_db \<Rightarrow> bool" where
  "reads_current w2 db \<longleftrightarrow> (\<forall>l v. map_of (idb_read_set db) l = Some v \<longrightarrow>
     read_current (w_mv w2) (w_ben w2) (idb_txid db) l v)"

lemma mv_leads_data:
  assumes "mv_leads m m2" and "m l t = Some e" and "m2 l t = Some e'" and "me_incarnation e' = me_incarnation e"
  shows "me_data e' = me_data e"
proof -
  obtain s s2 where "sys_mv s = m" "sys_mv s2 = m2" "mv_inv s" "mv_step\<^sup>*\<^sup>* s s2"
    using assms(1) by (auto simp: mv_leads_def)
  then show ?thesis
    using mvs.same_incarnation_same_value [of s s2 "(l, t)" "me_incarnation e" "me_data e" "me_data e'"] assms(2-4)
    by (simp add: mv_slot_def)
qed

lemma record_read_fields [simp]:
  "idb_version (record_read l v db) = idb_version db"
  "idb_blocking_txs (record_read l v db) = idb_blocking_txs db"
  "now (record_read l v db) = now db"
  "account_snapshots (record_read l v db) = account_snapshots db"
  "map_of (idb_read_set (record_read l v db)) = (map_of (idb_read_set db))(l \<mapsto> v)"
  "(record_read l v db)\<lparr>now := n\<rparr> = record_read l v (db\<lparr>now := n\<rparr>)"
  by (simp_all add: record_read_def update_conv')

lemma snapshot_account_fields [simp]:
  "idb_version (snapshot_account R a acc db) = idb_version db"
  "idb_blocking_txs (snapshot_account R a acc db) = idb_blocking_txs db"
  "now (snapshot_account R a acc db) = now db"
  "idb_read_set (snapshot_account R a acc db) = idb_read_set db"
  "(snapshot_account R a acc db)\<lparr>now := n\<rparr> = snapshot_account R a acc (db\<lparr>now := n\<rparr>)"
  by (simp_all add: snapshot_account_def split: option.splits)

lemma mv_probe_fields:
  assumes "mv_probe W l sel db = (hit, ver, db1)"
  shows "idb_version db1 = idb_version db" and "idb_read_set db1 = idb_read_set db"
    and "idb_blocking_txs db \<subseteq> idb_blocking_txs db1"
  using assms by (auto simp: mv_probe_def split: option.splits prod.splits if_splits)

text \<open>A lookup whose version is current finds the same entry when it is repeated.\<close>

lemma mv_probe_current:
  assumes "mv_probe W l sel db = (hit, ver, db1)" and "mv_leads (w_mv (W (now db))) (w_mv w2)"
    and "read_current (w_mv w2) b (idb_txid db) l ver" and "idb_blocking_txs db1 = {}"
  shows "mv_probe (\<lambda>_. w2) l sel (db\<lparr>now := n\<rparr>) = (hit, ver, db1\<lparr>now := Suc n\<rparr>)"
proof (cases hit)
  case None
  then have ver: "ver = RvStorage" and db1: "db1 = tick db"
    using assms(1) by (auto simp: mv_probe_def split: option.splits prod.splits)
  then show ?thesis using None assms(3) by (simp add: mv_probe_def)
next
  case (Some x)
  then obtain p y e where x: "x = (p, y)" and e: "prev_entry (w_mv (W (now db)) l) (idb_txid db) = Some (p, e)"
    and y: "sel (me_data e) = Some y" and ver: "ver = RvMvMemory (TxVersion p (me_incarnation e))"
    and db1: "db1 = tick db"
    using assms(1,4) by (auto simp: mv_probe_def split: option.splits prod.splits if_splits)
  obtain e' where e': "prev_entry (w_mv w2 l) (idb_txid db) = Some (p, e')"
    and inc: "me_incarnation e' = me_incarnation e" "\<not> me_estimate e'"
    using assms(3) ver by auto
  have "me_data e' = me_data e"
    using mv_leads_data [OF assms(2) _ _ inc(1)] prev_entry_SomeD [OF e] prev_entry_SomeD [OF e'] by auto
  then show ?thesis using Some x y e' inc ver db1 by (simp add: mv_probe_def)
qed

section \<open>A current read is repeatable\<close>

lemma code_by_address_current:
  assumes op: "code_by_address W a h db = (Inr c, db1)"
    and lead: "\<And>n. leads_to R (idb_txid db) (W n) w2"
    and cur: "reads_current w2 db1" and unblocked: "idb_blocking_txs db1 = {}"
  shows "\<exists>n'. code_by_address (\<lambda>_. w2) a h (db\<lparr>now := n\<rparr>) = (Inr c, db1\<lparr>now := n'\<rparr>)"
    and "idb_version db1 = idb_version db" and "idb_blocking_txs db = {}"
    and "\<And>l. l \<noteq> LCode a \<Longrightarrow> map_of (idb_read_set db1) l = map_of (idb_read_set db) l"
proof -
  obtain hit ver dbp where probe: "mv_probe W (LCode a) as_code db = (hit, ver, dbp)"
    by (cases "mv_probe W (LCode a) as_code db")
  note fields = mv_probe_fields [OF probe]
  have ver: "map_of (idb_read_set db1) (LCode a) = Some ver" and v1: "idb_version db1 = idb_version db"
    and bp: "idb_blocking_txs dbp = idb_blocking_txs db1"
    and rest: "\<And>l. l \<noteq> LCode a \<Longrightarrow> map_of (idb_read_set db1) l = map_of (idb_read_set db) l"
    using op fields by (auto simp: code_by_address_def probe split: option.splits sum.splits)
  show "idb_version db1 = idb_version db" "\<And>l. l \<noteq> LCode a \<Longrightarrow> map_of (idb_read_set db1) l = map_of (idb_read_set db) l"
    by (fact v1 rest)+
  show "idb_blocking_txs db = {}" using fields(3) bp unblocked by auto
  have "mv_probe (\<lambda>_. w2) (LCode a) as_code (db\<lparr>now := n\<rparr>) = (hit, ver, dbp\<lparr>now := Suc n\<rparr>)"
    using mv_probe_current [OF probe, of w2 "w_ben w2" n] lead cur ver v1 bp unblocked
    by (simp add: leads_to_def reads_current_def)
  moreover have "code_by_hash_ref (w_db (W k)) h = code_by_hash_ref (w_db w2) h" for k
    using lead by (simp add: leads_to_def db_leads_def)
  ultimately show "\<exists>n'. code_by_address (\<lambda>_. w2) a h (db\<lparr>now := n\<rparr>) = (Inr c, db1\<lparr>now := n'\<rparr>)"
    using op by (auto simp: code_by_address_def probe split: option.splits sum.splits prod.splits)
qed

lemma basic_account_beneficiary:
  assumes "beneficiary_matches (w_ben (W (now db))) a"
    and "basic_account R W a db = Some (Inr acc, db1)" and "idb_blocking_txs db1 = {}"
  obtains read where "resolve_before R (w_ben (W (now db))) (idb_txid db) = Some (Inr read)"
    and "acc = br_account read"
    and "db1 = snapshot_account R a acc (record_read (LBasic a) (RvBeneficiary (br_version read)) (tick db))"
proof -
  obtain r where "resolve_before R (w_ben (W (now db))) (idb_txid db) = Some r"
    using assms(1,2) by (auto simp: basic_account_def bind_eq_Some_conv)
  then show ?thesis using assms that by (cases r) (auto simp: basic_account_def)
qed

lemma basic_account_current:
  assumes op: "basic_account R W a db = Some (Inr acc, db1)"
    and lead: "\<And>n. leads_to R (idb_txid db) (W n) w2"
    and cur: "read_current (w_mv w2) (w_ben w2) (idb_txid db) (LBasic a) (the (map_of (idb_read_set db1) (LBasic a)))"
    and unblocked: "idb_blocking_txs db1 = {}"
  shows "\<exists>n'. basic_account R (\<lambda>_. w2) a (db\<lparr>now := n\<rparr>) = Some (Inr acc, db1\<lparr>now := n'\<rparr>)"
    and "idb_version db1 = idb_version db" and "idb_blocking_txs db = {}"
proof -
  have same: "beneficiary_matches (w_ben (W k)) a \<longleftrightarrow> beneficiary_matches (w_ben w2) a" for k
    using lead [of k] by (simp add: leads_to_def ben_leads_def beneficiary_matches_def)
  have "(\<exists>n'. basic_account R (\<lambda>_. w2) a (db\<lparr>now := n\<rparr>) = Some (Inr acc, db1\<lparr>now := n'\<rparr>)) \<and>
    idb_version db1 = idb_version db \<and> idb_blocking_txs db = {}"
  proof (cases "beneficiary_matches (w_ben w2) a")
    case True
    then obtain read where read: "resolve_before R (w_ben (W (now db))) (idb_txid db) = Some (Inr read)"
      and acc: "acc = br_account read"
      and db1: "db1 = snapshot_account R a acc (record_read (LBasic a) (RvBeneficiary (br_version read)) (tick db))"
      using basic_account_beneficiary [OF _ op unblocked] same by blast
    obtain v where "beneficiary_validate (w_ben w2) (idb_txid db) (br_version read) = Some v" "bv_valid v"
      using cur db1 by auto
    moreover obtain h0 h1 where "torn_view R h0 h1 (ben_history (w_ben (W (now db))))"
      and "(history_step R)\<^sup>*\<^sup>* h1 (ben_history (w_ben w2))"
      using lead [of "now db"] by (auto simp: leads_to_def ben_leads_def)
    ultimately have "resolve_before R (w_ben w2) (idb_txid db) = Some (Inr read)"
      using validated_read_current read by (auto simp: resolve_before_def beneficiary_validate_def)
    then show ?thesis
      using True acc db1 unblocked by (auto simp: basic_account_def)
  next
    case False
    obtain hit ver dbp where probe: "mv_probe W (LBasic a) as_basic db = (hit, ver, dbp)"
      by (cases "mv_probe W (LBasic a) as_basic db")
    note fields = mv_probe_fields [OF probe]
    have ver: "map_of (idb_read_set db1) (LBasic a) = Some ver" and v1: "idb_version db1 = idb_version db"
      and bp: "idb_blocking_txs dbp = idb_blocking_txs db1"
      using op False fields by (auto simp: basic_account_def same probe split: option.splits sum.splits)
    have again: "mv_probe (\<lambda>_. w2) (LBasic a) as_basic (db\<lparr>now := n\<rparr>) = (hit, ver, dbp\<lparr>now := Suc n\<rparr>)"
      using mv_probe_current [OF probe, of w2 "w_ben w2" n] lead cur ver bp unblocked
      by (simp add: leads_to_def)
    have "basic_ref (w_db (W k)) a = basic_ref (w_db w2) a" if "hit = None" for k
    proof -
      have "ver = RvStorage"
        using probe that by (auto simp: mv_probe_def split: option.splits prod.splits)
      then show ?thesis using cur ver lead [of k] False by (simp add: leads_to_def db_leads_def)
    qed
    then show ?thesis
      using op False again v1 fields(3) bp unblocked
      by (auto simp: basic_account_def same probe split: option.splits sum.splits prod.splits)
  qed
  then show "\<exists>n'. basic_account R (\<lambda>_. w2) a (db\<lparr>now := n\<rparr>) = Some (Inr acc, db1\<lparr>now := n'\<rparr>)"
    and "idb_version db1 = idb_version db" and "idb_blocking_txs db = {}"
    by auto
qed

lemma basic_account_read:
  assumes "basic_account R W a db = Some (Inr acc, db1)" and "idb_blocking_txs db1 = {}"
  shows "\<exists>v. map_of (idb_read_set db1) (LBasic a) = Some v"
proof (cases "beneficiary_matches (w_ben (W (now db))) a")
  case True
  show ?thesis by (rule basic_account_beneficiary [OF True assms]) simp
next
  case False
  then show ?thesis
    using assms(1) by (auto simp: basic_account_def split: sum.splits option.splits prod.splits)
qed

lemma basic_account_version:
  assumes "basic_account R W a db = Some (r, db1)"
  shows "idb_version db1 = idb_version db"
proof (cases "beneficiary_matches (w_ben (W (now db))) a")
  case True
  then obtain x where "resolve_before R (w_ben (W (now db))) (idb_txid db) = Some x"
    using assms by (auto simp: basic_account_def bind_eq_Some_conv)
  then show ?thesis using True assms by (cases x) (auto simp: basic_account_def)
next
  case False
  then show ?thesis
    using assms
    by (auto simp: basic_account_def dest!: mv_probe_fields(1) split: sum.splits option.splits prod.splits)
qed

lemma idb_basic_cases:
  assumes "idb_basic R W a db = Some (Inr v, db1)"
  obtains "basic_account R W a db = Some (Inr v, db1)"
      "\<And>info. v = Some info \<Longrightarrow> is_empty_code_hash R info \<or> info_code info \<noteq> None"
    | info c dba where "basic_account R W a db = Some (Inr (Some info), dba)"
      "\<not> is_empty_code_hash R info" "info_code info = None"
      "code_by_address W a (info_code_hash info) dba = (Inr c, db1)" "v = Some (info\<lparr>info_code := Some c\<rparr>)"
proof -
  obtain r dba where acc: "basic_account R W a db = Some (r, dba)"
    using assms by (auto simp: idb_basic_def bind_eq_Some_conv)
  obtain acc where r: "r = Inr acc"
    using assms acc by (cases r) (auto simp: idb_basic_def)
  show ?thesis
  proof (cases acc)
    case None
    then show ?thesis using assms acc r by (intro that(1)) (auto simp: idb_basic_def)
  next
    case (Some info)
    show ?thesis
    proof (cases "\<not> is_empty_code_hash R info \<and> info_code info = None")
      case True
      then obtain c where "code_by_address W a (info_code_hash info) dba = (Inr c, db1)"
        and "v = Some (info\<lparr>info_code := Some c\<rparr>)"
        using assms acc r Some by (auto simp: idb_basic_def split: prod.splits sum.splits)
      then show ?thesis using that(2) acc r Some True by blast
    next
      case False
      then show ?thesis using assms acc r Some by (intro that(1)) (auto simp: idb_basic_def)
    qed
  qed
qed

lemma idb_basic_current:
  assumes op: "idb_basic R W a db = Some (Inr v, db1)"
    and lead: "\<And>n. leads_to R (idb_txid db) (W n) w2"
    and cur: "reads_current w2 db1" and unblocked: "idb_blocking_txs db1 = {}"
  shows "(\<exists>n'. idb_basic R (\<lambda>_. w2) a (db\<lparr>now := n\<rparr>) = Some (Inr v, db1\<lparr>now := n'\<rparr>)) \<and>
    idb_version db1 = idb_version db \<and> idb_blocking_txs db = {}"
  using op
proof (cases rule: idb_basic_cases)
  case 1
  have "read_current (w_mv w2) (w_ben w2) (idb_txid db) (LBasic a) (the (map_of (idb_read_set db1) (LBasic a)))"
    using cur basic_account_read [OF 1(1) unblocked] basic_account_version [OF 1(1)]
    by (auto simp: reads_current_def)
  note again = basic_account_current [OF 1(1) lead this unblocked]
  then obtain m where "basic_account R (\<lambda>_. w2) a (db\<lparr>now := n\<rparr>) = Some (Inr v, db1\<lparr>now := m\<rparr>)" by blast
  then show ?thesis using again(2,3) 1(2) by (cases v) (auto simp: idb_basic_def)
next
  case (2 info c dba)
  note va = basic_account_version [OF 2(1)]
  have lead': "\<And>n. leads_to R (idb_txid dba) (W n) w2" using lead va by simp
  note code = code_by_address_current [OF 2(4) lead' cur unblocked]
  have "read_current (w_mv w2) (w_ben w2) (idb_txid db) (LBasic a) (the (map_of (idb_read_set dba) (LBasic a)))"
    using cur basic_account_read [OF 2(1) code(3)] va code(2) code(4) [of "LBasic a"]
    by (auto simp: reads_current_def)
  note again = basic_account_current [OF 2(1) lead this code(3)]
  then obtain m where "basic_account R (\<lambda>_. w2) a (db\<lparr>now := n\<rparr>) = Some (Inr (Some info), dba\<lparr>now := m\<rparr>)" by blast
  moreover obtain n' where "code_by_address (\<lambda>_. w2) a (info_code_hash info) (dba\<lparr>now := m\<rparr>) = (Inr c, db1\<lparr>now := n'\<rparr>)"
    using code(1) by blast
  ultimately show ?thesis using again(2,3) code(2) 2(2,3,5) by (auto simp: idb_basic_def)
qed

lemma idb_storage_current:
  assumes op: "idb_storage W a k db = (Inr v, db1)"
    and lead: "\<And>n. leads_to R (idb_txid db) (W n) w2"
    and cur: "reads_current w2 db1" and unblocked: "idb_blocking_txs db1 = {}"
  shows "(\<exists>n'. idb_storage (\<lambda>_. w2) a k (db\<lparr>now := n\<rparr>) = (Inr v, db1\<lparr>now := n'\<rparr>)) \<and>
    idb_version db1 = idb_version db \<and> idb_blocking_txs db = {}"
proof -
  obtain reset rver dba where p1: "mv_probe W (LStorageReset a) as_reset db = (reset, rver, dba)"
    by (cases "mv_probe W (LStorageReset a) as_reset db")
  let ?dba = "record_read (LStorageReset a) rver dba"
  obtain wr sver dbb where p2: "mv_probe W (LStorage a k) as_storage ?dba = (wr, sver, dbb)"
    by (cases "mv_probe W (LStorage a k) as_storage ?dba")
  note f1 = mv_probe_fields [OF p1] and f2 = mv_probe_fields [OF p2]
  have db1: "db1\<lparr>now := m\<rparr> = record_read (LStorage a k) sver (dbb\<lparr>now := m\<rparr>)" for m
    using op by (auto simp: idb_storage_def p1 p2 Let_def split: option.splits prod.splits if_splits)
  then have map1: "map_of (idb_read_set db1) = (map_of (idb_read_set dbb))(LStorage a k \<mapsto> sver)"
    and v1: "idb_version db1 = idb_version dbb" and b1: "idb_blocking_txs dbb = idb_blocking_txs db1"
    using op by (auto simp: idb_storage_def p1 p2 Let_def split: option.splits prod.splits if_splits)
  have version: "idb_version db1 = idb_version db" using v1 f1(1) f2(1) by simp
  have curs: "read_current (w_mv w2) (w_ben w2) (idb_txid db) (LStorage a k) sver"
    and curr: "read_current (w_mv w2) (w_ben w2) (idb_txid db) (LStorageReset a) rver"
    using cur map1 version f2(2) by (auto simp: reads_current_def)
  have blocking: "idb_blocking_txs dba = {}" "idb_blocking_txs db = {}"
    using f1(3) f2(3) b1 unblocked by auto
  have mv: "\<And>m. mv_leads (w_mv (W m)) (w_mv w2)" using lead by (simp add: leads_to_def)
  have q1: "mv_probe (\<lambda>_. w2) (LStorageReset a) as_reset (db\<lparr>now := n\<rparr>) = (reset, rver, dba\<lparr>now := Suc n\<rparr>)"
    by (rule mv_probe_current [OF p1 mv curr blocking(1)])
  have q2: "mv_probe (\<lambda>_. w2) (LStorage a k) as_storage (?dba\<lparr>now := Suc n\<rparr>) = (wr, sver, dbb\<lparr>now := Suc (Suc n)\<rparr>)"
    using mv_probe_current [OF p2 mv, of "w_ben w2" "Suc n"] curs f1(1) b1 unblocked by simp
  have "storage_ref (w_db (W m)) a k = storage_ref (w_db w2) a k" if "reset = None" "wr = None" for m
  proof -
    have "rver = RvStorage" "sver = RvStorage"
      using p1 p2 that by (auto simp: mv_probe_def split: option.splits prod.splits)
    then show ?thesis using curs curr lead [of m] by (simp add: leads_to_def db_leads_def)
  qed
  then show ?thesis
    using op q1 q2 db1 version blocking(2)
    by (auto simp: idb_storage_def p1 p2 Let_def split: option.splits prod.splits if_splits)
qed

text \<open>The whole run, by induction on the program.\<close>

lemma reads_current_le:
  "reads_current w2 db2 \<Longrightarrow> map_of (idb_read_set db1) \<subseteq>\<^sub>m map_of (idb_read_set db2) \<Longrightarrow>
    idb_version db2 = idb_version db1 \<Longrightarrow> reads_current w2 db1"
  by (auto simp: reads_current_def map_le_def dom_def)

lemma code_by_address_version: "code_by_address W a h db = (r, db1) \<Longrightarrow> idb_version db1 = idb_version db"
  by (auto simp: code_by_address_def dest!: mv_probe_fields(1) split: sum.splits option.splits prod.splits)

lemma idb_basic_version:
  assumes "idb_basic R W a db = Some (Inr v, db1)"
  shows "idb_version db1 = idb_version db"
  using assms
  by (cases rule: idb_basic_cases) (auto dest!: basic_account_version code_by_address_version)

lemma idb_storage_version:
  assumes "idb_storage W a k db = (r, db1)"
  shows "idb_version db1 = idb_version db"
proof -
  obtain reset rver dba where p1: "mv_probe W (LStorageReset a) as_reset db = (reset, rver, dba)"
    by (cases "mv_probe W (LStorageReset a) as_reset db")
  obtain wr sver dbb where p2: "mv_probe W (LStorage a k) as_storage (record_read (LStorageReset a) rver dba) = (wr, sver, dbb)"
    by (cases "mv_probe W (LStorage a k) as_storage (record_read (LStorageReset a) rver dba)")
  show ?thesis
    using assms mv_probe_fields(1) [OF p1] mv_probe_fields(1) [OF p2]
    by (auto simp: idb_storage_def p1 p2 Let_def split: option.splits prod.splits if_splits)
qed

text \<open>One request followed by the rest of the run.\<close>

lemma continue_current:
  assumes run: "continue (x, db1) k = Some (Inr r, dbF)"
    and kept: "kept db (x, db1) kk"
    and again: "\<And>v. x = Inr v \<Longrightarrow> reads_current w' db1 \<Longrightarrow> idb_blocking_txs db1 = {} \<Longrightarrow>
      (\<exists>n'. op' = Some (Inr v, db1\<lparr>now := n'\<rparr>)) \<and> idb_blocking_txs db = {}"
    and version: "\<And>v. x = Inr v \<Longrightarrow> idb_version db1 = idb_version db"
    and IH: "\<And>v n. x = Inr v \<Longrightarrow> k v db1 = Some (Inr r, dbF) \<Longrightarrow> kk v db1 \<Longrightarrow>
      (\<exists>n'. k' v (db1\<lparr>now := n\<rparr>) = Some (Inr r, dbF\<lparr>now := n'\<rparr>)) \<and> idb_version dbF = idb_version db1 \<and>
      map_of (idb_read_set db1) \<subseteq>\<^sub>m map_of (idb_read_set dbF) \<and> idb_blocking_txs db1 = {}"
    and cur: "reads_current w' dbF"
  shows "(\<exists>n'. (do { y \<leftarrow> op'; continue y k' }) = Some (Inr r, dbF\<lparr>now := n'\<rparr>)) \<and> idb_version dbF = idb_version db \<and>
    map_of (idb_read_set db) \<subseteq>\<^sub>m map_of (idb_read_set dbF) \<and> idb_blocking_txs db = {}"
proof -
  obtain v where x: "x = Inr v" using run by (cases x) (auto simp: continue_def)
  have k: "k v db1 = Some (Inr r, dbF)" and le: "map_of (idb_read_set db) \<subseteq>\<^sub>m map_of (idb_read_set db1)" and kk: "kk v db1"
    using run kept x by (auto simp: continue_def kept_def)
  note rest = IH [OF x k kk]
  have "reads_current w' db1" using reads_current_le [OF cur] rest by blast
  then obtain n' where "op' = Some (Inr v, db1\<lparr>now := n'\<rparr>)" and "idb_blocking_txs db = {}"
    using again x rest by blast
  then show ?thesis
    using rest [of n'] version [OF x] le by (auto simp: continue_def intro: map_le_trans)
qed

lemma run_current:
  assumes "run R W prog db = Some (Inr r, dbF)" and "reads_kept R W prog db"
    and "\<And>n. leads_to R (idb_txid db) (W n) w2"
    and "reads_current w2 dbF" and "idb_blocking_txs dbF = {}"
  shows "(\<exists>n'. run R (\<lambda>_. w2) prog (db\<lparr>now := n\<rparr>) = Some (Inr r, dbF\<lparr>now := n'\<rparr>)) \<and> idb_version dbF = idb_version db \<and>
    map_of (idb_read_set db) \<subseteq>\<^sub>m map_of (idb_read_set dbF) \<and> idb_blocking_txs db = {}"
  using assms
proof (induction prog arbitrary: db n)
  case (EDone x)
  then show ?case by auto
next
  case (EBasic a k)
  obtain x db1 where op: "idb_basic R W a db = Some (x, db1)"
    using EBasic.prems(1) by (auto simp: bind_eq_Some_conv)
  have run: "continue (x, db1) (\<lambda>v. run R W (k v)) = Some (Inr r, dbF)"
    and kept: "kept db (x, db1) (\<lambda>v. reads_kept R W (k v))"
    using EBasic.prems(1,2) op by auto
  have again: "(\<exists>n'. idb_basic R (\<lambda>_. w2) a (db\<lparr>now := n\<rparr>) = Some (Inr v, db1\<lparr>now := n'\<rparr>)) \<and> idb_blocking_txs db = {}"
    if "x = Inr v" "reads_current w2 db1" "idb_blocking_txs db1 = {}" for v
    using idb_basic_current [of R W a db v db1 w2 n] op that EBasic.prems(3) by simp
  have version: "idb_version db1 = idb_version db" if "x = Inr v" for v
    using idb_basic_version [of R W a db v db1] op that by simp
  have rest: "(\<exists>n'. run R (\<lambda>_. w2) (k v) (db1\<lparr>now := n\<rparr>) = Some (Inr r, dbF\<lparr>now := n'\<rparr>)) \<and>
      idb_version dbF = idb_version db1 \<and> map_of (idb_read_set db1) \<subseteq>\<^sub>m map_of (idb_read_set dbF) \<and> idb_blocking_txs db1 = {}"
    if "x = Inr v" "run R W (k v) db1 = Some (Inr r, dbF)" "reads_kept R W (k v) db1" for v n
  proof (rule EBasic.IH [OF rangeI that(2,3) _ EBasic.prems(4,5)])
    show "leads_to R (idb_txid db1) (W m) w2" for m using EBasic.prems(3) version [OF that(1)] by simp
  qed
  show ?case
    using continue_current [where k' = "\<lambda>v. run R (\<lambda>_. w2) (k v)", OF run kept again version rest EBasic.prems(4)]
    unfolding run.simps .
next
  case (ECodeByHash h k)
  let ?x = "code_by_hash_ref (w_db (W (now db))) h"
  have run: "continue (?x, tick db) (\<lambda>v. run R W (k v)) = Some (Inr r, dbF)"
    and kept: "kept db (?x, tick db) (\<lambda>v. reads_kept R W (k v))"
    using ECodeByHash.prems(1,2) by (auto simp: idb_code_by_hash_def)
  have again: "(\<exists>n'. Some (idb_code_by_hash (\<lambda>_. w2) h (db\<lparr>now := n\<rparr>)) = Some (Inr v, (tick db)\<lparr>now := n'\<rparr>)) \<and> idb_blocking_txs db = {}"
    if "?x = Inr v" "reads_current w2 (tick db)" "idb_blocking_txs (tick db) = {}" for v
    using ECodeByHash.prems(3) that by (auto simp: leads_to_def db_leads_def idb_code_by_hash_def)
  have rest: "(\<exists>n'. run R (\<lambda>_. w2) (k v) ((tick db)\<lparr>now := n\<rparr>) = Some (Inr r, dbF\<lparr>now := n'\<rparr>)) \<and>
      idb_version dbF = idb_version (tick db) \<and> map_of (idb_read_set (tick db)) \<subseteq>\<^sub>m map_of (idb_read_set dbF) \<and> idb_blocking_txs (tick db) = {}"
    if "?x = Inr v" "run R W (k v) (tick db) = Some (Inr r, dbF)" "reads_kept R W (k v) (tick db)" for v n
  proof (rule ECodeByHash.IH [OF rangeI that(2,3) _ ECodeByHash.prems(4,5)])
    show "leads_to R (idb_txid (tick db)) (W m) w2" for m using ECodeByHash.prems(3)  by simp
  qed
  have version: "idb_version (tick db) = idb_version db" by simp
  show ?case
    using continue_current [where k' = "\<lambda>v. run R (\<lambda>_. w2) (k v)", OF run kept again version rest ECodeByHash.prems(4)]
    unfolding run.simps Option.bind.simps .
next
  case (EStorage a i k)
  obtain x db1 where op: "idb_storage W a i db = (x, db1)" by (cases "idb_storage W a i db")
  have run: "continue (x, db1) (\<lambda>v. run R W (k v)) = Some (Inr r, dbF)"
    and kept: "kept db (x, db1) (\<lambda>v. reads_kept R W (k v))"
    using EStorage.prems(1,2) op by auto
  have again: "(\<exists>n'. Some (idb_storage (\<lambda>_. w2) a i (db\<lparr>now := n\<rparr>)) = Some (Inr v, db1\<lparr>now := n'\<rparr>)) \<and> idb_blocking_txs db = {}"
    if "x = Inr v" "reads_current w2 db1" "idb_blocking_txs db1 = {}" for v
    using idb_storage_current [of W a i db v db1 R w2 n] op that EStorage.prems(3) by simp
  have rest: "(\<exists>n'. run R (\<lambda>_. w2) (k v) (db1\<lparr>now := n\<rparr>) = Some (Inr r, dbF\<lparr>now := n'\<rparr>)) \<and>
      idb_version dbF = idb_version db1 \<and> map_of (idb_read_set db1) \<subseteq>\<^sub>m map_of (idb_read_set dbF) \<and> idb_blocking_txs db1 = {}"
    if "x = Inr v" "run R W (k v) db1 = Some (Inr r, dbF)" "reads_kept R W (k v) db1" for v n
  proof (rule EStorage.IH [OF rangeI that(2,3) _ EStorage.prems(4,5)])
    show "leads_to R (idb_txid db1) (W m) w2" for m using EStorage.prems(3) idb_storage_version [OF op] by simp
  qed
  show ?case
    using continue_current [where k' = "\<lambda>v. run R (\<lambda>_. w2) (k v)", OF run kept again idb_storage_version [OF op] rest EStorage.prems(4)]
    unfolding run.simps Option.bind.simps .
next
  case (EBlockHash m k)
  let ?x = "block_hash_ref (w_db (W (now db))) m"
  have run: "continue (?x, tick db) (\<lambda>v. run R W (k v)) = Some (Inr r, dbF)"
    and kept: "kept db (?x, tick db) (\<lambda>v. reads_kept R W (k v))"
    using EBlockHash.prems(1,2) by (auto simp: idb_block_hash_def)
  have again: "(\<exists>n'. Some (idb_block_hash (\<lambda>_. w2) m (db\<lparr>now := n\<rparr>)) = Some (Inr v, (tick db)\<lparr>now := n'\<rparr>)) \<and> idb_blocking_txs db = {}"
    if "?x = Inr v" "reads_current w2 (tick db)" "idb_blocking_txs (tick db) = {}" for v
    using EBlockHash.prems(3) that by (auto simp: leads_to_def db_leads_def idb_block_hash_def)
  have rest: "(\<exists>n'. run R (\<lambda>_. w2) (k v) ((tick db)\<lparr>now := n\<rparr>) = Some (Inr r, dbF\<lparr>now := n'\<rparr>)) \<and>
      idb_version dbF = idb_version (tick db) \<and> map_of (idb_read_set (tick db)) \<subseteq>\<^sub>m map_of (idb_read_set dbF) \<and> idb_blocking_txs (tick db) = {}"
    if "?x = Inr v" "run R W (k v) (tick db) = Some (Inr r, dbF)" "reads_kept R W (k v) (tick db)" for v n
  proof (rule EBlockHash.IH [OF rangeI that(2,3) _ EBlockHash.prems(4,5)])
    show "leads_to R (idb_txid (tick db)) (W m) w2" for m using EBlockHash.prems(3)  by simp
  qed
  have version: "idb_version (tick db) = idb_version db" by simp
  show ?case
    using continue_current [where k' = "\<lambda>v. run R (\<lambda>_. w2) (k v)", OF run kept again version rest EBlockHash.prems(4)]
    unfolding run.simps Option.bind.simps .
qed

lemma validated_reads_current:
  assumes "validate_reads (w_mv w2) (w_ben w2) (idb_txid db) (idb_read_set db) (False, None) = Some (False, dep)"
  shows "reads_current w2 db"
  using validate_reads_conflict [OF assms] by (auto simp: reads_current_def dest: map_of_SomeD)

lemma run_version: "run R W prog db = Some (Inr r, dbF) \<Longrightarrow> idb_version dbF = idb_version db"
proof (induction prog arbitrary: db)
  case (EBasic a k)
  then obtain x db1 where "idb_basic R W a db = Some (x, db1)"
    and "continue (x, db1) (\<lambda>v. run R W (k v)) = Some (Inr r, dbF)"
    by (auto simp: bind_eq_Some_conv)
  then obtain v where "idb_basic R W a db = Some (Inr v, db1)" "run R W (k v) db1 = Some (Inr r, dbF)"
    by (cases x) (auto simp: continue_def)
  then show ?case using EBasic.IH idb_basic_version by (metis rangeI)
next
  case (EStorage a i k)
  then obtain v db1 where "idb_storage W a i db = (Inr v, db1)" "run R W (k v) db1 = Some (Inr r, dbF)"
    by (auto simp: continue_def split: sum.splits prod.splits)
  then show ?case using EStorage.IH idb_storage_version by (metis rangeI)
next
  case (ECodeByHash h k)
  then obtain v where "run R W (k v) (tick db) = Some (Inr r, dbF)"
    by (auto simp: continue_def idb_code_by_hash_def split: sum.splits)
  then show ?case using ECodeByHash.IH [OF rangeI] by fastforce
next
  case (EBlockHash m k)
  then obtain v where "run R W (k v) (tick db) = Some (Inr r, dbF)"
    by (auto simp: continue_def idb_block_hash_def split: sum.splits)
  then show ?case using EBlockHash.IH [OF rangeI] by fastforce
qed simp

section \<open>Properties\<close>

text \<open>\<^bold>\<open>C4\<close>. Validation is sound: let an incarnation run while other threads publish, mark and
  remove versions, read no estimate, and keep the version of each of its reads. If its read set
  then validates in the world \<open>w2\<close>, running the transaction alone in \<open>w2\<close> gives the same result
  with the same read set and account snapshots, so the same writes are published. This holds for
  every transaction program, every interleaving, and beneficiary reads taken entry by entry.\<close>

theorem validated_incarnation_serial:
  assumes "run R W prog (begin_incarnation v db) = Some (Inr r, db')"
    and "idb_blocking_txs db' = {}" and "reads_kept R W prog (begin_incarnation v db)"
    and "\<And>n. leads_to R (v_txid v) (W n) w2"
    and "validate_reads (w_mv w2) (w_ben w2) (v_txid v) (idb_read_set db') (False, None) = Some (False, dep)"
  shows "\<exists>n'. run R (\<lambda>_. w2) prog ((begin_incarnation v db)\<lparr>now := n\<rparr>) = Some (Inr r, db'\<lparr>now := n'\<rparr>)"
proof -
  have version: "idb_version db' = v"
    using run_version [OF assms(1)] by (simp add: begin_incarnation_def)
  then have "reads_current w2 db'" using assms(5) validated_reads_current by metis
  then show ?thesis
    using run_current [OF assms(1,3) _ _ assms(2), of w2 n] assms(4) by (simp add: begin_incarnation_def)
qed

text \<open>A block with an account \<open>7\<close>, a beneficiary \<open>9\<close> and two transactions. Transaction 0 deletes
  account \<open>7\<close>: its publication has the account first and the storage reset second.\<close>

definition sample_ben :: beneficiary where
  "sample_ben = beneficiary_new 9 None 2"

definition sample_db :: "nat database_ref" where
  "sample_db = \<lparr>basic_ref = (\<lambda>_. Inr (Some (sample_info 1))), code_by_hash_ref = (\<lambda>_. Inr []),
     storage_ref = (\<lambda>_ _. Inr 5), block_hash_ref = (\<lambda>_. Inr 0)\<rparr>"

definition sample_published :: "nat \<Rightarrow> mv_memory \<times> location set" where
  "sample_published k =
    (let m1 = publish_value (TxVersion 0 1) False (LBasic 7) (MBasic None) (\<lambda>_. Map.empty, {})
     in if k = 0 then m1 else publish_storage_reset (TxVersion 0 1) False 7 m1)"

definition sample_world :: "nat \<Rightarrow> nat world" where
  "sample_world k = \<lparr>w_mv = fst (sample_published k), w_ben = sample_ben, w_db = sample_db\<rparr>"

lemma sample_world_mv:
  "w_mv (sample_world k) l t = (if l = LBasic 7 \<and> t = 0 then Some (memory_entry_new 1 (MBasic None) False)
     else if k \<noteq> 0 \<and> l = LStorageReset 7 \<and> t = 0 then Some (memory_entry_new 1 MStorageReset False) else None)"
  by (auto simp: sample_world_def sample_published_def publish_value_def publish_storage_reset_def Let_def)

lemma sample_world_fields:
  "w_ben (sample_world k) = sample_ben" "w_db (sample_world k) = sample_db"
  "beneficiary_matches sample_ben a \<longleftrightarrow> a = 9"
  by (auto simp: sample_world_def sample_ben_def beneficiary_matches_def beneficiary_new_def)

lemma sample_world_leads: "leads_to R 1 (sample_world k) (sample_world 1)"
proof -
  let ?i0 = "\<lambda>l t. 0 :: nat"
  let ?s = "\<lparr>sys_mv = w_mv (sample_world 0), sys_inc = (\<lambda>l t. if l = LBasic 7 then 1 else 0)\<rparr>"
  let ?t = "\<lparr>sys_mv = w_mv (sample_world 1), sys_inc = (sys_inc ?s)(LStorageReset 7 := (sys_inc ?s (LStorageReset 7))(0 := 1))\<rparr>"
  have inv: "mv_inv ?s" "mv_inv ?t"
    by (auto simp: mv_inv_def sample_world_mv memory_entry_new_def split: if_splits)
  have "publish_value (TxVersion 0 1) False (LStorageReset 7) MStorageReset (sys_mv ?s, {}) =
      (w_mv (sample_world 1), {LStorageReset 7})"
    by (auto simp: publish_value_def sample_world_mv fun_eq_iff)
  then have "mv_step ?s ?t"
    using mv_step.mv_publish [of ?s "LStorageReset 7" "TxVersion 0 1"] by simp
  moreover have "w_mv (sample_world k) = w_mv (sample_world 1)" if "k \<noteq> 0"
    using that by (auto simp: sample_world_mv fun_eq_iff)
  ultimately have mv: "mv_leads (w_mv (sample_world k)) (w_mv (sample_world 1))"
    using inv unfolding mv_leads_def
    by (cases "k = 0") (metis mv_sys.select_convs(1) r_into_rtranclp, metis mv_sys.select_convs(1) rtranclp.rtrancl_refl)
  have "torn_view R (ben_history sample_ben) (ben_history sample_ben) (ben_history sample_ben)"
    by (auto simp: torn_view_def)
  then have "ben_leads R (w_ben (sample_world k)) (w_ben (sample_world 1))"
    by (auto simp: ben_leads_def sample_world_def)
  then show ?thesis using mv by (simp add: leads_to_def db_leads_def sample_world_def)
qed

theorem validated_incarnation_serial_witness:
  "\<exists>n'. run sample_revm (\<lambda>_. sample_world 1) (EStorage 8 1 EDone) ((begin_incarnation (TxVersion 1 1) (idb_new 0))\<lparr>now := 0\<rparr>) =
    Some (Inr 5, (idb_new 3)\<lparr>idb_version := TxVersion 1 1,
      idb_read_set := [(LStorageReset 8, RvStorage), (LStorage 8 1, RvStorage)], now := n'\<rparr>)"
proof -
  let ?db = "begin_incarnation (TxVersion 1 1) (idb_new 0)"
  let ?dbF = "(idb_new 3)\<lparr>idb_version := TxVersion 1 1,
      idb_read_set := [(LStorageReset 8, RvStorage), (LStorage 8 1, RvStorage)]\<rparr>"
  have read: "idb_storage sample_world 8 1 ?db = (Inr 5, ?dbF)"
    by (simp add: idb_storage_def mv_probe_def sample_world_mv begin_incarnation_def idb_new_def record_read_def
        sample_world_fields sample_db_def)
  have run: "run sample_revm sample_world (EStorage 8 1 EDone) ?db = Some (Inr 5, ?dbF)"
    unfolding run.simps read by (simp add: continue_def)
  have kept: "reads_kept sample_revm sample_world (EStorage 8 1 EDone :: u256 evm) ?db"
    unfolding reads_kept.simps read by (simp add: kept_def begin_incarnation_def)
  have valid: "validate_reads (w_mv (sample_world 1)) (w_ben (sample_world 1)) (v_txid (TxVersion 1 1))
      (idb_read_set ?dbF) (False, None) = Some (False, None)"
    by (simp add: sample_world_mv)
  show ?thesis
    using validated_incarnation_serial [OF run _ kept _ valid] sample_world_leads by (simp add: idb_new_def)
qed

text \<open>A latest writer before a reader stays the latest when it publishes again.\<close>

lemma prev_entry_latest:
  assumes "u < t" and "\<And>p e. m p = Some e \<Longrightarrow> p < t \<Longrightarrow> p \<le> u"
  shows "prev_entry (m(u \<mapsto> e)) t = Some (u, e)"
  using assms by (intro prev_entry_SomeI) (fastforce split: if_splits)+

text \<open>\<^bold>\<open>C32\<close>. Keeping the versions of its reads is something the incarnation does not do for
  storage resets: \<open>storage\<close> records the reset version of the address anew at every slot. Let a
  transaction \<open>u\<close> delete an account that no transaction between \<open>u\<close> and the reader \<open>t\<close> writes. Its
  publication puts the deletion first (\<open>m1\<close>) and the storage reset second (\<open>m2\<close>). A reader that
  loads the account and one slot in between, and a second slot afterwards, ends with a read set that
  validates although the first slot has the value of the deleted storage; in the memory it
  validated against, both slots are zero.\<close>

theorem overwritten_reset_read_validates:
  assumes "finalized_account_from R acc = Deleted" and ben: "\<not> beneficiary_matches b a"
    and "idb_version publisher = TxVersion u i" and u: "u < t" and "\<And>p e. m (LBasic a) p = Some e \<Longrightarrow> p < t \<Longrightarrow> p \<le> u"
    and "\<And>l p. l \<in> {LStorageReset a, LStorage a k1, LStorage a k2} \<Longrightarrow> p < t \<Longrightarrow> m l p = None"
    and "publish_value (TxVersion u i) False (LBasic a) (MBasic None) (m, {}) = (m1, ws1)"
    and "publish_account R b publisher False (a, acc) (m, {}) = (m2, ws2)" and "storage_ref d a k1 = Inr x"
    and "W = (\<lambda>n. \<lparr>w_mv = if n < 4 then m1 else m2, w_ben = b, w_db = d\<rparr>)"
    and "prog = EBasic a (\<lambda>_. EStorage a k1 (\<lambda>v1. EStorage a k2 (\<lambda>v2. EDone (v1, v2))))"
  shows "\<exists>db' dep db''. run R W prog (begin_incarnation (TxVersion t j) (idb_new 0)) = Some (Inr (x, 0), db') \<and>
    idb_blocking_txs db' = {} \<and> validate_reads m2 b t (idb_read_set db') (False, None) = Some (False, dep) \<and>
    run R (\<lambda>_. W 4) prog (begin_incarnation (TxVersion t j) (idb_new 0)) = Some (Inr (0, 0), db'')"
proof -
  have m1: "m1 = m(LBasic a := (m (LBasic a))(u \<mapsto> memory_entry_new i (MBasic None) False))"
    using assms(7) by (simp add: publish_value_def)
  have m2: "m2 = m1(LStorageReset a := (m (LStorageReset a))(u \<mapsto> memory_entry_new i MStorageReset False))"
    using assms(1-3,8) by (auto simp: publish_account_def publish_storage_reset_def publish_value_def m1)
  have basic: "prev_entry (m1 (LBasic a)) t = Some (u, memory_entry_new i (MBasic None) False)"
    "prev_entry (m2 (LBasic a)) t = Some (u, memory_entry_new i (MBasic None) False)"
    using prev_entry_latest [OF u, of "m (LBasic a)"] assms(5) by (simp_all add: m1 m2)
  have reset: "prev_entry (m1 (LStorageReset a)) t = None"
    "prev_entry (m2 (LStorageReset a)) t = Some (u, memory_entry_new i MStorageReset False)"
    using prev_entry_latest [OF u, of "m (LStorageReset a)"] assms(6) by (auto simp: m1 m2 prev_entry_None_iff)
  have slots: "prev_entry (m1 (LStorage a k)) t = None" "prev_entry (m2 (LStorage a k)) t = None" if "k \<in> {k1, k2}" for k
    using assms(6) that by (auto simp: m1 m2 prev_entry_None_iff)
  show ?thesis
    using ben basic reset slots assms(9)
    by (simp add: assms(10,11) idb_basic_def basic_account_def idb_storage_def mv_probe_def begin_incarnation_def
        idb_new_def record_read_def snapshot_account_def memory_entry_new_def continue_def max_dependency_def)
qed

theorem overwritten_reset_read_validates_witness:
  "\<exists>m1 m2 db' dep db''. m1 \<noteq> m2 \<and>
    run sample_revm (\<lambda>n. \<lparr>w_mv = if n < 4 then m1 else m2, w_ben = sample_ben, w_db = sample_db\<rparr>)
      (EBasic 7 (\<lambda>_. EStorage 7 1 (\<lambda>v1. EStorage 7 2 (\<lambda>v2. EDone (v1, v2))))) (begin_incarnation (TxVersion 1 1) (idb_new 0)) =
      Some (Inr (5, 0), db') \<and>
    validate_reads m2 sample_ben 1 (idb_read_set db') (False, None) = Some (False, dep) \<and>
    run sample_revm (\<lambda>_. \<lparr>w_mv = m2, w_ben = sample_ben, w_db = sample_db\<rparr>)
      (EBasic 7 (\<lambda>_. EStorage 7 1 (\<lambda>v1. EStorage 7 2 (\<lambda>v2. EDone (v1, v2))))) (begin_incarnation (TxVersion 1 1) (idb_new 0)) =
      Some (Inr (0, 0), db'')"
proof -
  let ?acc = "\<lparr>acct_info = sample_info 1, is_touched = True, is_selfdestructed = True, is_created = False, acct_storage = []\<rparr>"
  let ?pub = "(idb_new 0)\<lparr>idb_version := TxVersion 0 1\<rparr>"
  obtain m1 ws1 m2 ws2
    where m: "publish_value (TxVersion 0 1) False (LBasic 7) (MBasic None) (\<lambda>_. Map.empty, {}) = (m1, ws1)"
      "publish_account sample_revm sample_ben ?pub False (7, ?acc) (\<lambda>_. Map.empty, {}) = (m2, ws2)" by fastforce
  have acc: "finalized_account_from sample_revm ?acc = Deleted" "\<not> beneficiary_matches sample_ben 7"
    "storage_ref sample_db 7 1 = Inr 5" "idb_version ?pub = TxVersion 0 1"
    by (simp_all add: finalized_account_from_def sample_world_fields sample_db_def)
  have "m1 (LStorageReset 7) 0 = None" "m2 (LStorageReset 7) 0 \<noteq> None"
    using m acc by (auto simp: publish_account_def publish_storage_reset_def publish_value_def)
  then have "m1 \<noteq> m2" by auto
  then show ?thesis
    using overwritten_reset_read_validates [OF acc(1,2,4) _ _ _ m acc(3) refl refl, of 1 2 1] by auto
qed

end
