(* ===== verification/Cache_State.thy ===== *)
theory Cache_State
  imports Model
begin

text \<open>
  The cached accounts and slots of \<open>parallel_state.rs\<close>: \<open>CacheAccountInfo\<close> with the transition each
  operation reports, and \<open>ParallelCacheState\<close> with the application of a finalized EVM state.

  \<open>AccountStatus\<close>, \<open>TransitionAccount\<close> and \<open>CacheState\<close> are data of the crate revm-database; the
  methods of \<open>AccountStatus\<close> are the fields of a record \<open>status_ops\<close> passed as \<open>A\<close>.
\<close>

section \<open>revm-database's data\<close>

datatype account_status =
    LoadedNotExisting
  | Loaded
  | LoadedEmptyEIP161
  | InMemoryChange
  | Changed
  | Destroyed
  | DestroyedChanged
  | DestroyedAgain

record status_ops =
  on_changed :: "bool \<Rightarrow> account_status \<Rightarrow> account_status"
  on_created :: "account_status \<Rightarrow> account_status"
  on_selfdestructed :: "account_status \<Rightarrow> account_status"
  on_touched_empty_post_eip161 :: "account_status \<Rightarrow> account_status"
  is_storage_known :: "account_status \<Rightarrow> bool"
  has_no_code_and_nonce :: "account_info \<Rightarrow> bool"

record transition_account =
  tr_info :: "account_info option"
  tr_status :: account_status
  tr_previous_info :: "account_info option"
  tr_previous_status :: account_status
  tr_storage :: "(u256 \<times> storage_slot) list"
  tr_storage_was_destroyed :: bool

type_synonym plain_storage = "(u256 \<times> u256) list"

section \<open>Cached accounts\<close>

record cache_account_info =
  ca_account :: "account_info option"
  ca_status :: account_status

definition cache_account_new :: "account_info option \<Rightarrow> account_status \<Rightarrow> cache_account_info" where
  "cache_account_new a st = \<lparr>ca_account = a, ca_status = st\<rparr>"

text \<open>\<open>previous_info.map(has_no_code_and_nonce).unwrap_or_default()\<close>\<close>

definition had_no_nonce_and_code :: "status_ops \<Rightarrow> account_info option \<Rightarrow> bool" where
  "had_no_nonce_and_code A info = (case info of None \<Rightarrow> False | Some i \<Rightarrow> has_no_code_and_nonce A i)"

text \<open>\<open>account_info_change\<close>: \<open>change\<close> returns its output and the changed info, or panics.\<close>

definition account_info_change ::
  "revm_ops \<Rightarrow> status_ops \<Rightarrow> (account_info \<Rightarrow> ('t \<times> account_info) option) \<Rightarrow> cache_account_info \<Rightarrow>
    (('t \<times> transition_account) \<times> cache_account_info) option" where
  "account_info_change R A change c =
    (let previous_status = ca_status c; previous_info = ca_account c
     in do { (out, info) \<leftarrow> change (case ca_account c of None \<Rightarrow> default_info R | Some i \<Rightarrow> i);
             let status' = on_changed A (had_no_nonce_and_code A previous_info) (ca_status c);
             let c' = \<lparr>ca_account = Some info, ca_status = status'\<rparr>;
             Some ((out, \<lparr>tr_info = ca_account c', tr_status = status', tr_previous_info = previous_info,
                 tr_previous_status = previous_status, tr_storage = [], tr_storage_was_destroyed = False\<rparr>), c') })"

definition increment_balance ::
  "revm_ops \<Rightarrow> status_ops \<Rightarrow> u128 \<Rightarrow> cache_account_info \<Rightarrow> transition_account option \<times> cache_account_info" where
  "increment_balance R A balance c =
    (if balance = 0 then (None, c)
     else case account_info_change R A
         (\<lambda>info. Some ((), info\<lparr>info_balance := saturating_add (info_balance info) (ucast balance)\<rparr>)) c of
       Some ((_, t), c') \<Rightarrow> (Some t, c')
     | None \<Rightarrow> (None, c))"

text \<open>\<open>drain_balance\<close>: the conversion to \<open>u128\<close> panics when the balance does not fit.\<close>

definition drain_balance ::
  "revm_ops \<Rightarrow> status_ops \<Rightarrow> cache_account_info \<Rightarrow> ((u128 \<times> transition_account) \<times> cache_account_info) option" where
  "drain_balance R A c =
    account_info_change R A
      (\<lambda>info. let out = info_balance info
              in if unat out < 2 ^ 128 then Some (ucast out :: u128, info\<lparr>info_balance := 0\<rparr>) else None) c"

definition selfdestruct ::
  "status_ops \<Rightarrow> cache_account_info \<Rightarrow> transition_account option \<times> cache_account_info" where
  "selfdestruct A c =
    (let previous_info = ca_account c; previous_status = ca_status c;
         c' = \<lparr>ca_account = None, ca_status = on_selfdestructed A (ca_status c)\<rparr>
     in (if previous_status = LoadedNotExisting then None
         else Some \<lparr>tr_info = None, tr_status = ca_status c', tr_previous_info = previous_info,
           tr_previous_status = previous_status, tr_storage = [], tr_storage_was_destroyed = True\<rparr>, c'))"

definition present_values :: "(u256 \<times> storage_slot) list \<Rightarrow> plain_storage" where
  "present_values = map (\<lambda>(k, s). (k, present_value s))"

definition newly_created ::
  "status_ops \<Rightarrow> account_info \<Rightarrow> (u256 \<times> storage_slot) list \<Rightarrow> cache_account_info \<Rightarrow>
    (transition_account \<times> plain_storage) \<times> cache_account_info" where
  "newly_created A new_info new_storage c =
    (let previous_info = ca_account c; previous_status = ca_status c; status' = on_created A (ca_status c)
     in ((\<lparr>tr_info = Some new_info, tr_status = status', tr_previous_info = previous_info,
           tr_previous_status = previous_status, tr_storage = new_storage, tr_storage_was_destroyed = False\<rparr>,
          present_values new_storage),
         \<lparr>ca_account = Some new_info, ca_status = status'\<rparr>))"

definition touch_empty_eip161 ::
  "status_ops \<Rightarrow> cache_account_info \<Rightarrow> transition_account option \<times> cache_account_info" where
  "touch_empty_eip161 A c =
    (let previous_info = ca_account c; previous_status = ca_status c;
         c' = \<lparr>ca_account = None, ca_status = on_touched_empty_post_eip161 A (ca_status c)\<rparr>
     in (if previous_status \<in> {LoadedNotExisting, Destroyed, DestroyedAgain} then None
         else Some \<lparr>tr_info = None, tr_status = ca_status c', tr_previous_info = previous_info,
           tr_previous_status = previous_status, tr_storage = [], tr_storage_was_destroyed = True\<rparr>, c'))"

definition change_account ::
  "status_ops \<Rightarrow> account_info \<Rightarrow> (u256 \<times> storage_slot) list \<Rightarrow> cache_account_info \<Rightarrow>
    (transition_account \<times> plain_storage) \<times> cache_account_info" where
  "change_account A new storage c =
    (let previous_info = ca_account c; previous_status = ca_status c;
         status' = on_changed A (had_no_nonce_and_code A previous_info) (ca_status c)
     in ((\<lparr>tr_info = Some new, tr_status = status', tr_previous_info = previous_info,
           tr_previous_status = previous_status, tr_storage = storage, tr_storage_was_destroyed = False\<rparr>,
          present_values storage),
         \<lparr>ca_account = Some new, ca_status = status'\<rparr>))"

section \<open>The cache\<close>

record parallel_cache_state =
  cs_accounts :: "address \<rightharpoonup> cache_account_info"
  cs_storage :: "address \<rightharpoonup> (u256 \<rightharpoonup> u256)"
  cs_contracts :: "b256 \<rightharpoonup> bytecode"

definition cache_state_new :: parallel_cache_state where
  "cache_state_new = \<lparr>cs_accounts = Map.empty, cs_storage = Map.empty, cs_contracts = Map.empty\<rparr>"

text \<open>revm-database's \<open>CacheState\<close>, and the copy of the cache into it. Slots of an account that is
  not cached or does not exist are not copied.\<close>

record plain_cache_state =
  pc_accounts :: "address \<rightharpoonup> (account_info \<times> (u256 \<rightharpoonup> u256)) option \<times> account_status"
  pc_contracts :: "b256 \<rightharpoonup> bytecode"

definition as_cache_state :: "parallel_cache_state \<Rightarrow> plain_cache_state" where
  "as_cache_state cs =
    \<lparr>pc_accounts = (\<lambda>a. map_option (\<lambda>c.
        (map_option (\<lambda>info. (info, case cs_storage cs a of None \<Rightarrow> Map.empty | Some slots \<Rightarrow> slots)) (ca_account c),
         ca_status c)) (cs_accounts cs a)),
     pc_contracts = cs_contracts cs\<rparr>"

definition cache_insert_not_existing :: "address \<Rightarrow> parallel_cache_state \<Rightarrow> parallel_cache_state" where
  "cache_insert_not_existing a cs =
    cs\<lparr>cs_accounts := (cs_accounts cs)(a \<mapsto> cache_account_new None LoadedNotExisting)\<rparr>"

text \<open>The classification of a loaded account, shared by \<open>insert_account\<close> and the database loads.\<close>

definition loaded_account :: "revm_ops \<Rightarrow> account_info \<Rightarrow> cache_account_info" where
  "loaded_account R info =
    (if \<not> is_empty_info R info then cache_account_new (Some info) Loaded
     else cache_account_new (Some (default_info R)) LoadedEmptyEIP161)"

definition cache_insert_account :: "revm_ops \<Rightarrow> address \<Rightarrow> account_info \<Rightarrow> parallel_cache_state \<Rightarrow> parallel_cache_state" where
  "cache_insert_account R a info cs = cs\<lparr>cs_accounts := (cs_accounts cs)(a \<mapsto> loaded_account R info)\<rparr>"

definition update_storage_slot :: "address \<Rightarrow> plain_storage \<Rightarrow> parallel_cache_state \<Rightarrow> parallel_cache_state" where
  "update_storage_slot a storage cs =
    (let slots = (case cs_storage cs a of Some slots \<Rightarrow> slots | None \<Rightarrow> Map.empty)
     in cs\<lparr>cs_storage := (cs_storage cs)(a \<mapsto> fold (\<lambda>(k, v) m. m(k \<mapsto> v)) storage slots)\<rparr>)"

definition cache_insert_account_with_storage ::
  "revm_ops \<Rightarrow> address \<Rightarrow> account_info \<Rightarrow> plain_storage \<Rightarrow> parallel_cache_state \<Rightarrow> parallel_cache_state" where
  "cache_insert_account_with_storage R a info storage cs =
    cache_insert_account R a info (update_storage_slot a storage cs)"

text \<open>\<open>get_account_mut\<close> panics when the account is not cached.\<close>

definition get_account_mut :: "address \<Rightarrow> parallel_cache_state \<Rightarrow> cache_account_info option" where
  "get_account_mut a cs = cs_accounts cs a"

definition put_account :: "address \<Rightarrow> cache_account_info \<Rightarrow> parallel_cache_state \<Rightarrow> parallel_cache_state" where
  "put_account a c cs = cs\<lparr>cs_accounts := (cs_accounts cs)(a \<mapsto> c)\<rparr>"

definition remove_storage :: "address \<Rightarrow> parallel_cache_state \<Rightarrow> parallel_cache_state" where
  "remove_storage a cs = cs\<lparr>cs_storage := (cs_storage cs)(a := None)\<rparr>"

text \<open>\<open>contracts.entry(hash).or_insert_with(|| code.unwrap())\<close>: panics when the code is missing and
  the hash is not cached.\<close>

definition insert_contract :: "account_info \<Rightarrow> parallel_cache_state \<Rightarrow> parallel_cache_state option" where
  "insert_contract info cs =
    (case cs_contracts cs (info_code_hash info) of
       Some _ \<Rightarrow> Some cs
     | None \<Rightarrow> do { code \<leftarrow> info_code info;
                   Some (cs\<lparr>cs_contracts := (cs_contracts cs)(info_code_hash info \<mapsto> code)\<rparr>) })"

definition update_changed_slots :: "address \<Rightarrow> plain_storage \<Rightarrow> parallel_cache_state \<Rightarrow> parallel_cache_state" where
  "update_changed_slots a slots cs = (if slots \<noteq> [] then update_storage_slot a slots cs else cs)"

definition apply_account_state ::
  "revm_ops \<Rightarrow> status_ops \<Rightarrow> address \<Rightarrow> account \<Rightarrow> parallel_cache_state \<Rightarrow>
    (transition_account option \<times> parallel_cache_state) option" where
  "apply_account_state R A a acc cs =
    (if \<not> is_touched acc then Some (None, cs)
     else
       let changed = filter (\<lambda>(_, s). slot_is_changed R s) (acct_storage acc)
       in if is_selfdestructed acc then
            do { let cs1 = remove_storage a cs;
                 c \<leftarrow> get_account_mut a cs1;
                 let (t, c') = selfdestruct A c;
                 Some (t, put_account a c' cs1) }
          else if is_created acc then
            do { let cs1 = remove_storage a cs;
                 c \<leftarrow> get_account_mut a cs1;
                 let ((t, slots), c') = newly_created A (acct_info acc) changed c;
                 cs2 \<leftarrow> insert_contract (acct_info acc) (put_account a c' cs1);
                 Some (Some t, update_changed_slots a slots cs2) }
          else if is_empty_info R (acct_info acc) then
            do { let cs1 = remove_storage a cs;
                 c \<leftarrow> get_account_mut a cs1;
                 let (t, c') = touch_empty_eip161 A c;
                 Some (t, put_account a c' cs1) }
          else
            do { c \<leftarrow> get_account_mut a cs;
                 let ((t, slots), c') = change_account A (acct_info acc) changed c;
                 Some (Some t, update_changed_slots a slots (put_account a c' cs)) })"

fun apply_evm_state ::
  "revm_ops \<Rightarrow> status_ops \<Rightarrow> evm_state \<Rightarrow> parallel_cache_state \<Rightarrow>
    ((address \<times> transition_account) list \<times> parallel_cache_state) option" where
  "apply_evm_state R A [] cs = Some ([], cs)"
| "apply_evm_state R A ((a, acc) # rest) cs =
    do { (t, cs1) \<leftarrow> apply_account_state R A a acc cs;
         (ts, cs2) \<leftarrow> apply_evm_state R A rest cs1;
         Some ((case t of None \<Rightarrow> ts | Some x \<Rightarrow> (a, x) # ts), cs2) }"

end
