(* ===== verification/Parallel_State.thy ===== *)
theory Parallel_State
  imports Cache_State
begin

text \<open>
  \<open>ParallelState\<close> and its two views: read-through caching of accounts, code, slots and block hashes
  over the backing database, and the ordered commit of finalized states. Each cached read is split
  where the code releases the map between the database call and the insertion, so that the other
  thread's effects in between can be stated.
\<close>

section \<open>A read-through cache\<close>

text \<open>The contract of a cached read: it returns what the state presents under that key, and
  presents the same values afterwards.\<close>

locale cached_source =
  fixes get :: "'k \<Rightarrow> 's \<Rightarrow> ('e + 'v) \<times> 's"
    and view :: "'s \<Rightarrow> 'k \<Rightarrow> 'e + 'v"
  assumes get_value: "fst (get k s) = view s k"
    and get_view: "view (snd (get k s)) = view s"
begin

lemma gets_view: "view (fold (\<lambda>k s. snd (get k s)) ks s) = view s"
  by (induction ks arbitrary: s) (simp_all add: get_view)

lemma repeatable: "fst (get k (fold (\<lambda>k s. snd (get k s)) ks s)) = fst (get k s)"
  by (simp add: get_value gets_view)

end

section \<open>State\<close>

text \<open>\<open>'t\<close> and \<open>'b\<close> stand for revm-database's \<open>TransitionState\<close> and \<open>BundleState\<close>.\<close>

record ('e, 't, 'b) parallel_state =
  ps_cache :: parallel_cache_state
  ps_database :: "'e database_ref"
  transition_state :: "'t option"
  bundle_state :: 'b
  block_hashes :: "u64 \<rightharpoonup> b256"

definition parallel_state_new :: "'e database_ref \<Rightarrow> bool \<Rightarrow> 't \<Rightarrow> 'b \<Rightarrow> ('e, 't, 'b) parallel_state" where
  "parallel_state_new db with_bundle_update default_transitions default_bundle =
    \<lparr>ps_cache = cache_state_new, ps_database = db,
     transition_state = (if with_bundle_update then Some default_transitions else None),
     bundle_state = default_bundle, block_hashes = Map.empty\<rparr>"

abbreviation ps_accounts :: "('e, 't, 'b) parallel_state \<Rightarrow> address \<rightharpoonup> cache_account_info" where
  "ps_accounts ps \<equiv> cs_accounts (ps_cache ps)"

section \<open>Reads\<close>

definition fetched_account :: "revm_ops \<Rightarrow> account_info option \<Rightarrow> cache_account_info" where
  "fetched_account R info =
    (case info of None \<Rightarrow> cache_account_new None LoadedNotExisting | Some acc \<Rightarrow> loaded_account R acc)"

text \<open>\<open>accounts.entry(address)\<close>: an account another thread inserted meanwhile wins.\<close>

definition account_entry ::
  "address \<Rightarrow> cache_account_info \<Rightarrow> ('e, 't, 'b) parallel_state \<Rightarrow> cache_account_info \<times> ('e, 't, 'b) parallel_state" where
  "account_entry a c ps =
    (case ps_accounts ps a of
       Some c' \<Rightarrow> (c', ps)
     | None \<Rightarrow> (c, ps\<lparr>ps_cache := put_account a c (ps_cache ps)\<rparr>))"

definition load_mut_cache_account ::
  "revm_ops \<Rightarrow> address \<Rightarrow> ('e, 't, 'b) parallel_state \<Rightarrow> ('e + cache_account_info) \<times> ('e, 't, 'b) parallel_state" where
  "load_mut_cache_account R a ps =
    (case ps_accounts ps a of
       Some c \<Rightarrow> (Inr c, ps)
     | None \<Rightarrow>
         (case basic_ref (ps_database ps) a of
            Inl e \<Rightarrow> (Inl e, ps)
          | Inr info \<Rightarrow> (let (c, ps') = account_entry a (fetched_account R info) ps in (Inr c, ps'))))"

definition db_basic ::
  "revm_ops \<Rightarrow> address \<Rightarrow> ('e, 't, 'b) parallel_state \<Rightarrow> ('e + account_info option) \<times> ('e, 't, 'b) parallel_state" where
  "db_basic R a ps =
    (case ps_accounts ps a of
       Some c \<Rightarrow> (Inr (ca_account c), ps)
     | None \<Rightarrow>
         (case basic_ref (ps_database ps) a of
            Inl e \<Rightarrow> (Inl e, ps)
          | Inr info \<Rightarrow> (let (c, ps') = account_entry a (fetched_account R info) ps in (Inr (ca_account c), ps'))))"

definition code_entry ::
  "b256 \<Rightarrow> bytecode \<Rightarrow> ('e, 't, 'b) parallel_state \<Rightarrow> bytecode \<times> ('e, 't, 'b) parallel_state" where
  "code_entry h code ps =
    (case cs_contracts (ps_cache ps) h of
       Some c \<Rightarrow> (c, ps)
     | None \<Rightarrow> (code, ps\<lparr>ps_cache := (ps_cache ps)\<lparr>cs_contracts := (cs_contracts (ps_cache ps))(h \<mapsto> code)\<rparr>\<rparr>))"

definition db_code_by_hash ::
  "b256 \<Rightarrow> ('e, 't, 'b) parallel_state \<Rightarrow> ('e + bytecode) \<times> ('e, 't, 'b) parallel_state" where
  "db_code_by_hash h ps =
    (case cs_contracts (ps_cache ps) h of
       Some c \<Rightarrow> (Inr c, ps)
     | None \<Rightarrow>
         (case code_by_hash_ref (ps_database ps) h of
            Inl e \<Rightarrow> (Inl e, ps)
          | Inr code \<Rightarrow> (let (c, ps') = code_entry h code ps in (Inr c, ps'))))"

definition cached_slot :: "address \<Rightarrow> u256 \<Rightarrow> ('e, 't, 'b) parallel_state \<Rightarrow> u256 option" where
  "cached_slot a k ps = (case cs_storage (ps_cache ps) a of Some slots \<Rightarrow> slots k | None \<Rightarrow> None)"

definition storage_known :: "status_ops \<Rightarrow> address \<Rightarrow> ('e, 't, 'b) parallel_state \<Rightarrow> bool" where
  "storage_known A a ps =
    (case ps_accounts ps a of
       Some c \<Rightarrow> is_storage_known A (ca_status c) \<or> ca_account c = None
     | None \<Rightarrow> False)"

definition fetch_slot :: "status_ops \<Rightarrow> address \<Rightarrow> u256 \<Rightarrow> ('e, 't, 'b) parallel_state \<Rightarrow> 'e + u256" where
  "fetch_slot A a k ps = (if storage_known A a ps then Inr 0 else storage_ref (ps_database ps) a k)"

text \<open>\<open>slots.entry(index).or_insert(value)\<close>, creating the account's slot map when it is absent.\<close>

definition slot_entry ::
  "address \<Rightarrow> u256 \<Rightarrow> u256 \<Rightarrow> ('e, 't, 'b) parallel_state \<Rightarrow> u256 \<times> ('e, 't, 'b) parallel_state" where
  "slot_entry a k v ps =
    (case cached_slot a k ps of
       Some v' \<Rightarrow> (v', ps)
     | None \<Rightarrow> (v, ps\<lparr>ps_cache := update_storage_slot a [(k, v)] (ps_cache ps)\<rparr>))"

definition db_storage ::
  "status_ops \<Rightarrow> address \<Rightarrow> u256 \<Rightarrow> ('e, 't, 'b) parallel_state \<Rightarrow> ('e + u256) \<times> ('e, 't, 'b) parallel_state" where
  "db_storage A a k ps =
    (case cached_slot a k ps of
       Some v \<Rightarrow> (Inr v, ps)
     | None \<Rightarrow>
         (case fetch_slot A a k ps of
            Inl e \<Rightarrow> (Inl e, ps)
          | Inr v \<Rightarrow> (let (v', ps') = slot_entry a k v ps in (Inr v', ps'))))"

definition db_block_hash ::
  "u64 \<Rightarrow> ('e, 't, 'b) parallel_state \<Rightarrow> ('e + b256) \<times> ('e, 't, 'b) parallel_state" where
  "db_block_hash n ps =
    (case block_hashes ps n of
       Some h \<Rightarrow> (Inr h, ps)
     | None \<Rightarrow>
         (case block_hash_ref (ps_database ps) n of
            Inl e \<Rightarrow> (Inl e, ps)
          | Inr h \<Rightarrow> (Inr h, ps\<lparr>block_hashes := (block_hashes ps)(n \<mapsto> h)\<rparr>)))"

section \<open>Transitions and commit\<close>

text \<open>\<open>TransitionState::add_transitions\<close> is the argument \<open>add\<close>.\<close>

definition apply_transition ::
  "((address \<times> transition_account) list \<Rightarrow> 't \<Rightarrow> 't) \<Rightarrow> (address \<times> transition_account) list \<Rightarrow>
    ('e, 't, 'b) parallel_state \<Rightarrow> ('e, 't, 'b) parallel_state" where
  "apply_transition add ts ps = ps\<lparr>transition_state := map_option (add ts) (transition_state ps)\<rparr>"

definition ps_commit ::
  "revm_ops \<Rightarrow> status_ops \<Rightarrow> ((address \<times> transition_account) list \<Rightarrow> 't \<Rightarrow> 't) \<Rightarrow> evm_state \<Rightarrow>
    ('e, 't, 'b) parallel_state \<Rightarrow> ('e, 't, 'b) parallel_state option" where
  "ps_commit R A add st ps =
    do { (ts, cs) \<leftarrow> apply_evm_state R A st (ps_cache ps);
         Some (apply_transition add ts (ps\<lparr>ps_cache := cs\<rparr>)) }"

text \<open>\<open>increment_balance_transitions\<close>: an error leaves the accounts loaded and incremented so far;
  the transitions are dropped.\<close>

fun increment_balance_transitions ::
  "revm_ops \<Rightarrow> status_ops \<Rightarrow> (address \<times> u128) list \<Rightarrow> ('e, 't, 'b) parallel_state \<Rightarrow>
    ('e + (address \<times> transition_account) list) \<times> ('e, 't, 'b) parallel_state" where
  "increment_balance_transitions R A [] ps = (Inr [], ps)"
| "increment_balance_transitions R A ((a, balance) # rest) ps =
    (if balance = 0 then increment_balance_transitions R A rest ps
     else case load_mut_cache_account R a ps of
       (Inl e, ps1) \<Rightarrow> (Inl e, ps1)
     | (Inr c, ps1) \<Rightarrow>
         (let (t, c') = increment_balance R A balance c;
              ps2 = ps1\<lparr>ps_cache := put_account a c' (ps_cache ps1)\<rparr>
          in case increment_balance_transitions R A rest ps2 of
               (Inl e, ps3) \<Rightarrow> (Inl e, ps3)
             | (Inr ts, ps3) \<Rightarrow> (Inr ((a, the t) # ts), ps3)))"

definition increment_balances ::
  "revm_ops \<Rightarrow> status_ops \<Rightarrow> ((address \<times> transition_account) list \<Rightarrow> 't \<Rightarrow> 't) \<Rightarrow> (address \<times> u128) list \<Rightarrow>
    ('e, 't, 'b) parallel_state \<Rightarrow> ('e + unit) \<times> ('e, 't, 'b) parallel_state" where
  "increment_balances R A add balances ps =
    (case increment_balance_transitions R A balances ps of
       (Inl e, ps') \<Rightarrow> (Inl e, ps')
     | (Inr ts, ps') \<Rightarrow> (Inr (), apply_transition add ts ps'))"

fun drain_loop ::
  "revm_ops \<Rightarrow> status_ops \<Rightarrow> address list \<Rightarrow> ('e, 't, 'b) parallel_state \<Rightarrow>
    (('e + u128 list \<times> (address \<times> transition_account) list) \<times> ('e, 't, 'b) parallel_state) option" where
  "drain_loop R A [] ps = Some (Inr ([], []), ps)"
| "drain_loop R A (a # rest) ps =
    (case load_mut_cache_account R a ps of
       (Inl e, ps1) \<Rightarrow> Some (Inl e, ps1)
     | (Inr c, ps1) \<Rightarrow>
         do { ((b, t), c') \<leftarrow> drain_balance R A c;
              (r, ps2) \<leftarrow> drain_loop R A rest (ps1\<lparr>ps_cache := put_account a c' (ps_cache ps1)\<rparr>);
              Some (map_sum id (\<lambda>(bs, ts). (b # bs, (a, t) # ts)) r, ps2) })"

definition drain_balances ::
  "revm_ops \<Rightarrow> status_ops \<Rightarrow> ((address \<times> transition_account) list \<Rightarrow> 't \<Rightarrow> 't) \<Rightarrow> address list \<Rightarrow>
    ('e, 't, 'b) parallel_state \<Rightarrow> (('e + u128 list) \<times> ('e, 't, 'b) parallel_state) option" where
  "drain_balances R A add as ps =
    do { (r, ps') \<leftarrow> drain_loop R A as ps;
         Some (case r of Inl e \<Rightarrow> (Inl e, ps') | Inr (bs, ts) \<Rightarrow> (Inr bs, apply_transition add ts ps')) }"

definition ps_insert_not_existing :: "address \<Rightarrow> ('e, 't, 'b) parallel_state \<Rightarrow> ('e, 't, 'b) parallel_state" where
  "ps_insert_not_existing a ps = ps\<lparr>ps_cache := cache_insert_not_existing a (ps_cache ps)\<rparr>"

definition ps_insert_account :: "revm_ops \<Rightarrow> address \<Rightarrow> account_info \<Rightarrow> ('e, 't, 'b) parallel_state \<Rightarrow> ('e, 't, 'b) parallel_state" where
  "ps_insert_account R a info ps = ps\<lparr>ps_cache := cache_insert_account R a info (ps_cache ps)\<rparr>"

definition ps_insert_account_with_storage ::
  "revm_ops \<Rightarrow> address \<Rightarrow> account_info \<Rightarrow> plain_storage \<Rightarrow> ('e, 't, 'b) parallel_state \<Rightarrow> ('e, 't, 'b) parallel_state" where
  "ps_insert_account_with_storage R a info storage ps =
    ps\<lparr>ps_cache := cache_insert_account_with_storage R a info storage (ps_cache ps)\<rparr>"

text \<open>\<open>merge_transitions\<close>: \<open>merge\<close> is \<open>BundleState::apply_transitions_and_create_reverts\<close> at the given
  retention, and \<open>blank\<close> what \<open>TransitionState::take\<close> leaves.\<close>

definition merge_transitions :: "('t \<Rightarrow> 'b \<Rightarrow> 'b) \<Rightarrow> 't \<Rightarrow> ('e, 't, 'b) parallel_state \<Rightarrow> ('e, 't, 'b) parallel_state" where
  "merge_transitions merge blank ps =
    (case transition_state ps of
       None \<Rightarrow> ps
     | Some t \<Rightarrow> ps\<lparr>transition_state := Some blank, bundle_state := merge t (bundle_state ps)\<rparr>)"

definition take_bundle :: "'b \<Rightarrow> ('e, 't, 'b) parallel_state \<Rightarrow> 'b \<times> ('e, 't, 'b) parallel_state" where
  "take_bundle blank ps = (bundle_state ps, ps\<lparr>bundle_state := blank\<rparr>)"

section \<open>What the state presents\<close>

definition view_basic :: "revm_ops \<Rightarrow> ('e, 't, 'b) parallel_state \<Rightarrow> address \<Rightarrow> 'e + account_info option" where
  "view_basic R ps a =
    (case ps_accounts ps a of
       Some c \<Rightarrow> Inr (ca_account c)
     | None \<Rightarrow> map_sum id (\<lambda>info. ca_account (fetched_account R info)) (basic_ref (ps_database ps) a))"

definition view_slot :: "status_ops \<Rightarrow> ('e, 't, 'b) parallel_state \<Rightarrow> address \<times> u256 \<Rightarrow> 'e + u256" where
  "view_slot A ps ak =
    (case cached_slot (fst ak) (snd ak) ps of Some v \<Rightarrow> Inr v | None \<Rightarrow> fetch_slot A (fst ak) (snd ak) ps)"

definition view_code :: "('e, 't, 'b) parallel_state \<Rightarrow> b256 \<Rightarrow> 'e + bytecode" where
  "view_code ps h =
    (case cs_contracts (ps_cache ps) h of Some c \<Rightarrow> Inr c | None \<Rightarrow> code_by_hash_ref (ps_database ps) h)"

definition view_block_hash :: "('e, 't, 'b) parallel_state \<Rightarrow> u64 \<Rightarrow> 'e + b256" where
  "view_block_hash ps n =
    (case block_hashes ps n of Some h \<Rightarrow> Inr h | None \<Rightarrow> block_hash_ref (ps_database ps) n)"

lemmas view_defs = view_basic_def view_slot_def view_code_def view_block_hash_def

lemma storage_known_cache_storage [simp]:
  "storage_known A a (ps\<lparr>ps_cache := cs\<lparr>cs_storage := s\<rparr>\<rparr>) = storage_known A a (ps\<lparr>ps_cache := cs\<rparr>)"
  by (simp add: storage_known_def)

lemma storage_known_same [simp]: "storage_known A a (ps\<lparr>ps_cache := ps_cache ps\<rparr>) = storage_known A a ps"
  by (simp add: storage_known_def)

lemma cached_slot_insert:
  "cached_slot b j (ps\<lparr>ps_cache := update_storage_slot a [(k, v)] (ps_cache ps)\<rparr>) =
     (if b = a \<and> j = k then Some v else cached_slot b j ps)"
  by (simp add: cached_slot_def update_storage_slot_def Let_def split: option.splits)

lemma view_basic_entry:
  assumes "ps_accounts ps a = None" and "basic_ref (ps_database ps) a = Inr info"
  shows "view_basic R (ps\<lparr>ps_cache := put_account a (fetched_account R info) (ps_cache ps)\<rparr>) = view_basic R ps"
  using assms by (auto simp: view_basic_def put_account_def fun_eq_iff split: option.splits)

lemma view_slot_entry:
  assumes "cached_slot a k ps = None" and "fetch_slot A a k ps = Inr v"
  shows "view_slot A (ps\<lparr>ps_cache := update_storage_slot a [(k, v)] (ps_cache ps)\<rparr>) = view_slot A ps"
proof -
  have "fetch_slot A b j (ps\<lparr>ps_cache := update_storage_slot a [(k, v)] (ps_cache ps)\<rparr>) = fetch_slot A b j ps" for b j
    by (simp add: fetch_slot_def update_storage_slot_def Let_def)
  then show ?thesis using assms by (auto simp: view_slot_def cached_slot_insert fun_eq_iff split: option.splits)
qed

text \<open>The four cached reads meet the contract.\<close>

lemma db_basic_value: "fst (db_basic R a ps) = view_basic R ps a"
  by (simp add: db_basic_def view_basic_def account_entry_def split: option.split sum.split)

lemma db_basic_view: "view_basic R (snd (db_basic R a ps)) = view_basic R ps"
  by (simp add: db_basic_def account_entry_def view_basic_entry split: option.split sum.split)

interpretation acc: cached_source "db_basic R" "view_basic R" for R :: revm_ops
  by unfold_locales (simp_all add: db_basic_value db_basic_view)

lemma db_storage_value: "fst (db_storage A a k ps) = view_slot A ps (a, k)"
  by (simp add: db_storage_def view_slot_def slot_entry_def split: option.split sum.split)

lemma db_storage_view: "view_slot A (snd (db_storage A a k ps)) = view_slot A ps"
  by (simp add: db_storage_def slot_entry_def view_slot_entry split: option.split sum.split)

interpretation slt: cached_source "\<lambda>ak. db_storage A (fst ak) (snd ak)" "view_slot A" for A :: status_ops
  by unfold_locales (simp_all add: db_storage_value db_storage_view)

lemma db_code_by_hash_value: "fst (db_code_by_hash h ps) = view_code ps h"
  by (simp add: db_code_by_hash_def view_code_def code_entry_def split: option.split sum.split)

lemma db_code_by_hash_view: "view_code (snd (db_code_by_hash h ps)) = view_code ps"
  by (auto simp: db_code_by_hash_def view_code_def code_entry_def fun_eq_iff split: option.splits sum.splits)

interpretation cod: cached_source db_code_by_hash view_code
  by unfold_locales (simp_all add: db_code_by_hash_value db_code_by_hash_view)

lemma db_block_hash_value: "fst (db_block_hash n ps) = view_block_hash ps n"
  by (simp add: db_block_hash_def view_block_hash_def split: option.split sum.split)

lemma db_block_hash_view: "view_block_hash (snd (db_block_hash n ps)) = view_block_hash ps"
  by (auto simp: db_block_hash_def view_block_hash_def fun_eq_iff split: option.splits sum.splits)

interpretation bhs: cached_source db_block_hash view_block_hash
  by unfold_locales (simp_all add: db_block_hash_value db_block_hash_view)

end
