(* ===== verification/Commit_Refinement.thy ===== *)
theory Commit_Refinement
  imports Parallel_State
begin

text \<open>
  The contract of the parallel state: it implements a plain world of accounts and slots. Reads leave
  the presented world alone; committing a finalized EVM state updates it account by account as
  \<open>FinalizedAccount\<close> classifies it. The last section is the interleaving of a slot read with a commit
  that clears the account's storage.
\<close>

section \<open>The plain world\<close>

record plain_world =
  pw_basic :: "address \<Rightarrow> account_info option"
  pw_slot :: "address \<Rightarrow> u256 \<Rightarrow> u256"

definition changed_values :: "revm_ops \<Rightarrow> account \<Rightarrow> plain_storage" where
  "changed_values R acc = present_values (filter (\<lambda>(_, s). slot_is_changed R s) (acct_storage acc))"

definition world_account :: "revm_ops \<Rightarrow> address \<Rightarrow> account \<Rightarrow> plain_world \<Rightarrow> plain_world" where
  "world_account R a acc w =
    (case finalized_account_from R acc of
       Unchanged \<Rightarrow> w
     | Deleted \<Rightarrow> \<lparr>pw_basic = (pw_basic w)(a := None), pw_slot = (pw_slot w)(a := \<lambda>_. 0)\<rparr>
     | Created i \<Rightarrow> \<lparr>pw_basic = (pw_basic w)(a := Some i),
         pw_slot = (pw_slot w)(a := \<lambda>k. case map_of (changed_values R acc) k of Some v \<Rightarrow> v | None \<Rightarrow> 0)\<rparr>
     | Updated i \<Rightarrow> \<lparr>pw_basic = (pw_basic w)(a := Some i),
         pw_slot = (pw_slot w)(a := \<lambda>k. case map_of (changed_values R acc) k of Some v \<Rightarrow> v | None \<Rightarrow> pw_slot w a k)\<rparr>)"

definition world_apply :: "revm_ops \<Rightarrow> evm_state \<Rightarrow> plain_world \<Rightarrow> plain_world" where
  "world_apply R st = fold (\<lambda>(a, acc). world_account R a acc) st"

definition represents :: "revm_ops \<Rightarrow> status_ops \<Rightarrow> ('e, 't, 'b) parallel_state \<Rightarrow> plain_world \<Rightarrow> bool" where
  "represents R A ps w \<longleftrightarrow>
    (\<forall>a. view_basic R ps a = Inr (pw_basic w a)) \<and> (\<forall>a k. view_slot A ps (a, k) = Inr (pw_slot w a k))"

section \<open>What is relied on\<close>

text \<open>Documented behaviour of revm-database's \<open>AccountStatus\<close>.\<close>

definition status_laws :: "status_ops \<Rightarrow> bool" where
  "status_laws A \<longleftrightarrow>
    (\<forall>st. is_storage_known A (on_created A st)) \<and>
    (\<forall>st. is_storage_known A (on_selfdestructed A st)) \<and>
    (\<forall>st. is_storage_known A (on_touched_empty_post_eip161 A st)) \<and>
    (\<forall>b st. is_storage_known A st \<longrightarrow> is_storage_known A (on_changed A b st)) \<and>
    (\<forall>b st. is_storage_known A (on_changed A b st) \<longrightarrow>
       is_storage_known A st \<or> st = LoadedEmptyEIP161 \<or> st = Loaded \<and> b) \<and>
    (\<forall>b st. on_changed A b st \<notin> {Loaded, LoadedEmptyEIP161}) \<and>
    (\<forall>st. on_created A st \<notin> {Loaded, LoadedEmptyEIP161}) \<and>
    (\<forall>st. on_selfdestructed A st \<notin> {Loaded, LoadedEmptyEIP161}) \<and>
    (\<forall>st. on_touched_empty_post_eip161 A st \<notin> {Loaded, LoadedEmptyEIP161}) \<and>
    is_storage_known A LoadedNotExisting \<and> \<not> is_storage_known A Loaded"

text \<open>A consistent backing database: an account that does not exist, is empty, or has neither code
  nor nonce has no storage.\<close>

definition db_consistent :: "revm_ops \<Rightarrow> status_ops \<Rightarrow> 'e database_ref \<Rightarrow> bool" where
  "db_consistent R A db \<longleftrightarrow>
    (\<forall>a k. basic_ref db a = Inr None \<longrightarrow> storage_ref db a k = Inr 0) \<and>
    (\<forall>a i k. basic_ref db a = Inr (Some i) \<and> (is_empty_info R i \<or> has_no_code_and_nonce A i) \<longrightarrow>
       storage_ref db a k = Inr 0)"

section \<open>The invariant of the cache\<close>

definition account_ok :: "revm_ops \<Rightarrow> status_ops \<Rightarrow> 'e database_ref \<Rightarrow> address \<Rightarrow> cache_account_info \<Rightarrow> bool" where
  "account_ok R A db a c \<longleftrightarrow>
    (ca_account c = None \<longrightarrow> is_storage_known A (ca_status c)) \<and>
    (ca_status c = Loaded \<longrightarrow> basic_ref db a = Inr (ca_account c)) \<and>
    (ca_status c = LoadedEmptyEIP161 \<longrightarrow> (\<exists>i. basic_ref db a = Inr (Some i) \<and> is_empty_info R i))"

definition cache_ok :: "revm_ops \<Rightarrow> status_ops \<Rightarrow> ('e, 't, 'b) parallel_state \<Rightarrow> bool" where
  "cache_ok R A ps \<longleftrightarrow> (\<forall>a c. ps_accounts ps a = Some c \<longrightarrow> account_ok R A (ps_database ps) a c)"

lemma cache_okD: "cache_ok R A ps \<Longrightarrow> ps_accounts ps a = Some c \<Longrightarrow> account_ok R A (ps_database ps) a c"
  by (simp add: cache_ok_def)

lemma fetched_account_ok:
  assumes "status_laws A" and "basic_ref db a = Inr info"
  shows "account_ok R A db a (fetched_account R info)"
  using assms by (cases info) (auto simp: account_ok_def fetched_account_def loaded_account_def cache_account_new_def status_laws_def)

lemma cache_ok_put:
  assumes "cache_ok R A ps" and "account_ok R A (ps_database ps) a c"
  shows "cache_ok R A (ps\<lparr>ps_cache := put_account a c (ps_cache ps)\<rparr>)"
  using assms by (auto simp: cache_ok_def put_account_def)

section \<open>Loads\<close>

lemma view_basic_cong:
  "ps_accounts ps' a = ps_accounts ps a \<Longrightarrow> ps_database ps' = ps_database ps \<Longrightarrow> view_basic R ps' a = view_basic R ps a"
  by (simp only: view_basic_def)

lemma view_slot_cong:
  "cached_slot a k ps' = cached_slot a k ps \<Longrightarrow> fetch_slot A a k ps' = fetch_slot A a k ps \<Longrightarrow>
    view_slot A ps' (a, k) = view_slot A ps (a, k)"
  by (simp only: view_slot_def fst_conv snd_conv)

lemma view_slot_load:
  assumes "status_laws A" and "db_consistent R A (ps_database ps)"
    and new: "ps_accounts ps a = None" and info: "basic_ref (ps_database ps) a = Inr info"
  shows "view_slot A (ps\<lparr>ps_cache := put_account a (fetched_account R info) (ps_cache ps)\<rparr>) = view_slot A ps"
proof -
  let ?ps = "ps\<lparr>ps_cache := put_account a (fetched_account R info) (ps_cache ps)\<rparr>"
  have slot: "cached_slot b k ?ps = cached_slot b k ps" for b k
    by (simp add: cached_slot_def put_account_def)
  have zero: "storage_known A a ?ps \<Longrightarrow> storage_ref (ps_database ps) a k = Inr 0" for k
    using assms by (cases info) (auto simp: storage_known_def put_account_def fetched_account_def loaded_account_def
        cache_account_new_def db_consistent_def status_laws_def split: if_splits)
  have old: "\<not> storage_known A a ps" using new by (simp add: storage_known_def)
  have other: "b \<noteq> a \<Longrightarrow> storage_known A b ?ps = storage_known A b ps" for b
    by (simp add: storage_known_def put_account_def)
  have "fetch_slot A b k ?ps = fetch_slot A b k ps" for b k
    using zero old other by (cases "b = a") (simp_all add: fetch_slot_def)
  then show ?thesis by (auto simp: slot fun_eq_iff intro!: view_slot_cong)
qed

lemma account_entry_new:
  "ps_accounts ps a = None \<Longrightarrow>
    account_entry a c ps = (c, ps\<lparr>ps_cache := put_account a c (ps_cache ps)\<rparr>)"
  by (simp add: account_entry_def)

lemma db_basic_represents:
  assumes "status_laws A" and "db_consistent R A (ps_database ps)" and rep: "represents R A ps w" and "cache_ok R A ps"
  shows "represents R A (snd (db_basic R a ps)) w \<and> cache_ok R A (snd (db_basic R a ps)) \<and>
    ps_database (snd (db_basic R a ps)) = ps_database ps \<and>
    cs_contracts (ps_cache (snd (db_basic R a ps))) = cs_contracts (ps_cache ps) \<and>
    dom (ps_accounts (snd (db_basic R a ps))) = insert a (dom (ps_accounts ps))"
proof (cases "ps_accounts ps a")
  case (Some c)
  then show ?thesis using assms by (auto simp: db_basic_def)
next
  case new: None
  have "view_basic R ps a = Inr (pw_basic w a)" using rep by (simp add: represents_def)
  then obtain info where info: "basic_ref (ps_database ps) a = Inr info"
    using new by (cases "basic_ref (ps_database ps) a") (auto simp: view_basic_def)
  have snd: "snd (db_basic R a ps) = ps\<lparr>ps_cache := put_account a (fetched_account R info) (ps_cache ps)\<rparr>"
    by (simp add: db_basic_def new info account_entry_new)
  show ?thesis unfolding snd using assms
    by (simp add: represents_def view_slot_load [OF assms(1,2) new info] view_basic_entry [OF new info]
        cache_ok_put [OF _ fetched_account_ok [OF assms(1) info]]) (auto simp: put_account_def)
qed

section \<open>The commit of one account\<close>

lemma fold_upd_map_of:
  "distinct (map fst xs) \<Longrightarrow> fold (\<lambda>(k, v) m. m(k \<mapsto> v)) xs m = m ++ map_of xs"
proof (induction xs arbitrary: m)
  case (Cons x xs)
  obtain k v where x: "x = (k, v)" by (cases x)
  have "map_of xs k = None" using Cons.prems x by (simp add: map_of_eq_None_iff)
  then have "m(k \<mapsto> v) ++ map_of xs = m ++ (map_of xs)(k \<mapsto> v)"
    by (auto simp: map_add_def fun_eq_iff split: option.splits)
  then show ?case using Cons x by (simp del: fun_upd_apply map_add_upd)
qed simp

lemma changed_values_distinct:
  "distinct (map fst (acct_storage acc)) \<Longrightarrow> distinct (map fst (changed_values R acc))"
  by (simp add: changed_values_def present_values_def case_prod_unfold comp_def distinct_map_filter)

lemma cached_slot_update:
  assumes "distinct (map fst xs)"
  shows "cached_slot b k (ps\<lparr>ps_cache := update_changed_slots a xs cs\<rparr>) =
    (if b = a then (case map_of xs k of Some v \<Rightarrow> Some v | None \<Rightarrow> cached_slot a k (ps\<lparr>ps_cache := cs\<rparr>))
     else cached_slot b k (ps\<lparr>ps_cache := cs\<rparr>))"
  using assms
  by (auto simp: update_changed_slots_def update_storage_slot_def cached_slot_def fold_upd_map_of Let_def
      map_add_def split: option.splits)

lemma update_changed_accounts [simp]:
  "cs_accounts (update_changed_slots a xs cs) = cs_accounts cs"
  "cs_contracts (update_changed_slots a xs cs) = cs_contracts cs"
  by (simp_all add: update_changed_slots_def update_storage_slot_def Let_def)

lemma storage_known_update [simp]:
  "storage_known A b (ps\<lparr>ps_cache := update_changed_slots a xs cs\<rparr>) = storage_known A b (ps\<lparr>ps_cache := cs\<rparr>)"
  by (simp add: storage_known_def)

lemma insert_contract_frame:
  assumes "insert_contract info cs = Some cs'"
  shows "cs_accounts cs' = cs_accounts cs" and "cs_storage cs' = cs_storage cs"
  using assms by (auto simp: insert_contract_def split: option.splits Option.bind_splits)

text \<open>An update that concerns one address only.\<close>

lemma represents_at:
  assumes rep: "represents R A ps w" and db: "ps_database ps' = ps_database ps"
    and frame: "\<And>b. b \<noteq> a \<Longrightarrow> ps_accounts ps' b = ps_accounts ps b"
      "\<And>b. b \<noteq> a \<Longrightarrow> cs_storage (ps_cache ps') b = cs_storage (ps_cache ps) b"
    and at: "view_basic R ps' a = Inr x" "\<And>k. view_slot A ps' (a, k) = Inr (f k)"
  shows "represents R A ps' \<lparr>pw_basic = (pw_basic w)(a := x), pw_slot = (pw_slot w)(a := f)\<rparr>"
proof -
  have basic: "view_basic R ps' b = Inr (pw_basic w b)" if "b \<noteq> a" for b
    using rep view_basic_cong [OF frame(1) [OF that] db] by (simp add: represents_def)
  have "view_slot A ps' (b, k) = view_slot A ps (b, k)" if "b \<noteq> a" for b k
    by (rule view_slot_cong) (simp_all only: cached_slot_def fetch_slot_def storage_known_def frame [OF that] db)
  then have "view_slot A ps' (b, k) = Inr (pw_slot w b k)" if "b \<noteq> a" for b k
    using rep that by (simp add: represents_def)
  then show ?thesis using basic at by (simp add: represents_def)
qed

lemma update_changed_other: "b \<noteq> a \<Longrightarrow> cs_storage (update_changed_slots a xs cs) b = cs_storage cs b"
  by (simp add: update_changed_slots_def update_storage_slot_def Let_def)

lemma represents_clear:
  assumes rep: "represents R A ps w" and acc: "ca_account c = None"
  shows "represents R A (ps\<lparr>ps_cache := put_account a c (remove_storage a (ps_cache ps))\<rparr>)
    \<lparr>pw_basic = (pw_basic w)(a := None), pw_slot = (pw_slot w)(a := \<lambda>_. 0)\<rparr>"
  by (rule represents_at [OF rep])
    (simp_all add: acc view_basic_def view_slot_def cached_slot_def fetch_slot_def storage_known_def put_account_def
      remove_storage_def)

lemma represents_create:
  assumes rep: "represents R A ps w" and c: "ca_account c = Some i" "is_storage_known A (ca_status c)"
    and xs: "distinct (map fst xs)"
    and cs: "cs_accounts cs = (ps_accounts ps)(a \<mapsto> c)" "cs_storage cs = (cs_storage (ps_cache ps))(a := None)"
  shows "represents R A (ps\<lparr>ps_cache := update_changed_slots a xs cs\<rparr>)
    \<lparr>pw_basic = (pw_basic w)(a := Some i),
     pw_slot = (pw_slot w)(a := \<lambda>k. case map_of xs k of Some v \<Rightarrow> v | None \<Rightarrow> 0)\<rparr>"
proof (rule represents_at [OF rep])
  fix k
  have "cached_slot a k (ps\<lparr>ps_cache := cs\<rparr>) = None" by (simp add: cached_slot_def cs)
  then have slot: "cached_slot a k (ps\<lparr>ps_cache := update_changed_slots a xs cs\<rparr>) = map_of xs k"
    by (simp add: cached_slot_update [OF xs] split: option.split)
  show "view_slot A (ps\<lparr>ps_cache := update_changed_slots a xs cs\<rparr>) (a, k) =
      Inr (case map_of xs k of Some v \<Rightarrow> v | None \<Rightarrow> 0)"
    by (simp add: view_slot_def slot fetch_slot_def storage_known_def cs c split: option.split)
qed (simp_all add: cs c view_basic_def update_changed_other)

lemma represents_update:
  assumes rep: "represents R A ps w" and c: "ca_account c = Some i"
    and xs: "distinct (map fst xs)" and cs: "cs_accounts cs = (ps_accounts ps)(a \<mapsto> c)" "cs_storage cs = cs_storage (ps_cache ps)"
    and fetch: "\<And>k. fetch_slot A a k (ps\<lparr>ps_cache := cs\<rparr>) = fetch_slot A a k ps"
  shows "represents R A (ps\<lparr>ps_cache := update_changed_slots a xs cs\<rparr>)
    \<lparr>pw_basic = (pw_basic w)(a := Some i),
     pw_slot = (pw_slot w)(a := \<lambda>k. case map_of xs k of Some v \<Rightarrow> v | None \<Rightarrow> pw_slot w a k)\<rparr>"
proof (rule represents_at [OF rep])
  fix k
  let ?ps = "ps\<lparr>ps_cache := update_changed_slots a xs cs\<rparr>"
  have same: "cached_slot a k (ps\<lparr>ps_cache := cs\<rparr>) = cached_slot a k ps" by (simp add: cached_slot_def cs)
  have slot: "cached_slot a k ?ps = (case map_of xs k of Some v \<Rightarrow> Some v | None \<Rightarrow> cached_slot a k ps)"
    unfolding cached_slot_update [OF xs] same by simp
  have fetch': "fetch_slot A a k ?ps = fetch_slot A a k ps"
    using fetch [of k] by (simp add: fetch_slot_def split: if_splits)
  have old: "view_slot A ps (a, k) = Inr (pw_slot w a k)" using rep by (simp add: represents_def)
  show "view_slot A ?ps (a, k) = Inr (case map_of xs k of Some v \<Rightarrow> v | None \<Rightarrow> pw_slot w a k)"
  proof (cases "map_of xs k")
    case None
    then have "view_slot A ?ps (a, k) = view_slot A ps (a, k)"
      by (intro view_slot_cong) (simp_all add: slot fetch')
    then show ?thesis using old None by simp
  qed (simp add: view_slot_def slot)
qed (simp_all add: cs c view_basic_def update_changed_other)

lemma fetch_slot_changed:
  assumes laws: "status_laws A" and db: "db_consistent R A (ps_database ps)" and ok: "account_ok R A (ps_database ps) a c"
    and c: "ps_accounts ps a = Some c"
    and cs: "cs_accounts cs = (ps_accounts ps)(a \<mapsto> \<lparr>ca_account = Some i,
      ca_status = on_changed A (had_no_nonce_and_code A (ca_account c)) (ca_status c)\<rparr>)"
  shows "fetch_slot A a k (ps\<lparr>ps_cache := cs\<rparr>) = fetch_slot A a k ps"
proof -
  let ?b = "had_no_nonce_and_code A (ca_account c)"
  let ?st = "on_changed A ?b (ca_status c)"
  have new: "storage_known A a (ps\<lparr>ps_cache := cs\<rparr>) = is_storage_known A ?st"
    by (simp add: storage_known_def cs)
  have known: "storage_known A a ps \<Longrightarrow> is_storage_known A ?st"
    using laws ok by (auto simp: storage_known_def c status_laws_def account_ok_def)
  have zero: "storage_ref (ps_database ps) a k = Inr 0" if "is_storage_known A ?st" "\<not> storage_known A a ps"
  proof -
    have "\<not> is_storage_known A (ca_status c)" using that(2) by (simp add: storage_known_def c)
    then have "ca_status c = LoadedEmptyEIP161 \<or> ca_status c = Loaded \<and> ?b"
      using laws that(1) unfolding status_laws_def by blast
    then show ?thesis using ok db
      by (auto simp: account_ok_def db_consistent_def had_no_nonce_and_code_def split: option.splits)
  qed
  show ?thesis using known zero by (auto simp: fetch_slot_def new)
qed

text \<open>The outcome of one account: no panic, the world updated, the invariant kept and no account
  dropped from the cache.\<close>

definition account_applied ::
  "revm_ops \<Rightarrow> status_ops \<Rightarrow> ('e, 't, 'b) parallel_state \<Rightarrow> plain_world \<Rightarrow>
    (transition_account option \<times> parallel_cache_state) option \<Rightarrow> bool" where
  "account_applied R A ps w r \<longleftrightarrow>
    (\<exists>t cs. r = Some (t, cs) \<and> represents R A (ps\<lparr>ps_cache := cs\<rparr>) w \<and> cache_ok R A (ps\<lparr>ps_cache := cs\<rparr>) \<and>
       dom (cs_accounts cs) = dom (ps_accounts ps))"

lemma account_appliedI:
  assumes "represents R A (ps\<lparr>ps_cache := cs\<rparr>) w" and "cache_ok R A ps" and "account_ok R A (ps_database ps) a c"
    and "cs_accounts cs = (ps_accounts ps)(a \<mapsto> c)" and "a \<in> dom (ps_accounts ps)"
  shows "account_applied R A ps w (Some (t, cs))"
  using assms by (auto simp: account_applied_def cache_ok_def)

lemma cleared_account_ok:
  assumes "status_laws A"
  shows "account_ok R A db a \<lparr>ca_account = None, ca_status = on_selfdestructed A st\<rparr>"
    and "account_ok R A db a \<lparr>ca_account = None, ca_status = on_touched_empty_post_eip161 A st\<rparr>"
    and "account_ok R A db a \<lparr>ca_account = Some i, ca_status = on_created A st\<rparr>"
    and "account_ok R A db a \<lparr>ca_account = Some i, ca_status = on_changed A b st\<rparr>"
  using assms by (auto simp: account_ok_def status_laws_def)

lemma apply_clear:
  assumes laws: "status_laws A" and rep: "represents R A ps w" and ok: "cache_ok R A ps" and c: "ps_accounts ps a = Some c"
    and fin: "is_touched acc" "is_selfdestructed acc \<or> \<not> is_created acc \<and> is_empty_info R (acct_info acc)"
  shows "account_applied R A ps (world_account R a acc w) (apply_account_state R A a acc (ps_cache ps))"
proof -
  obtain t st where r: "apply_account_state R A a acc (ps_cache ps) =
      Some (t, put_account a \<lparr>ca_account = None, ca_status = st\<rparr> (remove_storage a (ps_cache ps)))"
    and st: "account_ok R A (ps_database ps) a \<lparr>ca_account = None, ca_status = st\<rparr>"
    using fin c cleared_account_ok(1,2) [OF laws, of R "ps_database ps" a "ca_status c"]
    by (cases "is_selfdestructed acc")
      (auto simp: apply_account_state_def get_account_mut_def remove_storage_def selfdestruct_def touch_empty_eip161_def Let_def)
  have "finalized_account_from R acc = Deleted" using fin by (auto simp: finalized_account_from_def)
  then have "represents R A (ps\<lparr>ps_cache := put_account a \<lparr>ca_account = None, ca_status = st\<rparr> (remove_storage a (ps_cache ps))\<rparr>)
      (world_account R a acc w)"
    using represents_clear [OF rep] by (simp add: world_account_def)
  then show ?thesis unfolding r
    by (rule account_appliedI [OF _ ok st]) (auto simp: put_account_def remove_storage_def c)
qed

lemma apply_created:
  assumes laws: "status_laws A" and rep: "represents R A ps w" and ok: "cache_ok R A ps" and c: "ps_accounts ps a = Some c"
    and slots: "distinct (map fst (acct_storage acc))"
    and fin: "is_touched acc" "\<not> is_selfdestructed acc" "is_created acc" and code: "info_code (acct_info acc) = Some x"
  shows "account_applied R A ps (world_account R a acc w) (apply_account_state R A a acc (ps_cache ps))"
proof -
  let ?c = "\<lparr>ca_account = Some (acct_info acc), ca_status = on_created A (ca_status c)\<rparr>"
  let ?cs = "put_account a ?c (remove_storage a (ps_cache ps))"
  obtain cs where cs: "insert_contract (acct_info acc) ?cs = Some cs"
    using code by (cases "cs_contracts ?cs (info_code_hash (acct_info acc))") (auto simp: insert_contract_def)
  obtain t where r: "apply_account_state R A a acc (ps_cache ps) = Some (t, update_changed_slots a (changed_values R acc) cs)"
    using fin c cs by (simp add: apply_account_state_def get_account_mut_def remove_storage_def newly_created_def Let_def
        changed_values_def)
  have acc: "cs_accounts cs = (ps_accounts ps)(a \<mapsto> ?c)" "cs_storage cs = (cs_storage (ps_cache ps))(a := None)"
    using insert_contract_frame [OF cs] by (simp_all add: put_account_def remove_storage_def)
  have "represents R A (ps\<lparr>ps_cache := update_changed_slots a (changed_values R acc) cs\<rparr>) (world_account R a acc w)"
    using represents_create [OF rep _ _ changed_values_distinct [OF slots, of R] acc, of "acct_info acc"] laws fin
    by (simp add: world_account_def finalized_account_from_def status_laws_def)
  then show ?thesis unfolding r
    by (rule account_appliedI [OF _ ok cleared_account_ok(3) [OF laws]]) (auto simp: acc c)
qed

lemma apply_changed:
  assumes laws: "status_laws A" and db: "db_consistent R A (ps_database ps)"
    and rep: "represents R A ps w" and ok: "cache_ok R A ps" and c: "ps_accounts ps a = Some c"
    and slots: "distinct (map fst (acct_storage acc))"
    and fin: "is_touched acc" "\<not> is_selfdestructed acc" "\<not> is_created acc" "\<not> is_empty_info R (acct_info acc)"
  shows "account_applied R A ps (world_account R a acc w) (apply_account_state R A a acc (ps_cache ps))"
proof -
  let ?c = "\<lparr>ca_account = Some (acct_info acc),
    ca_status = on_changed A (had_no_nonce_and_code A (ca_account c)) (ca_status c)\<rparr>"
  let ?cs = "put_account a ?c (ps_cache ps)"
  obtain t where r: "apply_account_state R A a acc (ps_cache ps) = Some (t, update_changed_slots a (changed_values R acc) ?cs)"
    using fin c by (simp add: apply_account_state_def get_account_mut_def change_account_def Let_def changed_values_def)
  have acc: "cs_accounts ?cs = (ps_accounts ps)(a \<mapsto> ?c)" "cs_storage ?cs = cs_storage (ps_cache ps)"
    by (simp_all add: put_account_def)
  note fetch = fetch_slot_changed [OF laws db cache_okD [OF ok c] c acc(1)]
  have "represents R A (ps\<lparr>ps_cache := update_changed_slots a (changed_values R acc) ?cs\<rparr>) (world_account R a acc w)"
    using represents_update [OF rep _ changed_values_distinct [OF slots, of R] acc fetch, of "acct_info acc"] fin
    by (simp add: world_account_def finalized_account_from_def)
  then show ?thesis unfolding r
    by (rule account_appliedI [OF _ ok cleared_account_ok(4) [OF laws]]) (auto simp: put_account_def c)
qed

text \<open>What a finalized account needs so that committing it cannot panic.\<close>

definition account_ready :: "account \<Rightarrow> bool" where
  "account_ready acc \<longleftrightarrow> distinct (map fst (acct_storage acc)) \<and>
    (is_touched acc \<and> \<not> is_selfdestructed acc \<and> is_created acc \<longrightarrow> info_code (acct_info acc) \<noteq> None)"

lemma apply_account_correct:
  assumes laws: "status_laws A" and db: "db_consistent R A (ps_database ps)"
    and rep: "represents R A ps w" and ok: "cache_ok R A ps"
    and cached: "is_touched acc \<longrightarrow> a \<in> dom (ps_accounts ps)" and ready: "account_ready acc"
  shows "account_applied R A ps (world_account R a acc w) (apply_account_state R A a acc (ps_cache ps))"
proof (cases "is_touched acc")
  case False
  then show ?thesis using rep ok
    by (simp add: account_applied_def apply_account_state_def world_account_def finalized_account_from_def)
next
  case True
  then obtain c where c: "ps_accounts ps a = Some c" using cached by auto
  have slots: "distinct (map fst (acct_storage acc))" using ready by (simp add: account_ready_def)
  consider "is_selfdestructed acc \<or> \<not> is_created acc \<and> is_empty_info R (acct_info acc)"
    | "\<not> is_selfdestructed acc" "is_created acc"
    | "\<not> is_selfdestructed acc" "\<not> is_created acc" "\<not> is_empty_info R (acct_info acc)" by blast
  then show ?thesis
  proof cases
    case 1 then show ?thesis by (rule apply_clear [OF laws rep ok c True])
  next
    case 2
    then obtain x where "info_code (acct_info acc) = Some x" using ready True by (auto simp: account_ready_def)
    then show ?thesis using 2 by (intro apply_created [OF laws rep ok c slots True])
  next
    case 3 then show ?thesis by (rule apply_changed [OF laws db rep ok c slots True])
  qed
qed

lemma apply_evm_state_correct:
  assumes laws: "status_laws A" and db: "db_consistent R A (ps_database ps)"
    and "represents R A ps w" and "cache_ok R A ps"
    and "\<forall>(a, acc) \<in> set st. is_touched acc \<longrightarrow> a \<in> dom (ps_accounts ps)" and "\<forall>(a, acc) \<in> set st. account_ready acc"
  shows "\<exists>ts cs. apply_evm_state R A st (ps_cache ps) = Some (ts, cs) \<and>
    represents R A (ps\<lparr>ps_cache := cs\<rparr>) (world_apply R st w) \<and> cache_ok R A (ps\<lparr>ps_cache := cs\<rparr>)"
  using assms(2-)
proof (induction st arbitrary: ps w)
  case Nil
  then show ?case by (simp add: world_apply_def)
next
  case (Cons x st)
  obtain a acc where x: "x = (a, acc)" by (cases x)
  have "account_applied R A ps (world_account R a acc w) (apply_account_state R A a acc (ps_cache ps))"
    using Cons.prems x by (intro apply_account_correct [OF laws]) auto
  then obtain t cs where r: "apply_account_state R A a acc (ps_cache ps) = Some (t, cs)"
    and cs: "represents R A (ps\<lparr>ps_cache := cs\<rparr>) (world_account R a acc w)" "cache_ok R A (ps\<lparr>ps_cache := cs\<rparr>)"
      "dom (cs_accounts cs) = dom (ps_accounts ps)"
    by (auto simp: account_applied_def)
  have "\<exists>ts cs'. apply_evm_state R A st (ps_cache (ps\<lparr>ps_cache := cs\<rparr>)) = Some (ts, cs') \<and>
      represents R A (ps\<lparr>ps_cache := cs, ps_cache := cs'\<rparr>) (world_apply R st (world_account R a acc w)) \<and>
      cache_ok R A (ps\<lparr>ps_cache := cs, ps_cache := cs'\<rparr>)"
    using Cons.prems cs by (intro Cons.IH) auto
  then show ?case by (auto simp: x r world_apply_def)
qed

lemma represents_transitions [simp]:
  "represents R A (ps\<lparr>transition_state := t\<rparr>) w = represents R A ps w"
proof -
  have "view_basic R (ps\<lparr>transition_state := t\<rparr>) a = view_basic R ps a" for a
    by (rule view_basic_cong) simp_all
  moreover have "view_slot A (ps\<lparr>transition_state := t\<rparr>) (a, k) = view_slot A ps (a, k)" for a k
    by (rule view_slot_cong) (simp_all add: cached_slot_def fetch_slot_def storage_known_def)
  ultimately show ?thesis by (simp add: represents_def)
qed

lemma cache_ok_transitions [simp]: "cache_ok R A (ps\<lparr>transition_state := t\<rparr>) = cache_ok R A ps"
  by (simp add: cache_ok_def)

lemma loads_represent:
  assumes laws: "status_laws A" and "db_consistent R A (ps_database ps)" and "represents R A ps w" and "cache_ok R A ps"
  shows "represents R A (fold (\<lambda>a ps. snd (db_basic R a ps)) as ps) w \<and>
    cache_ok R A (fold (\<lambda>a ps. snd (db_basic R a ps)) as ps) \<and>
    ps_database (fold (\<lambda>a ps. snd (db_basic R a ps)) as ps) = ps_database ps \<and>
    dom (ps_accounts (fold (\<lambda>a ps. snd (db_basic R a ps)) as ps)) = set as \<union> dom (ps_accounts ps)"
  using assms(2-)
proof (induction as arbitrary: ps)
  case (Cons a as)
  have *: "represents R A (snd (db_basic R a ps)) w" "cache_ok R A (snd (db_basic R a ps))"
    "ps_database (snd (db_basic R a ps)) = ps_database ps"
    "dom (ps_accounts (snd (db_basic R a ps))) = insert a (dom (ps_accounts ps))"
    using db_basic_represents [OF laws Cons.prems, of a] by simp_all
  show ?case using Cons.IH [of "snd (db_basic R a ps)"] * Cons.prems(1) by simp
qed simp

section \<open>Balances\<close>

definition world_info :: "revm_ops \<Rightarrow> plain_world \<Rightarrow> address \<Rightarrow> account_info" where
  "world_info R w a = (case pw_basic w a of None \<Rightarrow> default_info R | Some i \<Rightarrow> i)"

definition world_set :: "revm_ops \<Rightarrow> address \<Rightarrow> u256 \<Rightarrow> plain_world \<Rightarrow> plain_world" where
  "world_set R a b w = 
    \<lparr>pw_basic = (pw_basic w)(a \<mapsto> (world_info R w a)\<lparr>info_balance := b\<rparr>), pw_slot = pw_slot w\<rparr>"

definition world_credit :: "revm_ops \<Rightarrow> address \<times> u128 \<Rightarrow> plain_world \<Rightarrow> plain_world" where
  "world_credit R ax w =
    (if snd ax = 0 then w
     else world_set R (fst ax) (saturating_add (info_balance (world_info R w (fst ax))) (ucast (snd ax))) w)"

lemma load_mut_represents:
  assumes laws: "status_laws A" and "db_consistent R A (ps_database ps)" and rep: "represents R A ps w" and "cache_ok R A ps"
  obtains c ps' where "load_mut_cache_account R a ps = (Inr c, ps')" and "ps_accounts ps' a = Some c"
    and "ca_account c = pw_basic w a" and "represents R A ps' w" and "cache_ok R A ps'" and "ps_database ps' = ps_database ps"
proof -
  let ?ps = "snd (db_basic R a ps)"
  note db = db_basic_represents [OF assms, of a]
  have "a \<in> dom (ps_accounts ?ps)" using db by simp
  then obtain c where c: "ps_accounts ?ps a = Some c" by auto
  have "view_basic R ?ps a = Inr (pw_basic w a)" using db by (simp add: represents_def)
  then have acc: "ca_account c = pw_basic w a" by (simp add: view_basic_def c)
  have "view_basic R ps a = Inr (pw_basic w a)" using rep by (simp add: represents_def)
  then have "load_mut_cache_account R a ps = (Inr c, ?ps)"
    using c by (cases "ps_accounts ps a"; cases "basic_ref (ps_database ps) a")
      (auto simp: load_mut_cache_account_def db_basic_def view_basic_def account_entry_def put_account_def)
  then show thesis using that acc c db by blast
qed

lemma represents_set_balance:
  assumes laws: "status_laws A" and db: "db_consistent R A (ps_database ps)" and rep: "represents R A ps w"
    and ok: "cache_ok R A ps" and c: "ps_accounts ps a = Some c" and acc: "ca_account c = pw_basic w a"
    and c': "c' = \<lparr>ca_account = Some ((world_info R w a)\<lparr>info_balance := b\<rparr>),
      ca_status = on_changed A (had_no_nonce_and_code A (ca_account c)) (ca_status c)\<rparr>"
  shows "represents R A (ps\<lparr>ps_cache := put_account a c' (ps_cache ps)\<rparr>) (world_set R a b w)"
    and "cache_ok R A (ps\<lparr>ps_cache := put_account a c' (ps_cache ps)\<rparr>)"
proof -
  let ?cs = "put_account a c' (ps_cache ps)"
  have upd: "cs_accounts ?cs = (ps_accounts ps)(a \<mapsto> c')" "cs_storage ?cs = cs_storage (ps_cache ps)"
    by (simp_all add: put_account_def)
  note fetch = fetch_slot_changed [OF laws db cache_okD [OF ok c] c upd(1) [unfolded c']]
  have c'': "ca_account c' = Some ((world_info R w a)\<lparr>info_balance := b\<rparr>)" by (simp add: c')
  have "represents R A (ps\<lparr>ps_cache := update_changed_slots a [] ?cs\<rparr>)
      \<lparr>pw_basic = (pw_basic w)(a \<mapsto> (world_info R w a)\<lparr>info_balance := b\<rparr>),
       pw_slot = (pw_slot w)(a := \<lambda>k. case map_of [] k of Some v \<Rightarrow> v | None \<Rightarrow> pw_slot w a k)\<rparr>"
    by (rule represents_update [OF rep c'' _ upd]) (simp_all add: fetch c')
  moreover have "(pw_slot w)(a := \<lambda>k. pw_slot w a k) = pw_slot w" by (simp add: fun_eq_iff)
  ultimately show "represents R A (ps\<lparr>ps_cache := ?cs\<rparr>) (world_set R a b w)"
    by (simp add: update_changed_slots_def world_set_def)
  show "cache_ok R A (ps\<lparr>ps_cache := ?cs\<rparr>)"
    by (rule cache_ok_put [OF ok]) (simp add: c' cleared_account_ok [OF laws])
qed

lemma increment_balance_change:
  assumes "balance \<noteq> 0" and "ca_account c = pw_basic w a"
  obtains t where "increment_balance R A balance c = (Some t,
    \<lparr>ca_account = Some ((world_info R w a)\<lparr>info_balance := saturating_add (info_balance (world_info R w a)) (ucast balance)\<rparr>),
     ca_status = on_changed A (had_no_nonce_and_code A (ca_account c)) (ca_status c)\<rparr>)"
  using assms by (simp add: increment_balance_def account_info_change_def world_info_def Let_def)

lemma increment_transitions_refine:
  assumes laws: "status_laws A" and "db_consistent R A (ps_database ps)" and "represents R A ps w" and "cache_ok R A ps"
  shows "\<exists>ts ps'. increment_balance_transitions R A balances ps = (Inr ts, ps') \<and>
    represents R A ps' (fold (world_credit R) balances w) \<and> cache_ok R A ps'"
  using assms(2-)
proof (induction balances arbitrary: ps w)
  case (Cons x rest)
  obtain a b where x: "x = (a, b)" by (cases x)
  show ?case
  proof (cases "b = 0")
    case True
    then show ?thesis using Cons x by (simp add: world_credit_def)
  next
    case False
    obtain c ps1 where load: "load_mut_cache_account R a ps = (Inr c, ps1)" "ps_accounts ps1 a = Some c"
      "ca_account c = pw_basic w a" "represents R A ps1 w" "cache_ok R A ps1" "ps_database ps1 = ps_database ps"
      by (rule load_mut_represents [OF laws Cons.prems])
    obtain t c' where inc: "increment_balance R A b c = (Some t, c')"
      and c': "c' = \<lparr>ca_account = Some ((world_info R w a)\<lparr>info_balance := saturating_add (info_balance (world_info R w a)) (ucast b)\<rparr>),
       ca_status = on_changed A (had_no_nonce_and_code A (ca_account c)) (ca_status c)\<rparr>"
      using increment_balance_change [OF False load(3)] by metis
    have db: "db_consistent R A (ps_database ps1)" using Cons.prems(1) load(6) by simp
    note upd = represents_set_balance [OF laws db load(4,5,2,3) c']
    show ?thesis using Cons.IH [OF _ upd] db False
      by (auto simp: x load(1) inc world_credit_def)
  qed
qed simp

text \<open>Draining: the balance is returned and left zero; an amount of \<open>2 ^ 128\<close> or more panics.\<close>

fun world_drain :: "revm_ops \<Rightarrow> address list \<Rightarrow> plain_world \<Rightarrow> (u128 list \<times> plain_world) option" where
  "world_drain R [] w = Some ([], w)"
| "world_drain R (a # as) w =
    (if unat (info_balance (world_info R w a)) < 2 ^ 128 then
       map_option (\<lambda>(bs, w'). (ucast (info_balance (world_info R w a)) # bs, w')) (world_drain R as (world_set R a 0 w))
     else None)"

lemma drain_balance_change:
  assumes "ca_account c = pw_basic w a"
  shows "unat (info_balance (world_info R w a)) \<ge> 2 ^ 128 \<Longrightarrow> drain_balance R A c = None"
    and "unat (info_balance (world_info R w a)) < 2 ^ 128 \<Longrightarrow> \<exists>t. drain_balance R A c =
      Some ((ucast (info_balance (world_info R w a)), t),
        \<lparr>ca_account = Some ((world_info R w a)\<lparr>info_balance := 0\<rparr>),
         ca_status = on_changed A (had_no_nonce_and_code A (ca_account c)) (ca_status c)\<rparr>)"
  using assms by (auto simp: drain_balance_def account_info_change_def world_info_def Let_def)

lemma drain_loop_refine:
  assumes laws: "status_laws A" and "db_consistent R A (ps_database ps)" and "represents R A ps w" and "cache_ok R A ps"
  shows "case world_drain R as w of
      None \<Rightarrow> drain_loop R A as ps = None
    | Some (bs, w') \<Rightarrow> \<exists>ts ps'. drain_loop R A as ps = Some (Inr (bs, ts), ps') \<and> represents R A ps' w' \<and> cache_ok R A ps'"
  using assms(2-)
proof (induction as arbitrary: ps w)
  case (Cons a as)
  let ?b = "info_balance (world_info R w a)"
  obtain c ps1 where load: "load_mut_cache_account R a ps = (Inr c, ps1)" "ps_accounts ps1 a = Some c"
    "ca_account c = pw_basic w a" "represents R A ps1 w" "cache_ok R A ps1" "ps_database ps1 = ps_database ps"
    by (rule load_mut_represents [OF laws Cons.prems])
  have db: "db_consistent R A (ps_database ps1)" using Cons.prems(1) load(6) by simp
  show ?case
  proof (cases "unat ?b < 2 ^ 128")
    case False
    then show ?thesis using drain_balance_change(1) [OF load(3)] by (simp add: load(1))
  next
    case True
    obtain t c' where dr: "drain_balance R A c = Some ((ucast ?b, t), c')"
      and c': "c' = \<lparr>ca_account = Some ((world_info R w a)\<lparr>info_balance := 0\<rparr>),
         ca_status = on_changed A (had_no_nonce_and_code A (ca_account c)) (ca_status c)\<rparr>"
      using drain_balance_change(2) [OF load(3) True] by metis
    note upd = represents_set_balance [OF laws db load(4,5,2,3) c']
    show ?thesis
    proof (cases "world_drain R as (world_set R a 0 w)")
      case None
      then show ?thesis using Cons.IH [OF _ upd] db by (simp add: load(1) dr True)
    next
      case (Some r)
      then show ?thesis using Cons.IH [OF _ upd] db True by (cases r) (auto simp: load(1) dr)
    qed
  qed
qed simp

section \<open>Instances for the witnesses\<close>

definition sample_status :: status_ops where
  "sample_status =
    \<lparr>on_changed = (\<lambda>b st. case st of
        Loaded \<Rightarrow> if b then InMemoryChange else Changed
      | Changed \<Rightarrow> Changed
      | Destroyed \<Rightarrow> DestroyedChanged | DestroyedChanged \<Rightarrow> DestroyedChanged | DestroyedAgain \<Rightarrow> DestroyedChanged
      | _ \<Rightarrow> InMemoryChange),
     on_created = (\<lambda>st. if st \<in> {Destroyed, DestroyedChanged, DestroyedAgain} then DestroyedChanged else InMemoryChange),
     on_selfdestructed = (\<lambda>st. if st = LoadedNotExisting then LoadedNotExisting
        else if st \<in> {Destroyed, DestroyedChanged, DestroyedAgain} then DestroyedAgain else Destroyed),
     on_touched_empty_post_eip161 = (\<lambda>st. if st = LoadedNotExisting then LoadedNotExisting
        else if st \<in> {DestroyedChanged, DestroyedAgain} then DestroyedAgain else Destroyed),
     is_storage_known = (\<lambda>st. st \<in> {LoadedNotExisting, InMemoryChange, Destroyed, DestroyedChanged, DestroyedAgain}),
     has_no_code_and_nonce = (\<lambda>i. info_code_hash i = keccak_empty \<and> info_nonce i = 0)\<rparr>"

lemma sample_status_laws: "status_laws sample_status"
  by (simp add: status_laws_def sample_status_def split: account_status.split)

text \<open>One contract at address 7 with nonce 1 and value 5 in slot 0; everything else is absent.\<close>

definition sample_contract :: account_info where
  "sample_contract = \<lparr>info_balance = 10, info_nonce = 1, info_code_hash = 99, info_code = Some [1]\<rparr>"

definition sample_state_db :: "unit database_ref" where
  "sample_state_db =
    \<lparr>basic_ref = (\<lambda>a. Inr (if a = 7 then Some sample_contract else None)),
     code_by_hash_ref = (\<lambda>_. Inr [1]),
     storage_ref = (\<lambda>a k. Inr (if a = 7 \<and> k = 0 then 5 else 0)),
     block_hash_ref = (\<lambda>_. Inr 0)\<rparr>"

definition sample_ps :: "(unit, unit, unit) parallel_state" where
  "sample_ps = parallel_state_new sample_state_db True () ()"

definition sample_plain_world :: plain_world where
  "sample_plain_world = \<lparr>pw_basic = (\<lambda>a. if a = 7 then Some sample_contract else None),
    pw_slot = (\<lambda>a k. if a = 7 \<and> k = 0 then 5 else 0)\<rparr>"

lemma sample_db_consistent: "db_consistent sample_revm sample_status (ps_database sample_ps)"
  by (simp add: db_consistent_def sample_ps_def parallel_state_new_def sample_state_db_def sample_revm_def
      sample_contract_def sample_status_def keccak_empty_def)

lemma sample_represents: "represents sample_revm sample_status sample_ps sample_plain_world"
  by (simp add: represents_def view_basic_def view_slot_def cached_slot_def fetch_slot_def storage_known_def sample_ps_def
      parallel_state_new_def cache_state_new_def sample_state_db_def sample_plain_world_def fetched_account_def loaded_account_def
      cache_account_new_def sample_revm_def sample_contract_def)

lemma sample_cache_ok: "cache_ok sample_revm sample_status sample_ps"
  by (simp add: cache_ok_def sample_ps_def parallel_state_new_def cache_state_new_def)

lemmas sample_state = sample_status_laws sample_db_consistent sample_represents sample_cache_ok

definition sample_destroyed :: account where
  "sample_destroyed = \<lparr>acct_info = sample_contract, is_touched = True, is_selfdestructed = True, is_created = False, acct_storage = []\<rparr>"

definition sample_new_account :: account where
  "sample_new_account = \<lparr>acct_info = sample_contract, is_touched = True, is_selfdestructed = False, is_created = True,
    acct_storage = [(1, \<lparr>original_value = 0, present_value = 8\<rparr>)]\<rparr>"

section \<open>Properties\<close>

text \<open>\<^bold>\<open>C12\<close>. The parallel state implements the plain world. Over a backing database without errors in
  which absent, empty and code-and-nonce-free accounts have no storage, once the accounts of a
  finalized EVM state have been read, committing that state does not panic, keeps the cache
  invariant, and the accounts and slots then presented are those of the old world updated account by
  account: deleted accounts lose their storage, created ones start from their own slots, updated
  ones keep the slots that did not change.\<close>

theorem commit_refines_world:
  assumes "status_laws A" and "db_consistent R A (ps_database ps)" and "represents R A ps w" and "cache_ok R A ps"
    and "\<forall>(a, acc) \<in> set st. account_ready acc"
  shows "\<exists>ps'. ps_commit R A add st (fold (\<lambda>a ps. snd (db_basic R a ps)) (map fst st) ps) = Some ps' \<and>
    represents R A ps' (world_apply R st w) \<and> cache_ok R A ps'"
proof -
  let ?ps = "fold (\<lambda>a ps. snd (db_basic R a ps)) (map fst st) ps"
  note loads = loads_represent [OF assms(1-4), of "map fst st"]
  have "\<exists>ts cs. apply_evm_state R A st (ps_cache ?ps) = Some (ts, cs) \<and>
      represents R A (?ps\<lparr>ps_cache := cs\<rparr>) (world_apply R st w) \<and> cache_ok R A (?ps\<lparr>ps_cache := cs\<rparr>)"
    using loads assms by (intro apply_evm_state_correct) force+
  then show ?thesis by (auto simp: ps_commit_def apply_transition_def)
qed

theorem commit_refines_world_witness:
  "\<exists>ps'. ps_commit sample_revm sample_status (\<lambda>_ t. t) [(7, sample_destroyed), (3, sample_new_account)]
      (fold (\<lambda>a ps. snd (db_basic sample_revm a ps)) [7, 3] sample_ps) = Some ps' \<and>
    represents sample_revm sample_status ps'
      (world_apply sample_revm [(7, sample_destroyed), (3, sample_new_account)] sample_plain_world)"
  using commit_refines_world [OF sample_state, of "[(7, sample_destroyed), (3, sample_new_account)]" "\<lambda>_ t. t"]
  by (auto simp: account_ready_def sample_destroyed_def sample_new_account_def sample_contract_def)

text \<open>\<^bold>\<open>C34\<close>. \<open>increment_balances\<close> succeeds and credits each account of the presented world in order,
  saturating at the largest \<open>U256\<close>, creating absent accounts and skipping zero amounts; no slot
  changes.\<close>

theorem increment_balances_refines:
  assumes "status_laws A" and "db_consistent R A (ps_database ps)" and "represents R A ps w" and "cache_ok R A ps"
  shows "\<exists>ps'. increment_balances R A add balances ps = (Inr (), ps') \<and>
    represents R A ps' (fold (world_credit R) balances w) \<and> cache_ok R A ps'"
  using increment_transitions_refine [OF assms, of balances]
  by (auto simp: increment_balances_def apply_transition_def)

theorem increment_balances_refines_witness:
  "\<exists>ps'. increment_balances sample_revm sample_status (\<lambda>_ t. t) [(7, 5), (3, 0), (7, 1)] sample_ps = (Inr (), ps') \<and>
    represents sample_revm sample_status ps' (fold (world_credit sample_revm) [(7, 5), (3, 0), (7, 1)] sample_plain_world)"
  using increment_balances_refines [OF sample_state, of "\<lambda>_ t. t" "[(7, 5), (3, 0), (7, 1)]"] by blast

text \<open>\<^bold>\<open>C35\<close>. \<open>drain_balances\<close> returns the balances of the presented world in order and leaves them
  zero; it panics exactly when a balance it meets does not fit 128 bits.\<close>

theorem drain_balances_refines:
  assumes "status_laws A" and "db_consistent R A (ps_database ps)" and "represents R A ps w" and "cache_ok R A ps"
  shows "case world_drain R as w of
      None \<Rightarrow> drain_balances R A add as ps = None
    | Some (bs, w') \<Rightarrow> \<exists>ps'. drain_balances R A add as ps = Some (Inr bs, ps') \<and> represents R A ps' w' \<and> cache_ok R A ps'"
  using drain_loop_refine [OF assms, of as]
  by (auto simp: drain_balances_def apply_transition_def split: option.splits prod.splits)

theorem drain_balances_refines_witness:
  "\<exists>ps'. drain_balances sample_revm sample_status (\<lambda>_ t. t) [7, 7] sample_ps = Some (Inr [10, 0], ps')"
  using drain_balances_refines [OF sample_state, of "\<lambda>_ t. t" "[7, 7]"]
  by (auto simp: world_set_def world_info_def sample_plain_world_def sample_contract_def)

text \<open>\<^bold>\<open>C36\<close>. A slot read that fetched its value from the database before a commit destroyed the
  account, and that inserts it afterwards, brings the destroyed slot back: right after the commit
  the state presents zero, after the late insertion it presents the old value again.\<close>

theorem stale_slot_after_destroy:
  assumes read: "cached_slot a k ps = None" "fetch_slot A a k ps = Inr v"
    and acc: "is_touched acc" "is_selfdestructed acc" and cached: "a \<in> dom (ps_accounts ps)"
  shows "\<exists>ps'. ps_commit R A add [(a, acc)] ps = Some ps' \<and> view_slot A ps (a, k) = Inr v \<and>
    view_slot A ps' (a, k) = Inr 0 \<and> view_slot A (snd (slot_entry a k v ps')) (a, k) = Inr v"
proof -
  obtain c where c: "ps_accounts ps a = Some c" using cached by auto
  let ?cs = "put_account a (snd (selfdestruct A c)) (remove_storage a (ps_cache ps))"
  have "\<exists>t. apply_account_state R A a acc (ps_cache ps) = Some (t, ?cs)"
    using acc c by (simp add: apply_account_state_def get_account_mut_def remove_storage_def selfdestruct_def Let_def)
  then obtain ts where "ps_commit R A add [(a, acc)] ps = Some (apply_transition add ts (ps\<lparr>ps_cache := ?cs\<rparr>))"
    by (auto simp: ps_commit_def)
  moreover have "view_slot A (apply_transition add ts (ps\<lparr>ps_cache := ?cs\<rparr>)) (a, k) = Inr 0"
    by (simp add: view_slot_def cached_slot_def fetch_slot_def storage_known_def apply_transition_def put_account_def
        remove_storage_def selfdestruct_def Let_def)
  moreover have "cached_slot a k (apply_transition add ts (ps\<lparr>ps_cache := ?cs\<rparr>)) = None"
    by (simp add: cached_slot_def apply_transition_def put_account_def remove_storage_def)
  ultimately show ?thesis
    by (simp add: slot_entry_def view_slot_def cached_slot_insert read)
qed

theorem stale_slot_after_destroy_witness:
  "\<exists>ps'. ps_commit sample_revm sample_status (\<lambda>_ t. t) [(7, sample_destroyed)] (snd (db_basic sample_revm 7 sample_ps)) = Some ps' \<and>
    view_slot sample_status ps' (7, 0) = Inr 0 \<and>
    view_slot sample_status (snd (slot_entry 7 0 5 ps')) (7, 0) = Inr 5"
proof -
  let ?ps = "snd (db_basic sample_revm 7 sample_ps)"
  have "?ps = sample_ps\<lparr>ps_cache := put_account 7 \<lparr>ca_account = Some sample_contract, ca_status = Loaded\<rparr> cache_state_new\<rparr>"
    by (simp add: db_basic_def sample_ps_def parallel_state_new_def cache_state_new_def sample_state_db_def
        fetched_account_def loaded_account_def cache_account_new_def account_entry_def sample_revm_def sample_contract_def)
  then have "cached_slot 7 0 ?ps = None" "fetch_slot sample_status 7 0 ?ps = Inr 5" "7 \<in> dom (ps_accounts ?ps)"
    by (simp_all add: cached_slot_def fetch_slot_def storage_known_def put_account_def cache_state_new_def sample_status_def
        sample_ps_def parallel_state_new_def sample_state_db_def)
  then show ?thesis
    using stale_slot_after_destroy [of 7 0 ?ps sample_status 5 sample_destroyed sample_revm "\<lambda>_ t. t"]
    by (auto simp: sample_destroyed_def)
qed

end
