(* ===== verification/Ordered_Commit.thy ===== *)
theory Ordered_Commit
  imports Commit_Refinement Beneficiary
begin

text \<open>
  \<open>scheduler/ordered_commit.rs\<close>: the commit of one speculative result at the committed boundary, with
  the nonce check against the committed state, the deferred beneficiary reward and the ordered
  output.
\<close>

section \<open>Data\<close>

datatype commit_outcome = Committed usize | NeedsSequentialFallback

type_synonym 'r ordered_commit_output = "'r tx_execution_outcome list"

definition output_end :: "'r ordered_commit_output \<Rightarrow> usize" where
  "output_end out = length out"

definition output_push :: "'r \<Rightarrow> 'r ordered_commit_output \<Rightarrow> usize \<times> 'r ordered_commit_output" where
  "output_push r out = (let out' = out @ [OExecuted r] in (output_end out', out'))"

record ('e, 't, 'b) ordered_committer =
  oc_beneficiary :: address
  oc_state :: "('e, 't, 'b) parallel_state"
  disable_nonce_check :: bool

definition committer_new :: "address \<Rightarrow> ('e, 't, 'b) parallel_state \<Rightarrow> bool \<Rightarrow> ('e, 't, 'b) ordered_committer" where
  "committer_new ben ps d = \<lparr>oc_beneficiary = ben, oc_state = ps, disable_nonce_check = d\<rparr>"

section \<open>Commit\<close>

definition max_nonce :: u64 where
  "max_nonce = - 1"

text \<open>\<open>info.map_or(0, |info| info.nonce)\<close>\<close>

definition expected_nonce :: "account_info option \<Rightarrow> u64" where
  "expected_nonce info = (case info of None \<Rightarrow> 0 | Some i \<Rightarrow> info_nonce i)"

text \<open>The verdict of the nonce check: an exhausted nonce and a mismatch in either direction ask for
  sequential replay.\<close>

definition nonce_rejects :: "u64 \<Rightarrow> u64 \<Rightarrow> bool" where
  "nonce_rejects nonce expect =
    (if nonce = max_nonce \<and> expect = max_nonce then True
     else if nonce > expect then True
     else if nonce < expect then True
     else False)"

text \<open>\<open>Account::from(info)\<close> with \<open>mark_touch\<close>.\<close>

definition touched_account :: "account_info \<Rightarrow> account" where
  "touched_account info =
    \<lparr>acct_info = info, is_touched = True, is_selfdestructed = False, is_created = False, acct_storage = []\<rparr>"

type_synonym ('r, 'e, 't, 'b) commit_step =
  "(('e grevm_error + commit_outcome) \<times> 'r ordered_commit_output \<times> ('e, 't, 'b) ordered_committer) option"

text \<open>The rest of \<open>commit\<close> after the nonce check.\<close>

definition commit_state ::
  "revm_ops \<Rightarrow> status_ops \<Rightarrow> ((address \<times> transition_account) list \<Rightarrow> 't \<Rightarrow> 't) \<Rightarrow> 'r \<Rightarrow> evm_state \<Rightarrow>
    'r ordered_commit_output \<Rightarrow> ('e, 't, 'b) ordered_committer \<Rightarrow> ('r, 'e, 't, 'b) commit_step" where
  "commit_state R A add r st out oc =
    do { ps \<leftarrow> ps_commit R A add st (oc_state oc);
         let (n, out') = output_push r out;
         Some (Inr (Committed n), out', oc\<lparr>oc_state := ps\<rparr>) }"

definition commit_reward ::
  "revm_ops \<Rightarrow> status_ops \<Rightarrow> ((address \<times> transition_account) list \<Rightarrow> 't \<Rightarrow> 't) \<Rightarrow> tx_id \<Rightarrow> 'r \<Rightarrow> evm_state \<Rightarrow>
    deferred_beneficiary_reward option \<Rightarrow> 'r ordered_commit_output \<Rightarrow> ('e, 't, 'b) ordered_committer \<Rightarrow>
    ('r, 'e, 't, 'b) commit_step" where
  "commit_reward R A add txid r st reward out oc =
    (case reward of
       None \<Rightarrow> commit_state R A add r st out oc
     | Some rw \<Rightarrow>
         if oc_beneficiary oc \<in> fst ` set st then None
         else case db_basic R (oc_beneficiary oc) (oc_state oc) of
           (Inl e, ps) \<Rightarrow> Some (Inl (GrevmError txid (DatabaseError e)), out, oc\<lparr>oc_state := ps\<rparr>)
         | (Inr info, ps) \<Rightarrow>
             commit_state R A add r (st @ [(oc_beneficiary oc, touched_account (apply_to R rw info))]) out
               (oc\<lparr>oc_state := ps\<rparr>))"

definition oc_commit ::
  "revm_ops \<Rightarrow> status_ops \<Rightarrow> ((address \<times> transition_account) list \<Rightarrow> 't \<Rightarrow> 't) \<Rightarrow> tx_id \<Rightarrow> tx_env \<Rightarrow>
    'r speculative_result \<Rightarrow> 'r ordered_commit_output \<Rightarrow> ('e, 't, 'b) ordered_committer \<Rightarrow> ('r, 'e, 't, 'b) commit_step" where
  "oc_commit R A add txid tx sr out oc =
    (let ((r, st), reward) = into_commit_parts sr
     in if \<not> disable_nonce_check oc then
          (case db_basic R (caller tx) (oc_state oc) of
             (Inl e, ps) \<Rightarrow> Some (Inl (GrevmError txid (DatabaseError e)), out, oc\<lparr>oc_state := ps\<rparr>)
           | (Inr info, ps) \<Rightarrow>
               if nonce_rejects (tx_nonce tx) (expected_nonce info)
               then Some (Inr NeedsSequentialFallback, out, oc\<lparr>oc_state := ps\<rparr>)
               else commit_reward R A add txid r st reward out (oc\<lparr>oc_state := ps\<rparr>))
        else commit_reward R A add txid r st reward out oc)"

section \<open>The contract on the plain world\<close>

definition world_nonce_ok :: "bool \<Rightarrow> tx_env \<Rightarrow> plain_world \<Rightarrow> bool" where
  "world_nonce_ok disabled tx w \<longleftrightarrow>
    disabled \<or> tx_nonce tx = expected_nonce (pw_basic w (caller tx)) \<and> tx_nonce tx \<noteq> max_nonce"

definition rewarded_state :: "revm_ops \<Rightarrow> address \<Rightarrow> 'r speculative_result \<Rightarrow> plain_world \<Rightarrow> evm_state" where
  "rewarded_state R ben sr w =
    sr_state sr @ (case deferred_reward sr of
        None \<Rightarrow> []
      | Some rw \<Rightarrow> [(ben, touched_account (apply_to R rw (pw_basic w ben)))])"

text \<open>A speculative result ready for commit: each account of its state was loaded, and a deferred
  reward does not accompany a beneficiary write.\<close>

definition commit_ready :: "('e, 't, 'b) ordered_committer \<Rightarrow> 'r speculative_result \<Rightarrow> bool" where
  "commit_ready oc sr \<longleftrightarrow>
    (\<forall>(a, acc) \<in> set (sr_state sr). is_touched acc \<longrightarrow> a \<in> dom (ps_accounts (oc_state oc))) \<and>
    (\<forall>(a, acc) \<in> set (sr_state sr). account_ready acc) \<and>
    (deferred_reward sr \<noteq> None \<longrightarrow> oc_beneficiary oc \<notin> fst ` set (sr_state sr))"

definition committer_ok :: "revm_ops \<Rightarrow> status_ops \<Rightarrow> ('e, 't, 'b) ordered_committer \<Rightarrow> plain_world \<Rightarrow> bool" where
  "committer_ok R A oc w \<longleftrightarrow> status_laws A \<and> db_consistent R A (ps_database (oc_state oc)) \<and>
    represents R A (oc_state oc) w \<and> cache_ok R A (oc_state oc)"

lemma nonce_rejects_iff: "nonce_rejects n e \<longleftrightarrow> n \<noteq> e \<or> n = max_nonce"
  by (auto simp: nonce_rejects_def)

lemma touched_account_ready: "account_ready (touched_account i)"
  by (simp add: account_ready_def touched_account_def)

text \<open>A load keeps the committer related to the same world.\<close>

lemma committer_load:
  assumes "committer_ok R A oc w"
  obtains ps where "db_basic R a (oc_state oc) = (Inr (pw_basic w a), ps)" and "committer_ok R A (oc\<lparr>oc_state := ps\<rparr>) w"
    and "dom (ps_accounts ps) = insert a (dom (ps_accounts (oc_state oc)))" and "ps_database ps = ps_database (oc_state oc)"
proof -
  let ?ps = "snd (db_basic R a (oc_state oc))"
  have ok: "status_laws A" "db_consistent R A (ps_database (oc_state oc))" "represents R A (oc_state oc) w"
    "cache_ok R A (oc_state oc)" using assms by (simp_all add: committer_ok_def)
  have "fst (db_basic R a (oc_state oc)) = Inr (pw_basic w a)"
    using ok(3) by (simp add: db_basic_value represents_def)
  then have "db_basic R a (oc_state oc) = (Inr (pw_basic w a), ?ps)" by (simp add: prod_eq_iff)
  then show thesis using that db_basic_represents [OF ok, of a] ok by (simp add: committer_ok_def)
qed

lemma commit_state_refines:
  assumes ok: "committer_ok R A oc w"
    and cached: "\<forall>(a, acc) \<in> set st. is_touched acc \<longrightarrow> a \<in> dom (ps_accounts (oc_state oc))"
    and ready: "\<forall>(a, acc) \<in> set st. account_ready acc"
  shows "\<exists>oc'. commit_state R A add r st out oc = Some (Inr (Committed (Suc (length out))), out @ [OExecuted r], oc') \<and>
    committer_ok R A oc' (world_apply R st w) \<and> oc_beneficiary oc' = oc_beneficiary oc \<and>
    disable_nonce_check oc' = disable_nonce_check oc"
proof -
  have hyps: "status_laws A" "db_consistent R A (ps_database (oc_state oc))" "represents R A (oc_state oc) w"
    "cache_ok R A (oc_state oc)" using ok by (simp_all add: committer_ok_def)
  obtain ts cs where "apply_evm_state R A st (ps_cache (oc_state oc)) = Some (ts, cs)"
    "represents R A (oc_state oc\<lparr>ps_cache := cs\<rparr>) (world_apply R st w)" "cache_ok R A (oc_state oc\<lparr>ps_cache := cs\<rparr>)"
    using apply_evm_state_correct [OF hyps cached ready] by blast
  then show ?thesis using hyps
    by (simp add: commit_state_def ps_commit_def apply_transition_def output_push_def output_end_def committer_ok_def)
qed

lemma commit_reward_refines:
  assumes ok: "committer_ok R A oc w" and ready: "commit_ready oc sr"
  shows "\<exists>oc'. commit_reward R A add txid (sr_result sr) (sr_state sr) (deferred_reward sr) out oc =
      Some (Inr (Committed (Suc (length out))), out @ [OExecuted (sr_result sr)], oc') \<and>
    committer_ok R A oc' (world_apply R (rewarded_state R (oc_beneficiary oc) sr w) w) \<and>
    oc_beneficiary oc' = oc_beneficiary oc \<and> disable_nonce_check oc' = disable_nonce_check oc"
proof (cases "deferred_reward sr")
  case None
  then show ?thesis using commit_state_refines [OF ok, of "sr_state sr"] ready
    by (simp add: commit_reward_def rewarded_state_def commit_ready_def)
next
  case (Some rw)
  obtain ps where ps: "db_basic R (oc_beneficiary oc) (oc_state oc) = (Inr (pw_basic w (oc_beneficiary oc)), ps)"
    "committer_ok R A (oc\<lparr>oc_state := ps\<rparr>) w"
    "dom (ps_accounts ps) = insert (oc_beneficiary oc) (dom (ps_accounts (oc_state oc)))"
    using committer_load [OF ok] by metis
  let ?st = "rewarded_state R (oc_beneficiary oc) sr w"
  have st: "?st = sr_state sr @ [(oc_beneficiary oc, touched_account (apply_to R rw (pw_basic w (oc_beneficiary oc))))]"
    by (simp add: rewarded_state_def Some)
  have cached: "\<forall>(a, acc) \<in> set ?st. is_touched acc \<longrightarrow> a \<in> dom (ps_accounts (oc_state (oc\<lparr>oc_state := ps\<rparr>)))"
    "\<forall>(a, acc) \<in> set ?st. account_ready acc"
    using ready ps(3) touched_account_ready by (auto simp: st commit_ready_def)
  show ?thesis using commit_state_refines [OF ps(2) cached] Some ready ps(1) st
    by (simp add: commit_reward_def commit_ready_def)
qed

lemma oc_commit_refines:
  assumes ok: "committer_ok R A oc w" and ready: "commit_ready oc sr"
  shows "\<exists>oc'. oc_commit R A add txid tx sr out oc =
      (if world_nonce_ok (disable_nonce_check oc) tx w
       then Some (Inr (Committed (Suc (length out))), out @ [OExecuted (sr_result sr)], oc')
       else Some (Inr NeedsSequentialFallback, out, oc')) \<and>
    committer_ok R A oc'
      (if world_nonce_ok (disable_nonce_check oc) tx w
       then world_apply R (rewarded_state R (oc_beneficiary oc) sr w) w else w) \<and>
    oc_beneficiary oc' = oc_beneficiary oc \<and> disable_nonce_check oc' = disable_nonce_check oc"
proof (cases "disable_nonce_check oc")
  case True
  then show ?thesis using commit_reward_refines [OF ok ready]
    by (simp add: oc_commit_def into_commit_parts_def world_nonce_ok_def)
next
  case False
  obtain ps where ps: "db_basic R (caller tx) (oc_state oc) = (Inr (pw_basic w (caller tx)), ps)"
    "committer_ok R A (oc\<lparr>oc_state := ps\<rparr>) w"
    "dom (ps_accounts ps) = insert (caller tx) (dom (ps_accounts (oc_state oc)))"
    using committer_load [OF ok] by metis
  have ready': "commit_ready (oc\<lparr>oc_state := ps\<rparr>) sr"
    using ready ps(3) by (auto simp: commit_ready_def)
  show ?thesis using commit_reward_refines [OF ps(2) ready'] False ps(1,2)
    by (auto simp: oc_commit_def into_commit_parts_def world_nonce_ok_def nonce_rejects_iff)
qed

section \<open>Property\<close>

definition sample_committer :: "(unit, unit, unit) ordered_committer" where
  "sample_committer = committer_new 5 sample_ps False"

definition sample_speculative :: "nat speculative_result" where
  "sample_speculative = deferred 21 [] (DeferredBeneficiaryReward 3)"

definition sample_commit_tx :: tx_env where
  "sample_commit_tx = \<lparr>caller = 7, tx_nonce = 1, tx_value = 0, kind = TxCreate\<rparr>"

text \<open>\<^bold>\<open>C15\<close>. One ordered commit is a step of the plain world. When each account of the speculative state
  was loaded and a deferred reward does not accompany a beneficiary write, the commit never panics
  and never fails; it commits exactly when the nonce check is disabled or the transaction's nonce is
  the sender's nonce in the committed world and not exhausted. A commit appends one outcome, its
  boundary is the number of outcomes, and the world is updated by the speculative state followed by
  the rewarded beneficiary; a rejected transaction changes neither world nor output.\<close>

theorem ordered_commit_correct:
  assumes "committer_ok R A oc w" and "commit_ready oc sr"
  shows "\<exists>oc'. oc_commit R A add txid tx sr out oc =
      (if world_nonce_ok (disable_nonce_check oc) tx w
       then Some (Inr (Committed (Suc (length out))), out @ [OExecuted (sr_result sr)], oc')
       else Some (Inr NeedsSequentialFallback, out, oc')) \<and>
    committer_ok R A oc'
      (if world_nonce_ok (disable_nonce_check oc) tx w
       then world_apply R (rewarded_state R (oc_beneficiary oc) sr w) w else w)"
  using oc_commit_refines [OF assms] by blast

theorem ordered_commit_correct_witness:
  "\<exists>oc'. oc_commit sample_revm sample_status (\<lambda>_ t. t) 0 sample_commit_tx sample_speculative [] sample_committer =
      Some (Inr (Committed 1), [OExecuted 21], oc')"
proof -
  have "committer_ok sample_revm sample_status sample_committer sample_plain_world"
    using sample_state by (simp add: committer_ok_def sample_committer_def committer_new_def)
  moreover have "commit_ready sample_committer sample_speculative"
    by (simp add: commit_ready_def sample_speculative_def deferred_def)
  moreover have "world_nonce_ok (disable_nonce_check sample_committer) sample_commit_tx sample_plain_world"
    by (simp add: world_nonce_ok_def sample_commit_tx_def sample_plain_world_def sample_contract_def expected_nonce_def max_nonce_def)
  ultimately show ?thesis
    using ordered_commit_correct [of sample_revm sample_status sample_committer sample_plain_world sample_speculative
        "\<lambda>_ t. t" 0 sample_commit_tx "[]"]
    by (auto simp: sample_speculative_def deferred_def)
qed

end
