(* ===== verification/Fallback.thy ===== *)
theory Fallback
  imports Ordered_Commit
begin

text \<open>
  \<open>scheduler/fallback.rs\<close>: the sequential replay of the uncommitted suffix. Running one transaction in
  the sequential EVM (the handler in immediate mode followed by \<open>finalize\<close>) is an argument
  \<open>run_tx\<close>: it returns the handler's output or error, the finalized state, and the parallel state with
  what it loaded.
\<close>

section \<open>Handler output\<close>

record 'r handler_output =
  ho_result :: 'r
  ho_deferred_reward :: "deferred_beneficiary_reward option"

definition into_speculative :: "'r handler_output \<Rightarrow> evm_state \<Rightarrow> 'r speculative_result" where
  "into_speculative ho st =
    (case ho_deferred_reward ho of
       Some reward \<Rightarrow> deferred (ho_result ho) st reward
     | None \<Rightarrow> settled (ho_result ho) st)"

text \<open>\<open>into_immediate_result\<close> panics when a reward was deferred.\<close>

definition into_immediate_result :: "'r handler_output \<Rightarrow> 'r option" where
  "into_immediate_result ho = (if ho_deferred_reward ho = None then Some (ho_result ho) else None)"

section \<open>Replay\<close>

record ('r, 'e) sequential_replay_output =
  sro_outcomes :: "'r tx_execution_outcome list"
  sro_error :: "'e grevm_error option"

text \<open>The nonce check reads through the cache; the state with the loaded account is returned.\<close>

definition reject_nonce_overflow ::
  "revm_ops \<Rightarrow> bool \<Rightarrow> tx_env \<Rightarrow> ('e, 't, 'b) parallel_state \<Rightarrow> ('e evm_error + unit) \<times> ('e, 't, 'b) parallel_state" where
  "reject_nonce_overflow R disabled tx ps =
    (if \<not> disabled \<and> tx_nonce tx = max_nonce then
       (case db_basic R (caller tx) ps of
          (Inl e, ps') \<Rightarrow> (Inl (DatabaseError e), ps')
        | (Inr info, ps') \<Rightarrow>
            if expected_nonce info = max_nonce then (Inl (TransactionError NonceOverflowInTransaction), ps')
            else (Inr (), ps'))
     else (Inr (), ps))"

type_synonym ('r, 'e, 't, 'b) run_tx =
  "tx_id \<Rightarrow> tx_env \<Rightarrow> ('e, 't, 'b) parallel_state \<Rightarrow>
    (('e evm_error + 'r handler_output) \<times> evm_state) \<times> ('e, 't, 'b) parallel_state"

definition transact ::
  "revm_ops \<Rightarrow> status_ops \<Rightarrow> ((address \<times> transition_account) list \<Rightarrow> 't \<Rightarrow> 't) \<Rightarrow> bool \<Rightarrow> ('r, 'e, 't, 'b) run_tx \<Rightarrow>
    tx_id \<Rightarrow> tx_env \<Rightarrow> ('e, 't, 'b) parallel_state \<Rightarrow> (('e evm_error + 'r) \<times> ('e, 't, 'b) parallel_state) option" where
  "transact R A add disabled run_tx txid tx ps =
    (case reject_nonce_overflow R disabled tx ps of
       (Inl e, ps1) \<Rightarrow> Some (Inl e, ps1)
     | (Inr _, ps1) \<Rightarrow>
         (case run_tx txid tx ps1 of
            ((Inl e, _), ps2) \<Rightarrow> Some (Inl e, ps2)
          | ((Inr out, st), ps2) \<Rightarrow>
              do { r \<leftarrow> into_immediate_result out;
                   ps3 \<leftarrow> ps_commit R A add st ps2;
                   Some (Inr r, ps3) }))"

text \<open>\<open>execute_sequential_suffix\<close> over \<open>start..block_size\<close>: \<open>txs\<close> is the suffix and \<open>txid\<close> its first index.
  The state is that of the closure \<open>tr\<close>; \<open>None\<close> is a panic of the closure.\<close>

fun execute_sequential_suffix ::
  "(tx_id \<Rightarrow> tx_env \<Rightarrow> 's \<Rightarrow> (('e evm_error + 'r) \<times> 's) option) \<Rightarrow> tx_id \<Rightarrow> tx_env list \<Rightarrow> 's \<Rightarrow>
    (('r, 'e) sequential_replay_output \<times> 's) option" where
  "execute_sequential_suffix tr txid [] s = Some (\<lparr>sro_outcomes = [], sro_error = None\<rparr>, s)"
| "execute_sequential_suffix tr txid (tx # rest) s =
    do { (r, s1) \<leftarrow> tr txid tx s;
         (case r of
            Inr result \<Rightarrow>
              do { (out, s2) \<leftarrow> execute_sequential_suffix tr (Suc txid) rest s1;
                   Some (out\<lparr>sro_outcomes := OExecuted result # sro_outcomes out\<rparr>, s2) }
          | Inl (TransactionError e) \<Rightarrow>
              do { (out, s2) \<leftarrow> execute_sequential_suffix tr (Suc txid) rest s1;
                   Some (out\<lparr>sro_outcomes := OSkipped e # sro_outcomes out\<rparr>, s2) }
          | Inl e \<Rightarrow> Some (\<lparr>sro_outcomes = [], sro_error = Some (GrevmError txid e)\<rparr>, s1)) }"

definition prefix_mismatch :: "usize \<Rightarrow> usize \<Rightarrow> usize \<Rightarrow> string" where
  "prefix_mismatch start result_count block_size =
    ''committed prefix mismatch: boundary='' @ show_nat start @ '', outcomes='' @ show_nat result_count @
    '', block_size='' @ show_nat block_size"

text \<open>\<open>replay_uncommitted_suffix\<close> on the outcomes recorded so far and the locked state.\<close>

definition replay_uncommitted_suffix ::
  "(tx_id \<Rightarrow> tx_env \<Rightarrow> 's \<Rightarrow> (('e evm_error + 'r) \<times> 's) option) \<Rightarrow> tx_env list \<Rightarrow> usize \<Rightarrow>
    'r tx_execution_outcome list \<Rightarrow> 's \<Rightarrow> (('e grevm_error + unit) \<times> 'r tx_execution_outcome list \<times> 's) option" where
  "replay_uncommitted_suffix tr txs start results s =
    (let block_size = length txs; result_count = length results
     in if start > block_size \<or> result_count \<noteq> start then
          Some (Inl (GrevmError (min start (block_size - 1)) (CustomError (prefix_mismatch start result_count block_size))),
            results, s)
        else if start = block_size then Some (Inr (), results, s)
        else
          do { (replay, s') \<leftarrow> execute_sequential_suffix tr start (drop start txs) s;
               Some (case sro_error replay of None \<Rightarrow> Inr () | Some e \<Rightarrow> Inl e, results @ sro_outcomes replay, s') })"

text \<open>\<open>fallback_after_parallel_error\<close> logs and replays.\<close>

definition fallback_after_parallel_error ::
  "(tx_id \<Rightarrow> tx_env \<Rightarrow> 's \<Rightarrow> (('e evm_error + 'r) \<times> 's) option) \<Rightarrow> tx_env list \<Rightarrow> usize \<Rightarrow> tx_id \<Rightarrow> string \<Rightarrow>
    'r tx_execution_outcome list \<Rightarrow> 's \<Rightarrow> (('e grevm_error + unit) \<times> 'r tx_execution_outcome list \<times> 's) option" where
  "fallback_after_parallel_error tr txs committed txid message = replay_uncommitted_suffix tr txs committed"

section \<open>Lemmas\<close>

lemma reject_nonce_overflow_cases:
  assumes "represents R A ps w" and laws: "status_laws A" "db_consistent R A (ps_database ps)" "cache_ok R A ps"
  shows "fst (reject_nonce_overflow R disabled tx ps) =
    (if \<not> disabled \<and> tx_nonce tx = max_nonce \<and> expected_nonce (pw_basic w (caller tx)) = max_nonce
     then Inl (TransactionError NonceOverflowInTransaction) else Inr ())"
proof -
  have "fst (db_basic R (caller tx) ps) = Inr (pw_basic w (caller tx))"
    using assms(1) by (simp add: db_basic_value represents_def)
  then obtain ps' where "db_basic R (caller tx) ps = (Inr (pw_basic w (caller tx)), ps')"
    by (metis prod.collapse)
  then show ?thesis by (simp add: reject_nonce_overflow_def)
qed

text \<open>How far a replay came: one outcome per completed transaction, and an error names the first one
  that is not.\<close>

definition replay_progress :: "tx_id \<Rightarrow> usize \<Rightarrow> ('r, 'e) sequential_replay_output \<Rightarrow> bool" where
  "replay_progress txid n out \<longleftrightarrow>
    (case sro_error out of
       None \<Rightarrow> length (sro_outcomes out) = n
     | Some e \<Rightarrow> ge_txid e = txid + length (sro_outcomes out) \<and> length (sro_outcomes out) < n \<and>
         (\<forall>t. ge_error e \<noteq> TransactionError t))"

lemma replay_progress_push:
  "replay_progress (Suc txid) n out \<Longrightarrow> replay_progress txid (Suc n) (out\<lparr>sro_outcomes := x # sro_outcomes out\<rparr>)"
  by (simp add: replay_progress_def split: option.splits)

lemma suffix_progress:
  "execute_sequential_suffix tr txid txs s = Some (out, s') \<Longrightarrow> replay_progress txid (length txs) out"
proof (induction txs arbitrary: txid s out s')
  case (Cons tx rest)
  show ?case using Cons.prems
    by (auto split: Option.bind_splits sum.splits evm_error.splits dest!: Cons.IH intro: replay_progress_push)
      (simp_all add: replay_progress_def split: option.splits)
qed (simp add: replay_progress_def)

text \<open>Replaying a block in two pieces is replaying it at once.\<close>

lemma suffix_append:
  "execute_sequential_suffix tr txid (xs @ ys) s =
    do { (out, s1) \<leftarrow> execute_sequential_suffix tr txid xs s;
         (case sro_error out of
            Some _ \<Rightarrow> Some (out, s1)
          | None \<Rightarrow> do { (out', s2) \<leftarrow> execute_sequential_suffix tr (txid + length xs) ys s1;
                        Some (out'\<lparr>sro_outcomes := sro_outcomes out @ sro_outcomes out'\<rparr>, s2) }) }"
proof (induction xs arbitrary: txid s)
  case Nil
  show ?case by (cases "execute_sequential_suffix tr txid ys s") auto
next
  case (Cons x xs)
  show ?case
    by (auto simp: Cons.IH split: Option.bind_splits sum.splits evm_error.splits option.splits)
qed

lemma replay_complete:
  assumes "replay_uncommitted_suffix tr txs start results s = Some (Inr (), results', s')"
  shows "length results' = length txs"
proof -
  have "start \<le> length txs" "length results = start" using assms by (auto simp: replay_uncommitted_suffix_def Let_def split: if_splits)
  then show ?thesis using assms
    by (auto simp: replay_uncommitted_suffix_def Let_def replay_progress_def bind_eq_Some_conv dest!: suffix_progress split: if_splits option.splits)
qed

text \<open>A closure for the witnesses: every even transaction executes and counts, every odd one is invalid.\<close>

definition sample_transact :: "tx_id \<Rightarrow> tx_env \<Rightarrow> nat \<Rightarrow> ((nat evm_error + nat) \<times> nat) option" where
  "sample_transact txid tx s =
    Some (if even txid then (Inr (s + txid), Suc s) else (Inl (TransactionError NonceTooLow), s))"

definition sample_tx :: tx_env where
  "sample_tx = \<lparr>caller = 1, tx_nonce = 0, tx_value = 0, kind = TxCall 2\<rparr>"

section \<open>Properties\<close>

text \<open>\<^bold>\<open>C19\<close>. A replay that starts at a boundary other than the recorded outcomes is refused and changes
  nothing. Otherwise it keeps the committed outcomes as a prefix and appends one outcome per
  completed transaction: success completes the block, and an error is never an invalid
  transaction (those are skipped) and names exactly the first transaction without an outcome.\<close>

theorem replay_extends_prefix:
  assumes "replay_uncommitted_suffix tr txs start results s = Some (r, results', s')"
  shows "if start \<le> length txs \<and> length results = start
    then take start results' = results \<and>
      (case r of
         Inr _ \<Rightarrow> length results' = length txs
       | Inl e \<Rightarrow> ge_txid e = length results' \<and> length results' < length txs \<and> (\<forall>t. ge_error e \<noteq> TransactionError t))
    else results' = results \<and> s' = s \<and> (\<exists>m. r = Inl (GrevmError (min start (length txs - 1)) (CustomError m)))"
proof (cases "start \<le> length txs \<and> length results = start")
  case False
  then show ?thesis using assms by (auto simp: replay_uncommitted_suffix_def Let_def)
next
  case True
  show ?thesis
  proof (cases "start = length txs")
    case False
    then obtain out where out: "execute_sequential_suffix tr start (drop start txs) s = Some (out, s')"
      and r: "r = (case sro_error out of None \<Rightarrow> Inr () | Some e \<Rightarrow> Inl e)" "results' = results @ sro_outcomes out"
      using assms True by (auto simp: replay_uncommitted_suffix_def Let_def split: Option.bind_splits)
    show ?thesis using suffix_progress [OF out] True
      by (auto simp: r replay_progress_def split: option.splits)
  qed (use assms True in \<open>auto simp: replay_uncommitted_suffix_def Let_def\<close>)
qed

theorem replay_extends_prefix_witness:
  "\<exists>results' s'. replay_uncommitted_suffix sample_transact [sample_tx, sample_tx, sample_tx] 1 [OExecuted 5] 0 =
      Some (Inr (), results', s') \<and> take 1 results' = [OExecuted 5] \<and> length results' = 3"
proof -
  have "replay_uncommitted_suffix sample_transact [sample_tx, sample_tx, sample_tx] 1 [OExecuted 5] 0 =
      Some (Inr (), [OExecuted 5, OSkipped NonceTooLow, OExecuted 2], 1)"
    by (simp add: replay_uncommitted_suffix_def sample_transact_def)
  then show ?thesis using replay_extends_prefix by fastforce
qed

text \<open>\<^bold>\<open>C18\<close>. Replay resumes exactly: when a prefix of the block was replayed completely, replaying the
  rest from that boundary, state and outcomes is replaying the whole block from the start.\<close>

theorem replay_resumes:
  assumes "k \<le> length txs" and "replay_uncommitted_suffix tr (take k txs) 0 [] s = Some (Inr (), results, s1)"
  shows "replay_uncommitted_suffix tr txs k results s1 = replay_uncommitted_suffix tr txs 0 [] s"
proof (cases "k = 0")
  case True
  then show ?thesis using assms by (simp add: replay_uncommitted_suffix_def)
next
  case False
  then have ne: "take k txs \<noteq> []" "txs \<noteq> []" using assms(1) by auto
  then obtain out where out: "execute_sequential_suffix tr 0 (take k txs) s = Some (out, s1)"
    and res: "results = sro_outcomes out" "sro_error out = None"
    using assms by (auto simp: replay_uncommitted_suffix_def Let_def split: Option.bind_splits option.splits)
  have len: "length results = k" using suffix_progress [OF out] res assms(1) by (simp add: replay_progress_def)
  have whole: "execute_sequential_suffix tr 0 txs s =
      do { (out', s2) \<leftarrow> execute_sequential_suffix tr k (drop k txs) s1;
           Some (out'\<lparr>sro_outcomes := results @ sro_outcomes out'\<rparr>, s2) }"
    using suffix_append [of tr 0 "take k txs" "drop k txs" s] out res assms(1) by (simp add: min_absorb2)
  show ?thesis
    using ne len assms(1) whole
    by (auto simp: replay_uncommitted_suffix_def Let_def res split: Option.bind_split)
qed

theorem replay_resumes_witness:
  "replay_uncommitted_suffix sample_transact [sample_tx, sample_tx, sample_tx] 2 [OExecuted 0, OSkipped NonceTooLow] 1 =
    replay_uncommitted_suffix sample_transact [sample_tx, sample_tx, sample_tx] 0 [] 0"
  by (rule replay_resumes) (simp_all add: replay_uncommitted_suffix_def sample_transact_def)

end
