(* ===== verification/Executor.thy ===== *)
theory Executor
  imports Validation Fallback
begin

text \<open>
  \<open>scheduler/executor.rs\<close>: one incarnation from \<open>begin_incarnation\<close> to the publication or discard of
  its accesses. What the EVM and the transaction handler do between is third-party code that reaches
  the state through the incarnation database only: a program of database requests that ends with the
  handler's output and the finalized state, or with an error.
\<close>

type_synonym ('r, 'e) tx_program = "('e evm_error + 'r handler_output \<times> evm_state) evm"

record ('r, 'e) incarnation_execution =
  ie_result :: "'e evm_error + 'r speculative_result"
  ie_accesses :: incarnation_accesses

text \<open>The value of \<open>output.map(|output| output.into_speculative(state))\<close>; a database error ends the
  program as \<open>EVMError::Database\<close>.\<close>

definition handler_result ::
  "'e + ('e evm_error + 'r handler_output \<times> evm_state) \<Rightarrow> 'e evm_error + 'r speculative_result" where
  "handler_result x =
    (case x of
       Inl e \<Rightarrow> Inl (DatabaseError e)
     | Inr (Inl err) \<Rightarrow> Inl err
     | Inr (Inr (out, st)) \<Rightarrow> Inr (into_speculative out st))"

definition execute_incarnation ::
  "revm_ops \<Rightarrow> (nat \<Rightarrow> 'e world) \<Rightarrow> (tx_id \<Rightarrow> tx_env \<Rightarrow> ('r, 'e) tx_program) \<Rightarrow> beneficiary \<Rightarrow> tx_version \<Rightarrow> tx_env \<Rightarrow>
    incarnation_db \<Rightarrow> mv_memory \<Rightarrow> (('r, 'e) incarnation_execution \<times> incarnation_db \<times> mv_memory) option" where
  "execute_incarnation R W prog b version tx db m =
    do { (x, db1) \<leftarrow> run R W (prog (v_txid version) tx) (begin_incarnation version db);
         let result = handler_result x;
         let (accesses, db2, m') =
           (case result of
              Inr sr \<Rightarrow> finish_incarnation R b (sr_state sr) db1 m
            | Inl _ \<Rightarrow> (let (acc, db2) = discard_incarnation db1 in (acc, db2, m)));
         Some (\<lparr>ie_result = result, ie_accesses = accesses\<rparr>, db2, m') }"

text \<open>A failed incarnation publishes nothing and reports no reads.\<close>

lemma execute_incarnation_error:
  assumes "execute_incarnation R W prog b v tx db m = Some (ie, db', m')" and "ie_result ie = Inl e"
  shows "m' = m \<and> ia_write_set (ie_accesses ie) = {} \<and> ia_read_set (ie_accesses ie) = []"
proof -
  obtain x db1 where "run R W (prog (v_txid v) tx) (begin_incarnation v db) = Some (x, db1)"
    using assms(1) by (auto simp: execute_incarnation_def split: Option.bind_splits)
  then show ?thesis using assms
    by (cases "handler_result x") (auto simp: execute_incarnation_def discard_incarnation_def split: prod.splits)
qed

end
