(* ===== verification/Sched_Context.thy ===== *)
theory Sched_Context
  imports Prelude
begin

text \<open>
  The lock-free bookkeeping of the scheduler: the published and the rewindable cursor of
  \<open>scheduler/cursor.rs\<close>, the execution frontier and the logical clock of
  \<open>scheduler/context.rs\<close>. The frontier is also run as a machine whose steps are the single
  atomic accesses of many threads.
\<close>

section \<open>Cursors\<close>

datatype published_cursor = PublishedCursor (cursor_get: usize)

fun cursor_publish :: "usize \<Rightarrow> published_cursor \<Rightarrow> published_cursor" where
  "cursor_publish v (PublishedCursor _) = PublishedCursor v"

datatype rewindable_cursor = RewindableCursor (rewindable_get: usize)

text \<open>\<open>fetch_min\<close>, returning the previous position.\<close>

fun cursor_rewind :: "usize \<Rightarrow> rewindable_cursor \<Rightarrow> usize \<times> rewindable_cursor" where
  "cursor_rewind v (RewindableCursor c) = (c, RewindableCursor (min c v))"

text \<open>The compare-and-swap loop of \<open>claim_before\<close> among other threads. One element of the
  environment is one iteration: the value the load sees, the value the compare-and-swap finds,
  and whether the weak exchange fails spuriously. The result is the claim, the value left in the
  cursor, and the rest of the environment; \<open>None\<close> when the environment ends first.\<close>

fun claim_before_loop ::
  "usize \<Rightarrow> (usize \<times> usize \<times> bool) list \<Rightarrow> (usize option \<times> usize \<times> (usize \<times> usize \<times> bool) list) option" where
  "claim_before_loop limit [] = None"
| "claim_before_loop limit ((current, actual, spurious) # env) =
    (if limit \<le> current then Some (None, actual, env)
     else if actual = current \<and> \<not> spurious then Some (Some current, current + 1, env)
     else claim_before_loop limit env)"

text \<open>The same operation when nothing interferes.\<close>

fun claim_before :: "usize \<Rightarrow> rewindable_cursor \<Rightarrow> usize option \<times> rewindable_cursor" where
  "claim_before limit (RewindableCursor c) =
    (if limit \<le> c then (None, RewindableCursor c) else (Some c, RewindableCursor (c + 1)))"

section \<open>Execution frontier\<close>

record execution_frontier =
  ef_executed :: "bool list"
  ef_frontier :: usize

definition frontier_new :: "usize \<Rightarrow> execution_frontier" where
  "frontier_new n = \<lparr>ef_executed = replicate n False, ef_frontier = 0\<rparr>"

text \<open>The inner loop of \<open>advance\<close>: the end of the completed run that starts at \<open>e\<close>.\<close>

function run_end :: "bool list \<Rightarrow> usize \<Rightarrow> usize" where
  "run_end xs e = (if e < length xs \<and> xs ! e then run_end xs (e + 1) else e)"
  by pat_completeness auto
termination
  by (relation "measure (\<lambda>(xs, e). length xs - e)") auto

declare run_end.simps [simp del]

lemma run_end_ge: "e \<le> run_end xs e"
  by (induction xs e rule: run_end.induct) (subst run_end.simps, auto)

lemma run_end_le: "e \<le> length xs \<Longrightarrow> run_end xs e \<le> length xs"
  by (induction xs e rule: run_end.induct) (subst run_end.simps, auto)

lemma run_end_run: "e \<le> j \<Longrightarrow> j < run_end xs e \<Longrightarrow> xs ! j"
proof (induction xs e rule: run_end.induct)
  case (1 xs e)
  then show ?case
    by (cases "e < length xs \<and> xs ! e"; cases "j = e") (auto simp: run_end.simps [of xs e])
qed

lemma run_end_gap: "run_end xs e < length xs \<Longrightarrow> \<not> xs ! run_end xs e"
proof (induction xs e rule: run_end.induct)
  case (1 xs e)
  then show ?case by (cases "e < length xs \<and> xs ! e") (auto simp: run_end.simps [of xs e])
qed

lemma run_end_stop: "run_end xs e = e \<longleftrightarrow> \<not> (e < length xs \<and> xs ! e)"
  using run_end_ge [of "e + 1" xs] by (auto simp: run_end.simps [of xs e])

function frontier_advance :: "usize \<Rightarrow> execution_frontier \<Rightarrow> execution_frontier" where
  "frontier_advance start ef =
    (let e = run_end (ef_executed ef) start
     in if e = start then ef
        else let current = ef_frontier ef; ef' = ef\<lparr>ef_frontier := max current e\<rparr>
             in frontier_advance (max current e) ef')"
  by pat_completeness auto
termination
proof (relation "measure (\<lambda>(start, ef). length (ef_executed ef) - start)", goal_cases)
  case (2 start ef e current ef')
  then have "start < length (ef_executed ef)" and "start < e"
    using run_end_stop [of "ef_executed ef" start] run_end_ge [of start "ef_executed ef"] by auto
  then show ?case using 2 by auto
qed simp

declare frontier_advance.simps [simp del]

definition frontier_publish :: "usize \<Rightarrow> execution_frontier \<Rightarrow> execution_frontier option" where
  "frontier_publish i ef =
    (if i < ef_frontier ef then Some ef
     else do { xs \<leftarrow> list_set (ef_executed ef) i True;
               let ef' = ef\<lparr>ef_executed := xs\<rparr>;
               Some (if i = ef_frontier ef' then frontier_advance (ef_frontier ef') ef' else ef') })"

definition frontier_current :: "execution_frontier \<Rightarrow> usize \<times> execution_frontier" where
  "frontier_current ef =
    (if ef_frontier ef < length (ef_executed ef) \<and> ef_executed ef ! ef_frontier ef
     then let ef' = frontier_advance (ef_frontier ef) ef in (ef_frontier ef', ef')
     else (ef_frontier ef, ef))"

section \<open>Scheduler context\<close>

record scheduler_context =
  ctx_num_txs :: usize
  ctx_validation :: rewindable_cursor
  ctx_finality :: published_cursor
  ctx_committed :: published_cursor
  ctx_frontier :: execution_frontier
  ctx_validation_resets :: usize
  ctx_clock :: usize
  lower_timestamps :: "usize list"
  unconfirmed_timestamps :: "usize list"

definition context_new :: "usize \<Rightarrow> scheduler_context" where
  "context_new n = \<lparr>ctx_num_txs = n, ctx_validation = RewindableCursor 0, ctx_finality = PublishedCursor 0,
     ctx_committed = PublishedCursor 0, ctx_frontier = frontier_new n, ctx_validation_resets = 0, ctx_clock = 1,
     lower_timestamps = replicate n 0, unconfirmed_timestamps = replicate n 0\<rparr>"

definition logical_timestamp :: "scheduler_context \<Rightarrow> usize \<times> scheduler_context" where
  "logical_timestamp c = (ctx_clock c, c\<lparr>ctx_clock := ctx_clock c + 1\<rparr>)"

definition rewind_validation_to :: "usize \<Rightarrow> scheduler_context \<Rightarrow> scheduler_context option" where
  "rewind_validation_to i c =
    (if ctx_num_txs c \<le> i then Some c
     else
       let (ts, c1) = logical_timestamp c
       in do { old \<leftarrow> list_get (lower_timestamps c1) i;
               let c2 = c1\<lparr>lower_timestamps := (lower_timestamps c1)[i := max old ts]\<rparr>;
               let (previous, v) = cursor_rewind i (ctx_validation c2);
               let c3 = c2\<lparr>ctx_validation := v\<rparr>;
               Some (if i < previous then c3\<lparr>ctx_validation_resets := ctx_validation_resets c3 + 1\<rparr> else c3) })"

definition context_executed :: "usize \<Rightarrow> scheduler_context \<Rightarrow> scheduler_context option" where
  "context_executed i c = map_option (\<lambda>ef. c\<lparr>ctx_frontier := ef\<rparr>) (frontier_publish i (ctx_frontier c))"

definition context_unconfirmed :: "usize \<Rightarrow> usize \<Rightarrow> scheduler_context \<Rightarrow> scheduler_context option" where
  "context_unconfirmed i ts c =
    do { old \<leftarrow> list_get (unconfirmed_timestamps c) i;
         Some (c\<lparr>unconfirmed_timestamps := (unconfirmed_timestamps c)[i := max old ts]\<rparr>) }"

definition finality_idx :: "scheduler_context \<Rightarrow> usize" where
  "finality_idx c = cursor_get (ctx_finality c)"

definition publish_finality :: "usize \<Rightarrow> scheduler_context \<Rightarrow> scheduler_context" where
  "publish_finality i c = c\<lparr>ctx_finality := cursor_publish i (ctx_finality c)\<rparr>"

definition committed_idx :: "scheduler_context \<Rightarrow> usize" where
  "committed_idx c = cursor_get (ctx_committed c)"

definition publish_commit :: "usize \<Rightarrow> scheduler_context \<Rightarrow> scheduler_context" where
  "publish_commit i c = c\<lparr>ctx_committed := cursor_publish i (ctx_committed c)\<rparr>"

definition validation_idx :: "scheduler_context \<Rightarrow> usize" where
  "validation_idx c = rewindable_get (ctx_validation c)"

definition finished :: "scheduler_context \<Rightarrow> bool" where
  "finished c \<longleftrightarrow> ctx_num_txs c \<le> finality_idx c"

definition lower_timestamp :: "usize \<Rightarrow> scheduler_context \<Rightarrow> usize option" where
  "lower_timestamp i c = list_get (lower_timestamps c) i"

definition unconfirmed_timestamp :: "usize \<Rightarrow> scheduler_context \<Rightarrow> usize option" where
  "unconfirmed_timestamp i c = list_get (unconfirmed_timestamps c) i"

definition should_schedule :: "usize \<Rightarrow> scheduler_context \<Rightarrow> bool \<times> scheduler_context" where
  "should_schedule executing_idx c =
    (let v = validation_idx c
     in if v < executing_idx
        then let (f, ef) = frontier_current (ctx_frontier c)
             in (v < f \<or> executing_idx < ctx_num_txs c, c\<lparr>ctx_frontier := ef\<rparr>)
        else (executing_idx < ctx_num_txs c, c))"

definition next_validation_idx :: "usize \<Rightarrow> scheduler_context \<Rightarrow> usize option \<times> scheduler_context" where
  "next_validation_idx executing_idx c =
    (let (f, ef) = frontier_current (ctx_frontier c);
         (r, v) = claim_before (min executing_idx f) (ctx_validation c)
     in (r, c\<lparr>ctx_frontier := ef, ctx_validation := v\<rparr>))"

section \<open>The frontier is the first gap\<close>

text \<open>The first transaction without an initial execution.\<close>

definition first_gap :: "bool list \<Rightarrow> usize" where
  "first_gap xs = run_end xs 0"

definition frontier_wf :: "execution_frontier \<Rightarrow> bool" where
  "frontier_wf ef \<longleftrightarrow> ef_frontier ef \<le> length (ef_executed ef) \<and> (\<forall>j<ef_frontier ef. ef_executed ef ! j)"

lemma first_gap_eqI:
  assumes "\<And>j. j < f \<Longrightarrow> xs ! j" and "f \<le> length xs" and "\<not> (f < length xs \<and> xs ! f)"
  shows "first_gap xs = f"
proof -
  have "\<not> first_gap xs < f"
    using assms(1,2) run_end_gap [of xs 0] by (auto simp: first_gap_def)
  moreover have "\<not> f < first_gap xs"
    using assms(3) run_end_run [of 0 f xs] run_end_le [of 0 xs] by (auto simp: first_gap_def)
  ultimately show ?thesis by simp
qed

lemma first_gap_ge: "(\<And>j. j < f \<Longrightarrow> xs ! j) \<Longrightarrow> f \<le> length xs \<Longrightarrow> f \<le> first_gap xs"
  using run_end_gap [of xs 0] by (auto simp: first_gap_def not_less [symmetric])

lemma frontier_advance_wf:
  assumes "frontier_wf ef"
  shows "frontier_advance (ef_frontier ef) ef = ef\<lparr>ef_frontier := first_gap (ef_executed ef)\<rparr>"
proof -
  let ?xs = "ef_executed ef" and ?f = "ef_frontier ef"
  let ?e = "run_end ?xs ?f"
  have below: "?xs ! j" if "j < ?e" for j
    using that assms run_end_run [of ?f j ?xs] by (cases "j < ?f") (auto simp: frontier_wf_def)
  have gap: "\<not> (?e < length ?xs \<and> ?xs ! ?e)" using run_end_gap by blast
  have first: "first_gap ?xs = ?e"
    using below gap run_end_le [of ?f ?xs] assms by (intro first_gap_eqI) (auto simp: frontier_wf_def)
  show ?thesis
  proof (cases "?e = ?f")
    case True
    then show ?thesis using first by (subst frontier_advance.simps) simp
  next
    case False
    have m: "max ?f ?e = ?e" using run_end_ge [of ?f ?xs] by simp
    have "frontier_advance ?f ef = frontier_advance ?e (ef\<lparr>ef_frontier := ?e\<rparr>)"
      using False m by (subst frontier_advance.simps) (simp add: Let_def)
    also have "\<dots> = ef\<lparr>ef_frontier := ?e\<rparr>"
      using gap run_end_stop [of ?xs ?e] by (subst frontier_advance.simps) simp
    finally show ?thesis using first by simp
  qed
qed

subsection \<open>Many threads\<close>

text \<open>Where a thread stands: before and after it stores its completion flag, in the scan of
  \<open>advance\<close> (from \<open>start\<close>, having reached \<open>end\<close>), and before the \<open>fetch_max\<close>. A reader that helps
  enters the scan at a frontier it loaded earlier.\<close>

datatype frontier_pc = PIdle | PStore usize | PStored usize | PScan usize usize | PMax usize usize

record frontier_sys =
  fs_ef :: execution_frontier
  fs_pc :: "nat \<Rightarrow> frontier_pc"

definition frontier_sys_new :: "usize \<Rightarrow> frontier_sys" where
  "frontier_sys_new n = \<lparr>fs_ef = frontier_new n, fs_pc = (\<lambda>_. PIdle)\<rparr>"

inductive frontier_step :: "frontier_sys \<Rightarrow> frontier_sys \<Rightarrow> bool" where
  publish_load: "fs_pc s k = PIdle \<Longrightarrow> i < length (ef_executed (fs_ef s)) \<Longrightarrow> ef_frontier (fs_ef s) \<le> i \<Longrightarrow>
    frontier_step s (s\<lparr>fs_pc := (fs_pc s)(k := PStore i)\<rparr>)"
| publish_store: "fs_pc s k = PStore i \<Longrightarrow> list_set (ef_executed (fs_ef s)) i True = Some xs \<Longrightarrow>
    frontier_step s (s\<lparr>fs_ef := (fs_ef s)\<lparr>ef_executed := xs\<rparr>, fs_pc := (fs_pc s)(k := PStored i)\<rparr>)"
| publish_reload: "fs_pc s k = PStored i \<Longrightarrow>
    frontier_step s (s\<lparr>fs_pc := (fs_pc s)(k :=
      if i = ef_frontier (fs_ef s) then PScan i i else PIdle)\<rparr>)"
| reader_help: "fs_pc s k = PIdle \<Longrightarrow> f \<le> ef_frontier (fs_ef s) \<Longrightarrow>
    frontier_step s (s\<lparr>fs_pc := (fs_pc s)(k := PScan f f)\<rparr>)"
| scan_next: "fs_pc s k = PScan st e \<Longrightarrow> e < length (ef_executed (fs_ef s)) \<Longrightarrow> ef_executed (fs_ef s) ! e \<Longrightarrow>
    frontier_step s (s\<lparr>fs_pc := (fs_pc s)(k := PScan st (e + 1))\<rparr>)"
| scan_stop: "fs_pc s k = PScan st e \<Longrightarrow> \<not> (e < length (ef_executed (fs_ef s)) \<and> ef_executed (fs_ef s) ! e) \<Longrightarrow>
    frontier_step s (s\<lparr>fs_pc := (fs_pc s)(k := if e = st then PIdle else PMax st e)\<rparr>)"
| advance_max: "fs_pc s k = PMax st e \<Longrightarrow> m = max (ef_frontier (fs_ef s)) e \<Longrightarrow>
    frontier_step s (s\<lparr>fs_ef := (fs_ef s)\<lparr>ef_frontier := m\<rparr>, fs_pc := (fs_pc s)(k := PScan m m)\<rparr>)"

text \<open>What a thread may rely on, and which threads will carry the frontier beyond \<open>f\<close>.\<close>

fun pc_ok :: "execution_frontier \<Rightarrow> frontier_pc \<Rightarrow> bool" where
  "pc_ok ef (PScan st e) \<longleftrightarrow> st \<le> ef_frontier ef \<and> st \<le> e \<and> e \<le> length (ef_executed ef) \<and> (\<forall>j<e. ef_executed ef ! j)"
| "pc_ok ef (PMax st e) \<longleftrightarrow> e \<le> length (ef_executed ef) \<and> (\<forall>j<e. ef_executed ef ! j)"
| "pc_ok ef _ \<longleftrightarrow> True"

fun carries :: "usize \<Rightarrow> frontier_pc \<Rightarrow> bool" where
  "carries f (PStored i) \<longleftrightarrow> i = f"
| "carries f (PScan st e) \<longleftrightarrow> True"
| "carries f (PMax st e) \<longleftrightarrow> f < e"
| "carries f _ \<longleftrightarrow> False"

definition frontier_inv :: "frontier_sys \<Rightarrow> bool" where
  "frontier_inv s \<longleftrightarrow> frontier_wf (fs_ef s) \<and> (\<forall>k. pc_ok (fs_ef s) (fs_pc s k)) \<and>
    (let f = ef_frontier (fs_ef s); xs = ef_executed (fs_ef s)
     in f < length xs \<and> xs ! f \<longrightarrow> (\<exists>k. carries f (fs_pc s k)))"

lemma pc_ok_mono:
  assumes "pc_ok ef pc" and "ef_frontier ef \<le> ef_frontier ef'" and "length (ef_executed ef') = length (ef_executed ef)"
    and "\<And>j. ef_executed ef ! j \<Longrightarrow> ef_executed ef' ! j"
  shows "pc_ok ef' pc"
  using assms by (cases pc) auto

lemma frontier_inv_step:
  assumes "frontier_step s s'" and "frontier_inv s"
  shows "frontier_inv s'"
proof -
  let ?f = "ef_frontier (fs_ef s)" and ?xs = "ef_executed (fs_ef s)"
  have wf: "frontier_wf (fs_ef s)" and ok: "\<And>k. pc_ok (fs_ef s) (fs_pc s k)"
    and carried: "?f < length ?xs \<Longrightarrow> ?xs ! ?f \<Longrightarrow> \<exists>k. carries ?f (fs_pc s k)"
    using assms(2) by (auto simp: frontier_inv_def Let_def)
  show ?thesis
    using assms(1)
  proof (cases rule: frontier_step.cases)
    case (publish_load k i)
    moreover have "carries ?f (fs_pc s k') \<Longrightarrow> k' \<noteq> k" for k' using publish_load(2) by auto
    ultimately show ?thesis using wf ok carried by (force simp: frontier_inv_def Let_def)
  next
    case (publish_store k i xs)
    then have xs: "xs = ?xs[i := True]" "i < length ?xs" by (auto simp: list_set_def split: if_splits)
    have keep: "\<And>j. ?xs ! j \<Longrightarrow> xs ! j" using xs by (simp add: nth_list_update)
    have "\<exists>k'. carries ?f (((fs_pc s)(k := PStored i)) k')" if gap: "?f < length xs" "xs ! ?f"
    proof (cases "i = ?f")
      case True
      then show ?thesis by (intro exI [of _ k]) simp
    next
      case False
      then obtain k' where "carries ?f (fs_pc s k')" using carried gap xs by auto
      moreover have "k' \<noteq> k" using calculation publish_store(2) by auto
      ultimately show ?thesis by (intro exI [of _ k']) simp
    qed
    moreover have "pc_ok ((fs_ef s)\<lparr>ef_executed := xs\<rparr>) (((fs_pc s)(k := PStored i)) k')" for k'
      using pc_ok_mono [OF ok [of k'], of "(fs_ef s)\<lparr>ef_executed := xs\<rparr>"] xs keep by simp
    moreover have "frontier_wf ((fs_ef s)\<lparr>ef_executed := xs\<rparr>)"
      using wf xs keep by (simp add: frontier_wf_def)
    ultimately show ?thesis using publish_store(1) by (simp add: frontier_inv_def Let_def)
  next
    case (publish_reload k i)
    have "carries ?f (fs_pc s k') \<Longrightarrow> i \<noteq> ?f \<Longrightarrow> k' \<noteq> k" for k' using publish_reload(2) by auto
    then show ?thesis
      using publish_reload wf ok carried by (force simp: frontier_inv_def frontier_wf_def Let_def)
  next
    case (reader_help k f)
    then show ?thesis using wf ok by (auto simp: frontier_inv_def frontier_wf_def Let_def)
  next
    case (scan_next k st e)
    then show ?thesis
      using wf ok ok [of k] by (auto simp: frontier_inv_def Let_def less_Suc_eq)
  next
    case (scan_stop k st e)
    have pos: "?f < e" if "?f < length ?xs" "?xs ! ?f"
      using scan_stop(3) that wf ok [of k] scan_stop(2) by (cases e ?f rule: linorder_cases) (auto simp: frontier_wf_def)
    have "e \<noteq> st" if "?f < length ?xs" "?xs ! ?f"
      using pos [OF that] ok [of k] scan_stop(2) by auto
    then have "\<exists>k'. carries ?f (((fs_pc s)(k := if e = st then PIdle else PMax st e)) k')"
      if "?f < length ?xs" "?xs ! ?f"
      using pos that by (intro exI [of _ k]) simp
    then show ?thesis
      using scan_stop(1,2) wf ok ok [of k] by (auto simp: frontier_inv_def Let_def)
  next
    case (advance_max k st e m)
    let ?ef = "(fs_ef s)\<lparr>ef_frontier := m\<rparr>"
    have e: "e \<le> length ?xs" "\<forall>j<e. ?xs ! j" using ok [of k] advance_max(2) by auto
    have m: "m \<le> length ?xs" "\<forall>j<m. ?xs ! j" "?f \<le> m"
      using wf e advance_max(3) by (auto simp: frontier_wf_def max_def)
    have "pc_ok ?ef (((fs_pc s)(k := PScan m m)) k')" for k'
      using pc_ok_mono [OF ok [of k'], of ?ef] m by simp
    moreover have "\<exists>k'. carries m (((fs_pc s)(k := PScan m m)) k')"
      by (intro exI [of _ k]) simp
    ultimately show ?thesis
      using advance_max(1) m by (simp add: frontier_inv_def frontier_wf_def Let_def)
  qed
qed

lemma frontier_reachable_inv: "frontier_step\<^sup>*\<^sup>* (frontier_sys_new n) s \<Longrightarrow> frontier_inv s"
proof (induction rule: rtranclp_induct)
  case base
  show ?case by (simp add: frontier_inv_def frontier_wf_def frontier_sys_new_def frontier_new_def Let_def)
next
  case (step y z)
  then show ?case using frontier_inv_step by blast
qed

section \<open>Timestamps\<close>

text \<open>Every timestamp in the context was issued by its clock, so a new one is newer than all of
  them.\<close>

definition context_wf :: "scheduler_context \<Rightarrow> bool" where
  "context_wf c \<longleftrightarrow> length (lower_timestamps c) = ctx_num_txs c \<and> length (unconfirmed_timestamps c) = ctx_num_txs c \<and>
    length (ef_executed (ctx_frontier c)) = ctx_num_txs c \<and> frontier_wf (ctx_frontier c) \<and>
    (\<forall>x\<in>set (lower_timestamps c) \<union> set (unconfirmed_timestamps c). x < ctx_clock c)"

lemma context_new_wf [grevm_wf]: "context_wf (context_new n)"
  by (auto simp: context_wf_def context_new_def frontier_new_def frontier_wf_def)

lemma rewind_validation_to_eq:
  assumes "i < ctx_num_txs c" and "context_wf c"
  shows "rewind_validation_to i c =
    Some (c\<lparr>ctx_clock := ctx_clock c + 1, lower_timestamps := (lower_timestamps c)[i := ctx_clock c],
      ctx_validation := RewindableCursor (min (validation_idx c) i),
      ctx_validation_resets := ctx_validation_resets c + (if i < validation_idx c then 1 else 0)\<rparr>)"
proof -
  have l: "i < length (lower_timestamps c)" and m: "max (lower_timestamps c ! i) (ctx_clock c) = ctx_clock c"
    using assms nth_mem [of i "lower_timestamps c"] by (auto simp: context_wf_def max_def less_imp_le)
  obtain v where v: "ctx_validation c = RewindableCursor v" by (cases "ctx_validation c")
  show ?thesis
    using assms(1) l m v
    by (simp add: rewind_validation_to_def logical_timestamp_def validation_idx_def Let_def)
qed

lemma rewind_validation_to_wf [grevm_wf]:
  assumes "context_wf c" and "rewind_validation_to i c = Some c'"
  shows "context_wf c'"
proof (cases "i < ctx_num_txs c")
  case True
  note eq = rewind_validation_to_eq [OF True assms(1)]
  show ?thesis
    using assms eq by (auto simp: context_wf_def less_Suc_eq dest!: set_update_subset_insert [THEN subsetD])
next
  case False
  then show ?thesis using assms by (simp add: rewind_validation_to_def)
qed

lemma logical_timestamp_wf [grevm_wf]: "context_wf c \<Longrightarrow> logical_timestamp c = (ts, c') \<Longrightarrow> context_wf c'"
  by (auto simp: context_wf_def logical_timestamp_def less_Suc_eq)

lemma context_unconfirmed_wf [grevm_wf]:
  "context_wf c \<Longrightarrow> ts < ctx_clock c \<Longrightarrow> context_unconfirmed i ts c = Some c' \<Longrightarrow> context_wf c'"
  by (auto simp: context_wf_def context_unconfirmed_def list_get_def max_def split: if_splits
      dest!: set_update_subset_insert [THEN subsetD])

lemma frontier_publish_eq:
  assumes "frontier_wf ef" and "i < length (ef_executed ef)"
  shows "\<exists>f. frontier_publish i ef = Some \<lparr>ef_executed = (ef_executed ef)[i := True], ef_frontier = f\<rparr> \<and>
    ef_frontier ef \<le> f \<and> frontier_wf \<lparr>ef_executed = (ef_executed ef)[i := True], ef_frontier = f\<rparr> \<and>
    (ef_frontier ef = first_gap (ef_executed ef) \<longrightarrow> f = first_gap ((ef_executed ef)[i := True]))"
proof -
  let ?xs = "(ef_executed ef)[i := True]" and ?f = "ef_frontier ef"
  have below: "\<forall>j<?f. ?xs ! j" "?f \<le> length ?xs"
    using assms by (auto simp: frontier_wf_def nth_update_total)
  consider "i < ?f" | "i = ?f" | "?f < i" by linarith
  then show ?thesis
  proof cases
    case 1
    then have "?xs = ef_executed ef"
      using assms(1) by (intro nth_equalityI) (auto simp: frontier_wf_def nth_update_total)
    then show ?thesis using 1 assms(1) by (cases ef) (auto simp: frontier_publish_def)
  next
    case 2
    let ?ef = "ef\<lparr>ef_executed := ?xs\<rparr>"
    have wf: "frontier_wf ?ef" using below by (simp add: frontier_wf_def)
    have g: "?f \<le> first_gap ?xs" "first_gap ?xs \<le> length ?xs" "\<forall>j<first_gap ?xs. ?xs ! j"
      using first_gap_ge below run_end_le [of 0 ?xs] run_end_run [of 0 _ ?xs] by (auto simp: first_gap_def)
    then show ?thesis
      using 2 assms(2) frontier_advance_wf [OF wf]
      by (cases ef) (auto simp: frontier_publish_def frontier_wf_def)
  next
    case 3
    have "first_gap ?xs = ?f" if "?f = first_gap (ef_executed ef)"
      using that below 3 run_end_gap [of "ef_executed ef" 0]
      by (intro first_gap_eqI) (auto simp: first_gap_def)
    then show ?thesis
      using 3 assms below by (cases ef) (auto simp: frontier_publish_def frontier_wf_def)
  qed
qed

lemma context_executed_wf [grevm_wf]:
  assumes "context_wf c" and "context_executed i c = Some c'"
  shows "context_wf c'"
proof -
  have "i < length (ef_executed (ctx_frontier c))"
    using assms by (auto simp: context_executed_def frontier_publish_def context_wf_def frontier_wf_def list_set_def
        split: if_splits)
  then show ?thesis
    using assms frontier_publish_eq [of "ctx_frontier c" i]
    by (auto simp: context_wf_def context_executed_def)
qed

lemma frontier_current_wf:
  assumes "frontier_wf ef" and "frontier_current ef = (f, ef')"
  shows "frontier_wf ef' \<and> ef_executed ef' = ef_executed ef"
proof -
  have "first_gap (ef_executed ef) \<le> length (ef_executed ef)" "\<forall>j<first_gap (ef_executed ef). ef_executed ef ! j"
    using run_end_le [of 0 "ef_executed ef"] run_end_run [of 0 _ "ef_executed ef"] by (auto simp: first_gap_def)
  then show ?thesis
    using assms by (auto simp: frontier_current_def frontier_advance_wf frontier_wf_def Let_def split: if_splits)
qed

lemma context_frontier_wf:
  assumes "context_wf c" and "frontier_current (ctx_frontier c) = (f, ef)"
  shows "context_wf (c\<lparr>ctx_frontier := ef\<rparr>)"
  using assms frontier_current_wf [of "ctx_frontier c" f ef] by (auto simp: context_wf_def)

section \<open>Properties\<close>

text \<open>\<^bold>\<open>C10\<close>. The execution frontier under concurrent publishers and readers: it never passes a
  transaction that has not executed, and once no thread is inside an operation it is exactly the
  first such transaction, so no completion is stranded behind it.\<close>

theorem frontier_is_first_gap:
  assumes "frontier_step\<^sup>*\<^sup>* (frontier_sys_new n) s"
  shows "ef_frontier (fs_ef s) \<le> first_gap (ef_executed (fs_ef s)) \<and>
    ((\<forall>k. fs_pc s k = PIdle) \<longrightarrow> ef_frontier (fs_ef s) = first_gap (ef_executed (fs_ef s)))"
proof -
  have inv: "frontier_inv s" using frontier_reachable_inv [OF assms] .
  then have "ef_frontier (fs_ef s) = first_gap (ef_executed (fs_ef s))" if "\<forall>k. fs_pc s k = PIdle"
    using that by (intro first_gap_eqI [symmetric]) (auto simp: frontier_inv_def frontier_wf_def Let_def)
  then show ?thesis
    using inv first_gap_ge by (auto simp: frontier_inv_def frontier_wf_def)
qed

definition sample_frontier :: "usize \<Rightarrow> bool list \<Rightarrow> frontier_pc \<Rightarrow> frontier_sys" where
  "sample_frontier f xs pc = \<lparr>fs_ef = \<lparr>ef_executed = xs, ef_frontier = f\<rparr>, fs_pc = (\<lambda>_. PIdle)(0 := pc)\<rparr>"

lemma sample_frontier_steps:
  "frontier_step\<^sup>*\<^sup>* (frontier_sys_new 2) (sample_frontier 1 [True, False] PIdle)"
proof -
  let ?S = sample_frontier
  have 0: "frontier_sys_new 2 = ?S 0 [False, False] PIdle"
    by (simp add: frontier_sys_new_def frontier_new_def sample_frontier_def numeral_2_eq_2 fun_eq_iff)
  have 1: "frontier_step (?S 0 [False, False] PIdle) (?S 0 [False, False] (PStore 0))"
    using frontier_step.publish_load [of "?S 0 [False, False] PIdle" 0 0] by (simp add: sample_frontier_def)
  have 2: "frontier_step (?S 0 [False, False] (PStore 0)) (?S 0 [True, False] (PStored 0))"
    using frontier_step.publish_store [of "?S 0 [False, False] (PStore 0)" 0 0] by (simp add: sample_frontier_def)
  have 3: "frontier_step (?S 0 [True, False] (PStored 0)) (?S 0 [True, False] (PScan 0 0))"
    using frontier_step.publish_reload [of "?S 0 [True, False] (PStored 0)" 0 0] by (simp add: sample_frontier_def)
  have 4: "frontier_step (?S 0 [True, False] (PScan 0 0)) (?S 0 [True, False] (PScan 0 1))"
    using frontier_step.scan_next [of "?S 0 [True, False] (PScan 0 0)" 0 0 0] by (simp add: sample_frontier_def)
  have 5: "frontier_step (?S 0 [True, False] (PScan 0 1)) (?S 0 [True, False] (PMax 0 1))"
    using frontier_step.scan_stop [of "?S 0 [True, False] (PScan 0 1)" 0 0 1] by (simp add: sample_frontier_def)
  have 6: "frontier_step (?S 0 [True, False] (PMax 0 1)) (?S 1 [True, False] (PScan 1 1))"
    using frontier_step.advance_max [of "?S 0 [True, False] (PMax 0 1)" 0 0 1 1] by (simp add: sample_frontier_def)
  have 7: "frontier_step (?S 1 [True, False] (PScan 1 1)) (?S 1 [True, False] PIdle)"
    using frontier_step.scan_stop [of "?S 1 [True, False] (PScan 1 1)" 0 1 1] by (simp add: sample_frontier_def)
  note step = converse_rtranclp_into_rtranclp [of frontier_step]
  show ?thesis
    unfolding 0
    by (rule step [OF 1] step [OF 2] step [OF 3] step [OF 4] step [OF 5] step [OF 6] step [OF 7]
        rtranclp.rtrancl_refl)+
qed

theorem frontier_is_first_gap_witness: "first_gap [True, False] = 1"
  using frontier_is_first_gap [OF sample_frontier_steps] by (simp add: sample_frontier_def)

end
