(* ===== verification/Tx_Dependency.thy ===== *)
theory Tx_Dependency
  imports Prelude
begin

text \<open>
  The advisory dependency graph of \<open>tx_dependency.rs\<close>: which transaction a worker may claim
  next, which one waits for which, and how a finished predecessor releases its dependents. The
  first section has the operations; the second runs them as interleaved critical sections of
  many workers and the commit thread; the third has the invariants of every reachable state.
\<close>

section \<open>Operations\<close>

record dependent_state =
  onboard :: bool
  blocker :: "tx_id option"

definition dependent_state_default :: dependent_state where
  "dependent_state_default = \<lparr>onboard = True, blocker = None\<rparr>"

text \<open>A hash set of reverse edges is a duplicate-free list; the order in which \<open>remove\<close> visits
  it is the list's order.\<close>

record tx_dependency =
  td_num_txs :: usize
  dependent_states :: "dependent_state list"
  affect_txs :: "tx_id list list"
  td_index :: usize

definition tx_dependency_new :: "usize \<Rightarrow> tx_dependency" where
  "tx_dependency_new n =
    \<lparr>td_num_txs = n, dependent_states = replicate n dependent_state_default,
     affect_txs = replicate n [], td_index = 0\<rparr>"

text \<open>\<open>index.fetch_min\<close> and an update of one locked state.\<close>

definition index_fetch_min :: "usize \<Rightarrow> tx_dependency \<Rightarrow> tx_dependency" where
  "index_fetch_min i td = td\<lparr>td_index := min (td_index td) i\<rparr>"

definition set_state :: "tx_id \<Rightarrow> dependent_state \<Rightarrow> tx_dependency \<Rightarrow> tx_dependency" where
  "set_state t st td = td\<lparr>dependent_states := (dependent_states td)[t := st]\<rparr>"

text \<open>The two halves of \<open>next\<close>: the cursor's \<open>fetch_add\<close>, and the claim under the state lock.\<close>

definition td_fetch_add :: "tx_dependency \<Rightarrow> usize \<times> tx_dependency" where
  "td_fetch_add td = (td_index td, td\<lparr>td_index := td_index td + 1\<rparr>)"

definition td_take :: "tx_id \<Rightarrow> tx_dependency \<Rightarrow> (tx_id option \<times> tx_dependency) option" where
  "td_take i td =
    do { st \<leftarrow> list_get (dependent_states td) i;
         if onboard st \<and> blocker st = None
         then Some (Some i, set_state i (st\<lparr>onboard := False\<rparr>) td)
         else Some (None, td) }"

definition td_next :: "tx_dependency \<Rightarrow> (tx_id option \<times> tx_dependency) option" where
  "td_next td =
    (if td_num_txs td \<le> td_index td then Some (None, td)
     else let (i, td') = td_fetch_add td
          in if td_num_txs td' \<le> i then Some (None, td') else td_take i td')"

text \<open>One iteration of \<open>remove\<close>'s loop over the reverse edges, the loop, and the operation.\<close>

definition remove_one ::
  "tx_id \<Rightarrow> bool \<Rightarrow> tx_id \<Rightarrow> tx_dependency \<Rightarrow> (tx_id option \<times> tx_dependency) option" where
  "remove_one txid pop_next tx td =
    do { st \<leftarrow> list_get (dependent_states td) tx;
         if blocker st = Some txid then
           (let st1 = st\<lparr>blocker := None\<rparr>
            in if onboard st1 then
                 if pop_next \<and> tx = txid + 1 \<and> tx < td_index td
                 then Some (Some tx, set_state tx (st1\<lparr>onboard := False\<rparr>) td)
                 else Some (None, index_fetch_min tx (set_state tx st1 td))
               else Some (None, set_state tx st1 td))
         else Some (None, td) }"

fun remove_loop ::
  "tx_id \<Rightarrow> bool \<Rightarrow> tx_id list \<Rightarrow> tx_id option \<Rightarrow> tx_dependency \<Rightarrow> (tx_id option \<times> tx_dependency) option" where
  "remove_loop txid pop_next [] nxt td = Some (nxt, td)"
| "remove_loop txid pop_next (tx # txs) nxt td =
    do { (r, td') \<leftarrow> remove_one txid pop_next tx td;
         remove_loop txid pop_next txs (if r = None then nxt else r) td' }"

definition clear_affects :: "tx_id \<Rightarrow> tx_dependency \<Rightarrow> tx_dependency" where
  "clear_affects txid td = td\<lparr>affect_txs := (affect_txs td)[txid := []]\<rparr>"

definition td_remove :: "tx_id \<Rightarrow> bool \<Rightarrow> tx_dependency \<Rightarrow> (tx_id option \<times> tx_dependency) option" where
  "td_remove txid pop_next td =
    do { affects \<leftarrow> list_get (affect_txs td) txid;
         if affects = [] then Some (None, td)
         else do { (nxt, td') \<leftarrow> remove_loop txid pop_next affects None td;
                   Some (nxt, clear_affects txid td') } }"

definition td_commit :: "tx_id \<Rightarrow> tx_dependency \<Rightarrow> tx_dependency option" where
  "td_commit txid td =
    (let nxt = txid + 1
     in if nxt < td_num_txs td then
          do { st \<leftarrow> list_get (dependent_states td) nxt;
               if onboard st
               then Some (index_fetch_min nxt (set_state nxt (st\<lparr>blocker := None\<rparr>) td))
               else Some td }
        else Some td)"

definition td_key_tx :: "tx_id \<Rightarrow> usize \<Rightarrow> tx_dependency \<Rightarrow> tx_dependency option" where
  "td_key_tx txid commit_idx td =
    do { st \<leftarrow> list_get (dependent_states td) txid;
         let st1 = (if commit_idx < txid then st\<lparr>blocker := Some txid\<rparr> else st);
         let st2 = st1\<lparr>onboard := True\<rparr>;
         let td' = set_state txid st2 td;
         Some (if blocker st2 = None then index_fetch_min txid td' else td') }"

definition td_add :: "tx_id \<Rightarrow> tx_id option \<Rightarrow> tx_dependency \<Rightarrow> tx_dependency option" where
  "td_add txid dep td =
    (case dep of
       Some dep_id \<Rightarrow>
         if \<not> dep_id < txid then None
         else do { affects \<leftarrow> list_get (affect_txs td) dep_id;
                   dep_st \<leftarrow> list_get (dependent_states td) dep_id;
                   st \<leftarrow> list_get (dependent_states td) txid;
                   let td1 = set_state txid (st\<lparr>blocker := Some dep_id, onboard := True\<rparr>) td;
                   let td2 = td1\<lparr>affect_txs := (affect_txs td1)[dep_id := List.insert txid affects]\<rparr>;
                   let td3 = set_state dep_id (dep_st\<lparr>onboard := True\<rparr>) td2;
                   Some (if blocker dep_st = None then index_fetch_min dep_id td3 else td3) }
     | None \<Rightarrow>
         do { st \<leftarrow> list_get (dependent_states td) txid;
              if \<not> onboard st
              then Some (index_fetch_min txid (set_state txid (st\<lparr>onboard := True, blocker := None\<rparr>) td))
              else Some td })"

section \<open>Workers and the commit thread\<close>

text \<open>
  The state of the graph with what its callers have in flight:
  \<^item> \<open>pending\<close>: cursor positions fetched by \<open>next\<close> whose state lock is not yet taken;
  \<^item> \<open>claimed\<close>: transactions handed to a worker that has not yet looked at their status;
  \<^item> \<open>executing\<close>: transactions in status \<open>Executing\<close>;
  \<^item> \<open>held\<close>: the \<open>remove\<close> calls under way, with the reverse edges still to visit and whether the
    caller is the execution that just succeeded;
  \<^item> \<open>committed\<close> and \<open>committing\<close>: the published commit cursor, and the transactions whose
    \<open>commit\<close> call follows the publication.
\<close>

record td_sys =
  sys_td :: tx_dependency
  pending :: "tx_id list"
  claimed :: "tx_id list"
  executing :: "tx_id set"
  held :: "tx_id \<rightharpoonup> (tx_id list \<times> bool)"
  committed :: usize
  committing :: "tx_id list"

definition td_sys_new :: "usize \<Rightarrow> td_sys" where
  "td_sys_new n = \<lparr>sys_td = tx_dependency_new n, pending = [], claimed = [], executing = {},
     held = Map.empty, committed = 0, committing = []\<rparr>"

abbreviation hand_out :: "tx_id option \<Rightarrow> tx_id list \<Rightarrow> tx_id list" where
  "hand_out r xs \<equiv> (case r of None \<Rightarrow> xs | Some t \<Rightarrow> t # xs)"

abbreviation removing_own :: "td_sys \<Rightarrow> tx_id \<Rightarrow> bool" where
  "removing_own s d \<equiv> (\<exists>ts. held s d = Some (ts, True))"

inductive td_step :: "td_sys \<Rightarrow> td_sys \<Rightarrow> bool" where
  fetch: "td_fetch_add (sys_td s) = (i, td') \<Longrightarrow>
    td_step s (s\<lparr>sys_td := td', pending := (if td_num_txs td' \<le> i then pending s else i # pending s)\<rparr>)"
| take: "i \<in> set (pending s) \<Longrightarrow> td_take i (sys_td s) = Some (r, td') \<Longrightarrow>
    td_step s (s\<lparr>sys_td := td', pending := remove1 i (pending s), claimed := hand_out r (claimed s)\<rparr>)"
| start: "d \<in> set (claimed s) \<Longrightarrow> d \<notin> executing s \<Longrightarrow>
    td_step s (s\<lparr>claimed := remove1 d (claimed s), executing := insert d (executing s)\<rparr>)"
| duplicate: "d \<in> set (claimed s) \<Longrightarrow> d \<in> executing s \<Longrightarrow>
    td_step s (s\<lparr>claimed := remove1 d (claimed s)\<rparr>)"
| remove_useless: "d \<in> set (claimed s) \<Longrightarrow> held s d = None \<Longrightarrow>
    list_get (affect_txs (sys_td s)) d = Some ts \<Longrightarrow>
    td_step s (s\<lparr>claimed := remove1 d (claimed s), held := (held s)(d \<mapsto> (ts, False))\<rparr>)"
| remove_executed: "d \<in> executing s \<Longrightarrow> held s d = None \<Longrightarrow>
    list_get (affect_txs (sys_td s)) d = Some ts \<Longrightarrow>
    td_step s (s\<lparr>held := (held s)(d \<mapsto> (ts, True))\<rparr>)"
| remove_visit: "held s d = Some (t # ts, pop) \<Longrightarrow> remove_one d pop t (sys_td s) = Some (r, td') \<Longrightarrow>
    td_step s (s\<lparr>sys_td := td', held := (held s)(d \<mapsto> (ts, pop)), claimed := hand_out r (claimed s)\<rparr>)"
| remove_end: "held s d = Some ([], pop) \<Longrightarrow>
    td_step s (s\<lparr>sys_td := clear_affects d (sys_td s), held := (held s)(d := None),
      executing := (if pop then executing s - {d} else executing s)\<rparr>)"
| add_executed: "d \<in> executing s \<Longrightarrow> \<not> removing_own s d \<Longrightarrow>
    (case dep of None \<Rightarrow> True | Some e \<Rightarrow> held s e = None) \<Longrightarrow> td_add d dep (sys_td s) = Some td' \<Longrightarrow>
    td_step s (s\<lparr>sys_td := td', executing := executing s - {d}\<rparr>)"
| add_validated: "d \<notin> executing s \<Longrightarrow>
    (case dep of None \<Rightarrow> True | Some e \<Rightarrow> held s e = None) \<Longrightarrow> td_add d dep (sys_td s) = Some td' \<Longrightarrow>
    td_step s (s\<lparr>sys_td := td'\<rparr>)"
| key: "d \<in> executing s \<Longrightarrow> \<not> removing_own s d \<Longrightarrow>
    td_key_tx d (committed s) (sys_td s) = Some td' \<Longrightarrow>
    td_step s (s\<lparr>sys_td := td', executing := executing s - {d}\<rparr>)"
| publish: "committed s < td_num_txs (sys_td s) \<Longrightarrow>
    td_step s (s\<lparr>committed := committed s + 1, committing := committed s # committing s\<rparr>)"
| commit: "c \<in> set (committing s) \<Longrightarrow> td_commit c (sys_td s) = Some td' \<Longrightarrow>
    td_step s (s\<lparr>sys_td := td', committing := remove1 c (committing s)\<rparr>)"

inductive_cases td_stepE: "td_step s s'"

section \<open>Invariants\<close>

abbreviation ds :: "tx_dependency \<Rightarrow> tx_id \<Rightarrow> dependent_state" where
  "ds td t \<equiv> dependent_states td ! t"

definition claimable :: "tx_dependency \<Rightarrow> tx_id \<Rightarrow> bool" where
  "claimable td t \<longleftrightarrow> onboard (ds td t) \<and> blocker (ds td t) = None"

text \<open>Both vectors have one place per transaction, and a reverse edge leads to a later one.\<close>

definition td_wf :: "tx_dependency \<Rightarrow> bool" where
  "td_wf td \<longleftrightarrow> length (dependent_states td) = td_num_txs td \<and> length (affect_txs td) = td_num_txs td \<and>
    (\<forall>d<td_num_txs td. set (affect_txs td ! d) \<subseteq> {d<..<td_num_txs td})"

text \<open>What is in flight names transactions of the block.\<close>

definition inv_range :: "td_sys \<Rightarrow> bool" where
  "inv_range s \<longleftrightarrow> (\<forall>t\<in>set (pending s) \<union> set (claimed s) \<union> executing s. t < td_num_txs (sys_td s)) \<and>
    (\<forall>d ts p. held s d = Some (ts, p) \<longrightarrow> d < td_num_txs (sys_td s) \<and> set ts \<subseteq> set (affect_txs (sys_td s) ! d) \<and>
       (p \<longrightarrow> d \<in> executing s))"

text \<open>A blocked transaction is onboard, and a claimable one is ahead of the cursor or pending.\<close>

definition inv_claim :: "td_sys \<Rightarrow> bool" where
  "inv_claim s \<longleftrightarrow> (\<forall>t<td_num_txs (sys_td s).
     (blocker (ds (sys_td s) t) \<noteq> None \<longrightarrow> onboard (ds (sys_td s) t)) \<and>
     (claimable (sys_td s) t \<longrightarrow> td_index (sys_td s) \<le> t \<or> t \<in> set (pending s)))"

text \<open>A transaction blocked by itself is beyond the committed prefix, or its release is under way.\<close>

definition inv_barrier :: "td_sys \<Rightarrow> bool" where
  "inv_barrier s \<longleftrightarrow> (\<forall>t<td_num_txs (sys_td s). blocker (ds (sys_td s) t) = Some t \<longrightarrow>
     committed s < t \<or> (\<exists>c\<in>set (committing s). t = Suc c))"

text \<open>A transaction blocked by another is reached by a reverse edge that is still to be visited,
  and its blocker will run \<open>remove\<close>, or be claimed again.\<close>

definition inv_edge :: "td_sys \<Rightarrow> bool" where
  "inv_edge s \<longleftrightarrow> (\<forall>t<td_num_txs (sys_td s). \<forall>d. blocker (ds (sys_td s) t) = Some d \<and> d \<noteq> t \<longrightarrow>
     d < t \<and> t \<in> set (affect_txs (sys_td s) ! d) \<and> (\<forall>ts p. held s d = Some (ts, p) \<longrightarrow> t \<in> set ts))"

definition inv_owner :: "td_sys \<Rightarrow> bool" where
  "inv_owner s \<longleftrightarrow> (\<forall>t<td_num_txs (sys_td s). \<forall>d. blocker (ds (sys_td s) t) = Some d \<and> d \<noteq> t \<longrightarrow>
     onboard (ds (sys_td s) d) \<or> d \<in> set (claimed s) \<or> d \<in> executing s \<or> held s d \<noteq> None)"

definition td_inv :: "td_sys \<Rightarrow> bool" where
  "td_inv s \<longleftrightarrow> td_wf (sys_td s) \<and> inv_range s \<and> inv_claim s \<and> inv_barrier s \<and> inv_edge s \<and> inv_owner s"

subsection \<open>What each critical section does\<close>

lemma td_projections [simp]:
  "td_num_txs (index_fetch_min i td) = td_num_txs td"
  "dependent_states (index_fetch_min i td) = dependent_states td"
  "affect_txs (index_fetch_min i td) = affect_txs td"
  "td_index (index_fetch_min i td) = min (td_index td) i"
  "td_num_txs (set_state t st td) = td_num_txs td"
  "dependent_states (set_state t st td) = (dependent_states td)[t := st]"
  "affect_txs (set_state t st td) = affect_txs td"
  "td_index (set_state t st td) = td_index td"
  "td_num_txs (clear_affects d td) = td_num_txs td"
  "dependent_states (clear_affects d td) = dependent_states td"
  "affect_txs (clear_affects d td) = (affect_txs td)[d := []]"
  "td_index (clear_affects d td) = td_index td"
  by (auto simp: index_fetch_min_def set_state_def clear_affects_def)

lemma td_fetch_add_eq: "td_fetch_add td = (i, td') \<longleftrightarrow> i = td_index td \<and> td' = td\<lparr>td_index := Suc i\<rparr>"
  by (auto simp: td_fetch_add_def)

lemma td_takeD:
  "td_take i td = Some (r, td') \<Longrightarrow>
    i < length (dependent_states td) \<and> claimable td i \<and> r = Some i \<and>
      td' = set_state i ((ds td i)\<lparr>onboard := False\<rparr>) td \<or>
    \<not> claimable td i \<and> r = None \<and> td' = td"
  by (simp add: td_take_def claimable_def list_get_def split: if_splits)

lemma remove_oneD:
  "remove_one d pop t td = Some (r, td') \<Longrightarrow>
    blocker (ds td t) \<noteq> Some d \<and> r = None \<and> td' = td \<or>
    t < length (dependent_states td) \<and> blocker (ds td t) = Some d \<and>
      (r = Some t \<and> td' = set_state t ((ds td t)\<lparr>blocker := None, onboard := False\<rparr>) td \<or>
       r = None \<and> td' = index_fetch_min t (set_state t ((ds td t)\<lparr>blocker := None\<rparr>) td) \<or>
       \<not> onboard (ds td t) \<and> r = None \<and> td' = set_state t ((ds td t)\<lparr>blocker := None\<rparr>) td)"
  by (simp add: remove_one_def list_get_def Let_def split: if_splits)

lemma td_commitD:
  "td_commit c td = Some td' \<Longrightarrow>
    (td_num_txs td \<le> Suc c \<or> \<not> onboard (ds td (Suc c))) \<and> td' = td \<or>
    Suc c < length (dependent_states td) \<and> onboard (ds td (Suc c)) \<and>
      td' = index_fetch_min (Suc c) (set_state (Suc c) ((ds td (Suc c))\<lparr>blocker := None\<rparr>) td)"
  by (simp add: td_commit_def list_get_def Let_def split: if_splits)

lemma td_key_txD:
  "td_key_tx t c td = Some td' \<Longrightarrow> t < length (dependent_states td) \<and>
    (c < t \<and> td' = set_state t ((ds td t)\<lparr>blocker := Some t, onboard := True\<rparr>) td \<or>
     t \<le> c \<and> blocker (ds td t) \<noteq> None \<and> td' = set_state t ((ds td t)\<lparr>onboard := True\<rparr>) td \<or>
     t \<le> c \<and> blocker (ds td t) = None \<and>
       td' = index_fetch_min t (set_state t ((ds td t)\<lparr>onboard := True\<rparr>) td))"
  by (simp add: td_key_tx_def list_get_def Let_def not_less split: if_splits)

lemma td_add_NoneD:
  "td_add t None td = Some td' \<Longrightarrow> t < length (dependent_states td) \<and>
    (onboard (ds td t) \<and> td' = td \<or>
     \<not> onboard (ds td t) \<and>
       td' = index_fetch_min t (set_state t ((ds td t)\<lparr>onboard := True, blocker := None\<rparr>) td))"
  by (simp add: td_add_def list_get_def split: if_splits)

definition add_edge :: "tx_id \<Rightarrow> tx_id \<Rightarrow> tx_dependency \<Rightarrow> tx_dependency" where
  "add_edge t d td = td\<lparr>affect_txs := (affect_txs td)[d := List.insert t (affect_txs td ! d)],
     dependent_states := (dependent_states td)[t := (ds td t)\<lparr>blocker := Some d, onboard := True\<rparr>,
       d := (ds td d)\<lparr>onboard := True\<rparr>]\<rparr>"

lemma add_edge_projections [simp]:
  "td_num_txs (add_edge t d td) = td_num_txs td" "td_index (add_edge t d td) = td_index td"
  "affect_txs (add_edge t d td) = (affect_txs td)[d := List.insert t (affect_txs td ! d)]"
  "dependent_states (add_edge t d td) = (dependent_states td)[t := (ds td t)\<lparr>blocker := Some d, onboard := True\<rparr>,
       d := (ds td d)\<lparr>onboard := True\<rparr>]"
  by (simp_all add: add_edge_def)

lemma td_add_SomeD:
  "td_add t (Some d) td = Some td' \<Longrightarrow>
    d < t \<and> t < length (dependent_states td) \<and> d < length (affect_txs td) \<and>
    td' = (if blocker (ds td d) = None then index_fetch_min d (add_edge t d td) else add_edge t d td)"
  by (auto simp: td_add_def list_get_def Let_def add_edge_def set_state_def index_fetch_min_def split: if_splits)

subsection \<open>Preservation\<close>

lemma td_add_cases:
  assumes "td_add t dep td = Some td'"
  shows "dep = None \<and> (td' = td \<and> onboard (ds td t) \<or>
        td' = index_fetch_min t (set_state t ((ds td t)\<lparr>onboard := True, blocker := None\<rparr>) td)) \<or>
      (\<exists>d. dep = Some d \<and> d < t \<and> t < length (dependent_states td) \<and> d < length (affect_txs td) \<and>
        (blocker (ds td d) = None \<and> td' = index_fetch_min d (add_edge t d td) \<or>
         blocker (ds td d) \<noteq> None \<and> td' = add_edge t d td))"
  using assms by (cases dep) (auto dest!: td_add_NoneD td_add_SomeD split: if_splits)

lemmas td_opD = td_takeD remove_oneD td_commitD td_key_txD td_add_cases

lemma wf_set_state: "td_wf td \<Longrightarrow> td_wf (set_state t st td)"
  by (simp add: td_wf_def)

lemma wf_fetch_min: "td_wf td \<Longrightarrow> td_wf (index_fetch_min i td)"
  by (simp add: td_wf_def)

lemma wf_clear: "td_wf td \<Longrightarrow> td_wf (clear_affects d td)"
  by (simp add: td_wf_def nth_update_total)

lemma wf_add_edge: "td_wf td \<Longrightarrow> d < t \<Longrightarrow> t < length (dependent_states td) \<Longrightarrow> td_wf (add_edge t d td)"
  by (simp add: td_wf_def nth_update_total)

lemma wf_index: "td_wf td \<Longrightarrow> td_wf (td\<lparr>td_index := i\<rparr>)"
  by (simp add: td_wf_def)

lemmas wf_intros = wf_set_state wf_fetch_min wf_clear wf_add_edge wf_index

lemma td_step_wf:
  assumes "td_step s s'" and "td_wf (sys_td s)"
  shows "td_wf (sys_td s')"
  using assms
  by (cases rule: td_step.cases) (auto simp: td_fetch_add_eq dest!: td_opD intro!: wf_intros)

lemma td_step_num_txs: "td_step s s' \<Longrightarrow> td_num_txs (sys_td s') = td_num_txs (sys_td s)"
  by (cases rule: td_step.cases, assumption) (auto simp: td_fetch_add_eq dest!: td_opD)

lemma wf_lengths:
  "td_wf td \<Longrightarrow> length (dependent_states td) = td_num_txs td"
  "td_wf td \<Longrightarrow> length (affect_txs td) = td_num_txs td"
  by (simp_all add: td_wf_def)

lemma wf_edge: "td_wf td \<Longrightarrow> d < td_num_txs td \<Longrightarrow> t \<in> set (affect_txs td ! d) \<Longrightarrow> d < t \<and> t < td_num_txs td"
  by (fastforce simp: td_wf_def)

lemma inv_claimD:
  assumes "inv_claim s" and "t < td_num_txs (sys_td s)"
  shows "blocker (ds (sys_td s) t) = Some d \<Longrightarrow> onboard (ds (sys_td s) t)"
    and "onboard (ds (sys_td s) t) \<Longrightarrow> blocker (ds (sys_td s) t) = None \<Longrightarrow>
      td_index (sys_td s) \<le> t \<or> t \<in> set (pending s)"
  using assms by (auto simp: inv_claim_def claimable_def)

lemma inv_claimI:
  assumes "\<And>t d. t < td_num_txs (sys_td s) \<Longrightarrow> blocker (ds (sys_td s) t) = Some d \<Longrightarrow> onboard (ds (sys_td s) t)"
    and "\<And>t. t < td_num_txs (sys_td s) \<Longrightarrow> onboard (ds (sys_td s) t) \<Longrightarrow> blocker (ds (sys_td s) t) = None \<Longrightarrow>
      td_index (sys_td s) \<le> t \<or> t \<in> set (pending s)"
  shows "inv_claim s"
  using assms by (auto simp: inv_claim_def claimable_def)

lemma mem_remove1I: "t \<in> set xs \<Longrightarrow> t \<noteq> i \<Longrightarrow> t \<in> set (remove1 i xs)"
  by (simp add: in_set_remove1)

lemma td_step_claim:
  assumes "td_step s s'" and "td_wf (sys_td s)" and "inv_claim s"
  shows "inv_claim s'"
  using assms(1)
proof (cases rule: td_step.cases)
  case (fetch i td')
  have "Suc i \<le> t \<or> t \<in> set (if td_num_txs (sys_td s) \<le> i then pending s else i # pending s)"
    if "t < td_num_txs (sys_td s)" "i \<le> t \<or> t \<in> set (pending s)" for t
    using that by (cases "t = i") auto
  then show ?thesis
    using fetch inv_claimD [OF assms(3)] by (intro inv_claimI) (simp_all add: td_fetch_add_eq)
next
  case (take i r td')
  note D = td_takeD [OF take(3)]
  have "td_num_txs td' = td_num_txs (sys_td s)" and "td_index td' = td_index (sys_td s)"
    using D by auto
  moreover have "onboard (ds td' t) \<and> blocker (ds td' t) = None \<Longrightarrow>
      onboard (ds (sys_td s) t) \<and> blocker (ds (sys_td s) t) = None \<and> t \<noteq> i" for t
    using D by (auto simp: nth_update_total claimable_def split: if_splits)
  moreover have "blocker (ds td' t) = Some d \<Longrightarrow> t < td_num_txs (sys_td s) \<Longrightarrow> onboard (ds td' t)" for t d
    using D inv_claimD(1) [OF assms(3), of t d] by (auto simp: nth_update_total claimable_def split: if_splits)
  ultimately show ?thesis
    using take(1) inv_claimD(2) [OF assms(3)] by (intro inv_claimI) (auto dest: mem_remove1I)
qed (use assms(2,3) in \<open>auto intro!: inv_claimI simp: nth_update_total wf_lengths
      dest!: td_opD dest: inv_claimD split: if_splits\<close>)

lemma inv_barrierD:
  "inv_barrier s \<Longrightarrow> t < td_num_txs (sys_td s) \<Longrightarrow> blocker (ds (sys_td s) t) = Some t \<Longrightarrow>
    committed s < t \<or> (\<exists>c\<in>set (committing s). t = Suc c)"
  by (simp add: inv_barrier_def)

lemma inv_barrierI:
  assumes "\<And>t. t < td_num_txs (sys_td s) \<Longrightarrow> blocker (ds (sys_td s) t) = Some t \<Longrightarrow>
    committed s < t \<or> (\<exists>c\<in>set (committing s). t = Suc c)"
  shows "inv_barrier s"
  using assms by (simp add: inv_barrier_def)

lemma td_step_barrier:
  assumes "td_step s s'" and "td_wf (sys_td s)" and "inv_claim s" and "inv_barrier s"
  shows "inv_barrier s'"
  using assms(1)
proof (cases rule: td_step.cases)
  case publish
  then show ?thesis
    using inv_barrierD [OF assms(4)]
    by (intro inv_barrierI) (simp, metis Suc_lessI)
next
  case (key d td')
  have "committed s < t \<or> (\<exists>c\<in>set (committing s). t = Suc c)"
    if "t < td_num_txs (sys_td s)" "blocker (ds td' t) = Some t" for t
    using td_key_txD [OF key(4)] that inv_barrierD [OF assms(4), of t]
    by (auto simp: nth_update_total split: if_splits)
  moreover have "td_num_txs td' = td_num_txs (sys_td s)"
    using td_step_num_txs [OF assms(1)] key(1) by simp
  ultimately show ?thesis using key(1) by (simp add: inv_barrier_def)
next
  case (commit c td')
  have "blocker (ds td' t) = Some t \<Longrightarrow> blocker (ds (sys_td s) t) = Some t \<and> t \<noteq> Suc c"
    if "t < td_num_txs (sys_td s)" for t
    using td_commitD [OF commit(3)] that inv_claimD(1) [OF assms(3) that]
    by (auto simp: nth_update_total split: if_splits)
  moreover have "td_num_txs td' = td_num_txs (sys_td s)"
    using td_step_num_txs [OF assms(1)] commit(1) by simp
  ultimately show ?thesis
    using inv_barrierD [OF assms(4)] commit(1)
    by (intro inv_barrierI) (auto dest: mem_remove1I)
qed (use assms(2-4) in \<open>auto intro!: inv_barrierI simp: nth_update_total wf_lengths td_fetch_add_eq
      dest!: td_opD dest: inv_barrierD split: if_splits\<close>)

text \<open>The reverse edges only grow under \<open>add\<close>, away from the lists that are being visited.\<close>

lemma td_op_affects:
  "td_take i td = Some (r, td') \<Longrightarrow> affect_txs td' = affect_txs td"
  "remove_one d pop t td = Some (r, td') \<Longrightarrow> affect_txs td' = affect_txs td"
  "td_commit c td = Some td' \<Longrightarrow> affect_txs td' = affect_txs td"
  "td_key_tx t c' td = Some td' \<Longrightarrow> affect_txs td' = affect_txs td"
  by (auto dest!: td_opD)

lemma td_add_affects:
  "td_add t dep td = Some td' \<Longrightarrow> t' \<in> set (affect_txs td ! d) \<Longrightarrow> t' \<in> set (affect_txs td' ! d)"
  by (auto simp: nth_update_total dest!: td_add_cases)

lemma td_op_result:
  "td_take i td = Some (Some t, td') \<Longrightarrow> t = i"
  "remove_one d pop t' td = Some (Some t, td') \<Longrightarrow> t = t'"
  by (auto dest!: td_takeD remove_oneD)

lemma inv_rangeD:
  assumes "inv_range s"
  shows "t \<in> set (pending s) \<Longrightarrow> t < td_num_txs (sys_td s)"
    and "t \<in> set (claimed s) \<Longrightarrow> t < td_num_txs (sys_td s)"
    and "t \<in> executing s \<Longrightarrow> t < td_num_txs (sys_td s)"
    and "held s d = Some (ts, p) \<Longrightarrow> d < td_num_txs (sys_td s)"
    and "held s d = Some (ts, p) \<Longrightarrow> t \<in> set ts \<Longrightarrow> t \<in> set (affect_txs (sys_td s) ! d)"
    and "held s d = Some (ts, True) \<Longrightarrow> d \<in> executing s"
  using assms by (fastforce simp: inv_range_def)+

lemma inv_rangeI:
  assumes "\<And>t. t \<in> set (pending s) \<Longrightarrow> t < td_num_txs (sys_td s)"
    and "\<And>t. t \<in> set (claimed s) \<Longrightarrow> t < td_num_txs (sys_td s)"
    and "\<And>t. t \<in> executing s \<Longrightarrow> t < td_num_txs (sys_td s)"
    and "\<And>d ts p. held s d = Some (ts, p) \<Longrightarrow> d < td_num_txs (sys_td s)"
    and "\<And>d ts p t. held s d = Some (ts, p) \<Longrightarrow> t \<in> set ts \<Longrightarrow> t \<in> set (affect_txs (sys_td s) ! d)"
    and "\<And>d ts. held s d = Some (ts, True) \<Longrightarrow> d \<in> executing s"
  shows "inv_range s"
  using assms by (auto simp: inv_range_def)

lemma mem_remove1D: "t \<in> set (remove1 i xs) \<Longrightarrow> t \<in> set xs"
  using set_remove1_subset by fastforce

lemma td_step_range:
  assumes "td_step s s'" and "td_wf (sys_td s)" and "inv_range s"
  shows "inv_range s'"
proof -
  note num = td_step_num_txs [OF assms(1)]
  note range = inv_rangeD [OF assms(3)]
  show ?thesis
    using assms(1)
  proof (cases rule: td_step.cases)
    case (take i r td')
    show ?thesis
      using take(1,2) num td_op_affects(1) [OF take(3)] td_op_result(1) [of i "sys_td s" _ td'] take(3) range
      by (intro inv_rangeI) (auto dest: mem_remove1D split: option.splits)
  next
    case (remove_visit d t ts pop r td')
    have "t < td_num_txs (sys_td s)"
      using range(4,5) [OF remove_visit(2)] wf_edge [OF assms(2), of d t] by auto
    then show ?thesis
      using remove_visit(1,2) num td_op_affects(2) [OF remove_visit(3)]
        td_op_result(2) [of d pop t "sys_td s" _ td'] remove_visit(3) range
      by (intro inv_rangeI) (auto split: option.splits if_splits)
  next
    case (add_executed d dep td')
    then show ?thesis
      using num td_add_affects [OF add_executed(5)] range by (intro inv_rangeI) auto
  next
    case (add_validated d dep td')
    then show ?thesis
      using num td_add_affects [OF add_validated(4)] range by (intro inv_rangeI) auto
  next
    case (key d td')
    then show ?thesis
      using num td_op_affects(4) [OF key(4)] range by (intro inv_rangeI) auto
  next
    case (commit c td')
    then show ?thesis
      using num td_op_affects(3) [OF commit(3)] range by (intro inv_rangeI) auto
  next
    case (remove_end d pop)
    then show ?thesis
      using num range
      by (intro inv_rangeI) (auto simp: nth_update_total dest: range split: if_splits)
  qed (use num assms(2) in \<open>auto intro!: inv_rangeI intro: range dest!: mem_remove1D simp: td_fetch_add_eq
        list_get_Some_iff wf_lengths split: if_splits\<close>)
qed

lemma inv_edgeD:
  assumes "inv_edge s" and "t < td_num_txs (sys_td s)" and "blocker (ds (sys_td s) t) = Some d" and "d \<noteq> t"
  shows "d < t" and "t \<in> set (affect_txs (sys_td s) ! d)" and "held s d = Some (ts, p) \<Longrightarrow> t \<in> set ts"
  using assms by (auto simp: inv_edge_def)

lemma inv_edgeI:
  assumes "\<And>t d. t < td_num_txs (sys_td s) \<Longrightarrow> blocker (ds (sys_td s) t) = Some d \<Longrightarrow> d \<noteq> t \<Longrightarrow>
    d < t \<and> t \<in> set (affect_txs (sys_td s) ! d) \<and> (\<forall>ts p. held s d = Some (ts, p) \<longrightarrow> t \<in> set ts)"
  shows "inv_edge s"
  using assms by (simp add: inv_edge_def)

text \<open>An operation makes a transaction depend on another only by adding the edge.\<close>

lemma td_op_blocker:
  "td_take i td = Some (r, td') \<Longrightarrow> blocker (ds td' t) = blocker (ds td t)"
  "remove_one e pop t' td = Some (r, td') \<Longrightarrow> blocker (ds td' t) = Some d \<Longrightarrow>
     blocker (ds td t) = Some d \<and> \<not> (t = t' \<and> d = e)"
  "td_commit c td = Some td' \<Longrightarrow> blocker (ds td' t) = Some d \<Longrightarrow> blocker (ds td t) = Some d"
  "td_key_tx t' c' td = Some td' \<Longrightarrow> blocker (ds td' t) = Some d \<Longrightarrow> d \<noteq> t \<Longrightarrow> blocker (ds td t) = Some d"
  by (auto simp: nth_update_total dest!: td_opD split: if_splits)

lemma td_add_blocker:
  "td_add t' dep td = Some td' \<Longrightarrow> blocker (ds td' t) = Some d \<Longrightarrow>
    blocker (ds td t) = Some d \<or> t = t' \<and> dep = Some d \<and> d < t \<and> (d < length (affect_txs td) \<longrightarrow> t \<in> set (affect_txs td' ! d))"
  by (auto simp: nth_update_total dest!: td_add_cases split: if_splits)

lemma td_add_inv_edge:
  assumes "td_add t' dep (sys_td s) = Some td'" and "case dep of None \<Rightarrow> True | Some e \<Rightarrow> held s e = None"
    and "td_wf (sys_td s)" and "inv_edge s" and "t < td_num_txs (sys_td s)"
    and "blocker (ds td' t) = Some d" and "d \<noteq> t"
  shows "d < t \<and> t \<in> set (affect_txs td' ! d) \<and> (\<forall>ts p. held s d = Some (ts, p) \<longrightarrow> t \<in> set ts)"
  using td_add_blocker [OF assms(1,6)]
proof
  assume "blocker (ds (sys_td s) t) = Some d"
  then show ?thesis
    using inv_edgeD [OF assms(4,5) _ assms(7)] td_add_affects [OF assms(1)] by blast
next
  assume *: "t = t' \<and> dep = Some d \<and> d < t \<and>
    (d < length (affect_txs (sys_td s)) \<longrightarrow> t \<in> set (affect_txs td' ! d))"
  then have "d < length (affect_txs (sys_td s))" using wf_lengths [OF assms(3)] assms(5) by simp
  then show ?thesis using * assms(2) by auto
qed

lemma td_step_edge:
  assumes "td_step s s'" and "td_wf (sys_td s)" and "inv_range s" and "inv_edge s"
  shows "inv_edge s'"
proof -
  note num = td_step_num_txs [OF assms(1)]
  note edge = inv_edgeD [OF assms(4)]
  show ?thesis
    using assms(1)
  proof (cases rule: td_step.cases)
    case (take i r td')
    then show ?thesis
      using num td_op_affects(1) [OF take(3)] td_op_blocker(1) [OF take(3)] edge
      by (intro inv_edgeI) auto
  next
    case (remove_visit d t ts pop r td')
    show ?thesis
    proof (rule inv_edgeI)
      fix t' d'
      assume t': "t' < td_num_txs (sys_td s')" and b: "blocker (ds (sys_td s') t') = Some d'" "d' \<noteq> t'"
      have "blocker (ds (sys_td s) t') = Some d'" and ne: "\<not> (t' = t \<and> d' = d)"
        using td_op_blocker(2) [OF remove_visit(3)] b(1) remove_visit(1) by auto
      then show "d' < t' \<and> t' \<in> set (affect_txs (sys_td s') ! d') \<and>
          (\<forall>ts p. held s' d' = Some (ts, p) \<longrightarrow> t' \<in> set ts)"
        using edge [of t' d'] t' num b(2) remove_visit(1,2) td_op_affects(2) [OF remove_visit(3)] by auto
    qed
  next
    case (add_executed d dep td')
    then show ?thesis
      using num td_add_inv_edge [OF add_executed(5,4) assms(2,4)] by (intro inv_edgeI) simp
  next
    case (add_validated d dep td')
    then show ?thesis
      using num td_add_inv_edge [OF add_validated(4,3) assms(2,4)] by (intro inv_edgeI) simp
  next
    case (key d td')
    then show ?thesis
      using num td_op_affects(4) [OF key(4)] td_op_blocker(4) [OF key(4)] edge by (intro inv_edgeI) auto
  next
    case (commit c td')
    then show ?thesis
      using num td_op_affects(3) [OF commit(3)] td_op_blocker(3) [OF commit(3)] edge by (intro inv_edgeI) auto
  next
    case (remove_end d pop)
    have "d = t" if "t < td_num_txs (sys_td s)" "blocker (ds (sys_td s) t) = Some d" for t
      using edge(3) [OF that _ remove_end(2)] by auto
    then show ?thesis
      using remove_end num edge by (intro inv_edgeI) (auto simp: nth_update_total split: if_splits)
  qed (use num edge in \<open>auto intro!: inv_edgeI simp: td_fetch_add_eq list_get_Some_iff split: if_splits\<close>)
qed

lemma td_op_onboard:
  "td_take i td = Some (r, td') \<Longrightarrow> onboard (ds td t) \<Longrightarrow> onboard (ds td' t) \<or> r = Some t"
  "remove_one e pop t' td = Some (r, td') \<Longrightarrow> onboard (ds td t) \<Longrightarrow> onboard (ds td' t) \<or> r = Some t"
  "td_commit c td = Some td' \<Longrightarrow> onboard (ds td' t) = onboard (ds td t)"
  "td_key_tx t' c' td = Some td' \<Longrightarrow> onboard (ds td t) \<or> t = t' \<Longrightarrow> onboard (ds td' t)"
  by (auto simp: nth_update_total dest!: td_opD split: if_splits)

lemma td_add_onboard:
  "td_add t' dep td = Some td' \<Longrightarrow> length (affect_txs td) = length (dependent_states td) \<Longrightarrow>
    onboard (ds td t) \<or> t = t' \<and> t < length (dependent_states td) \<or> dep = Some t \<Longrightarrow> onboard (ds td' t)"
  by (auto simp: nth_update_total dest!: td_add_cases split: if_splits)

lemma inv_ownerD:
  "inv_owner s \<Longrightarrow> t < td_num_txs (sys_td s) \<Longrightarrow> blocker (ds (sys_td s) t) = Some d \<Longrightarrow> d \<noteq> t \<Longrightarrow>
    onboard (ds (sys_td s) d) \<or> d \<in> set (claimed s) \<or> d \<in> executing s \<or> held s d \<noteq> None"
  by (simp add: inv_owner_def)

lemma inv_ownerI:
  assumes "\<And>t d. t < td_num_txs (sys_td s) \<Longrightarrow> blocker (ds (sys_td s) t) = Some d \<Longrightarrow> d \<noteq> t \<Longrightarrow>
    onboard (ds (sys_td s) d) \<or> d \<in> set (claimed s) \<or> d \<in> executing s \<or> held s d \<noteq> None"
  shows "inv_owner s"
  using assms by (simp add: inv_owner_def)

lemma td_step_owner:
  assumes "td_step s s'" and "td_wf (sys_td s)" and "inv_range s" and "inv_edge s" and "inv_owner s"
  shows "inv_owner s'"
proof (rule inv_ownerI)
  fix t d
  assume "t < td_num_txs (sys_td s')" and b': "blocker (ds (sys_td s') t) = Some d" and ne: "d \<noteq> t"
  then have t: "t < td_num_txs (sys_td s)" using td_step_num_txs [OF assms(1)] by simp
  note own = inv_ownerD [OF assms(5) t _ ne]
  let ?goal = "onboard (ds (sys_td s') d) \<or> d \<in> set (claimed s') \<or> d \<in> executing s' \<or> held s' d \<noteq> None"
  show ?goal
    using assms(1)
  proof (cases rule: td_step.cases)
    case (take i r td')
    then show ?thesis
      using own td_op_blocker(1) [OF take(3)] td_op_onboard(1) [OF take(3), of d] b'
      by (auto split: option.splits)
  next
    case (remove_visit e t' ts pop r td')
    then show ?thesis
      using own td_op_blocker(2) [OF remove_visit(3), of t d] td_op_onboard(2) [OF remove_visit(3), of d] b'
      by (auto split: option.splits)
  next
    case (add_executed e dep td')
    then show ?thesis
      using own td_add_blocker [OF add_executed(5), of t d] td_add_onboard [OF add_executed(5), of d] b'
        inv_rangeD(3) [OF assms(3), of e] wf_lengths [OF assms(2)]
      by auto
  next
    case (add_validated e dep td')
    then show ?thesis
      using own td_add_blocker [OF add_validated(4), of t d] td_add_onboard [OF add_validated(4), of d] b'
        wf_lengths [OF assms(2)]
      by auto
  next
    case (key e td')
    then show ?thesis
      using own td_op_blocker(4) [OF key(4), of t d] td_op_onboard(4) [OF key(4), of d] b' ne by auto
  next
    case (commit c td')
    then show ?thesis
      using own td_op_blocker(3) [OF commit(3), of t d] td_op_onboard(3) [OF commit(3), of d] b' by auto
  next
    case (remove_end e pop)
    then show ?thesis
      using own inv_edgeD(3) [OF assms(4) t _ ne, of "[]" pop] b' by auto
  qed (use own b' in \<open>auto simp: td_fetch_add_eq dest: mem_remove1I\<close>)
qed

lemma td_inv_new: "td_inv (td_sys_new n)"
  by (simp add: td_inv_def td_wf_def inv_range_def inv_claim_def inv_barrier_def inv_edge_def inv_owner_def
      td_sys_new_def tx_dependency_new_def dependent_state_default_def)

lemma td_inv_step: "td_step s s' \<Longrightarrow> td_inv s \<Longrightarrow> td_inv s'"
  unfolding td_inv_def
  using td_step_wf td_step_range td_step_claim td_step_barrier td_step_edge td_step_owner by metis

lemma td_reachable_inv:
  assumes "td_step\<^sup>*\<^sup>* (td_sys_new n) s"
  shows "td_inv s \<and> td_num_txs (sys_td s) = n"
  using assms
proof (induction rule: rtranclp_induct)
  case base
  have "td_num_txs (sys_td (td_sys_new n)) = n" by (simp add: td_sys_new_def tx_dependency_new_def)
  then show ?case using td_inv_new by simp
next
  case (step y z)
  then show ?case using td_inv_step td_step_num_txs by metis
qed

section \<open>The release of dependents in closed form\<close>

text \<open>What \<open>remove\<close> does, without an order of visits: every transaction of the edge list that is
  still blocked by \<open>d\<close> is released; the immediate successor is handed over if it was asked for and
  the cursor has passed it, and the cursor returns to the first of the others.\<close>

definition handoff :: "tx_id \<Rightarrow> bool \<Rightarrow> tx_id set \<Rightarrow> tx_dependency \<Rightarrow> bool" where
  "handoff d pop T td \<longleftrightarrow> pop \<and> Suc d \<in> T \<and> blocker (ds td (Suc d)) = Some d \<and> onboard (ds td (Suc d)) \<and>
     Suc d < td_index td"

definition release_state :: "tx_id \<Rightarrow> bool \<Rightarrow> tx_id set \<Rightarrow> tx_dependency \<Rightarrow> tx_id \<Rightarrow> dependent_state" where
  "release_state d pop T td t =
    (if t \<in> T \<and> blocker (ds td t) = Some d
     then (ds td t)\<lparr>blocker := None, onboard := (onboard (ds td t) \<and> \<not> (handoff d pop T td \<and> t = Suc d))\<rparr>
     else ds td t)"

definition release_index :: "tx_id \<Rightarrow> bool \<Rightarrow> tx_id set \<Rightarrow> tx_dependency \<Rightarrow> usize" where
  "release_index d pop T td = Min (insert (td_index td)
     {t \<in> T. blocker (ds td t) = Some d \<and> onboard (ds td t) \<and> \<not> (handoff d pop T td \<and> t = Suc d)})"

definition release :: "tx_id \<Rightarrow> bool \<Rightarrow> tx_id set \<Rightarrow> tx_dependency \<Rightarrow> tx_dependency" where
  "release d pop T td = td\<lparr>
     dependent_states := map (release_state d pop T td) [0..<length (dependent_states td)],
     td_index := release_index d pop T td\<rparr>"

lemma release_skip:
  assumes "blocker (ds td t) \<noteq> Some d"
  shows "handoff d pop (insert t T) td = handoff d pop T td"
    and "release d pop (insert t T) td = release d pop T td"
proof -
  show h: "handoff d pop (insert t T) td = handoff d pop T td"
    using assms by (auto simp: handoff_def)
  have "release_state d pop (insert t T) td = release_state d pop T td"
    using assms by (auto simp: release_state_def h)
  moreover have "release_index d pop (insert t T) td = release_index d pop T td"
    unfolding release_index_def h using assms by (intro arg_cong [of _ _ Min]) auto
  ultimately show "release d pop (insert t T) td = release d pop T td"
    by (simp add: release_def)
qed

lemma release_eqI:
  assumes "td_num_txs td1 = td_num_txs td" and "affect_txs td1 = affect_txs td"
    and "length (dependent_states td1) = length (dependent_states td)"
    and "\<And>x. x < length (dependent_states td) \<Longrightarrow> release_state d pop T td1 x = release_state d pop U td x"
    and "release_index d pop T td1 = release_index d pop U td"
  shows "release d pop T td1 = release d pop U td"
proof -
  have "map (release_state d pop T td1) [0..<length (dependent_states td1)] =
      map (release_state d pop U td) [0..<length (dependent_states td)]"
    using assms(3,4) by auto
  then show ?thesis
    using assms(1,2,5) by (cases td1; cases td) (simp add: release_def)
qed

lemma release_handed_over:
  assumes "blocker (ds td (Suc d)) = Some d" and "Suc d < length (dependent_states td)" and "finite T"
    and "onboard (ds td (Suc d))" and "pop" and "Suc d < td_index td"
  defines "td1 \<equiv> set_state (Suc d) ((ds td (Suc d))\<lparr>blocker := None, onboard := False\<rparr>) td"
  shows "handoff d pop (insert (Suc d) T) td" and "\<not> handoff d pop T td1"
    and "release d pop T td1 = release d pop (insert (Suc d) T) td"
proof -
  show h: "handoff d pop (insert (Suc d) T) td" and n: "\<not> handoff d pop T td1"
    using assms by (auto simp: handoff_def)
  show "release d pop T td1 = release d pop (insert (Suc d) T) td"
  proof (rule release_eqI)
    show "release_index d pop T td1 = release_index d pop (insert (Suc d) T) td"
      unfolding release_index_def using h n assms(2)
      by (intro arg_cong [of _ _ Min]) (auto simp: td1_def nth_update_total)
  qed (use h n assms(1,2) in \<open>auto simp: td1_def release_state_def nth_update_total\<close>)
qed

lemma Min_insert_min:
  fixes i t :: nat
  shows "finite B \<Longrightarrow> Min (insert (min i t) B) = Min (insert i (insert t B))"
  by (cases "B = {}") (simp_all add: min.assoc)

lemma release_rewound:
  assumes "blocker (ds td t) = Some d" and "t < length (dependent_states td)" and "finite T" and "d < t"
    and "onboard (ds td t)" and nh: "\<not> (pop \<and> t = Suc d \<and> t < td_index td)"
  defines "td1 \<equiv> index_fetch_min t (set_state t ((ds td t)\<lparr>blocker := None\<rparr>) td)"
  shows "handoff d pop T td1 = handoff d pop (insert t T) td"
    and "release d pop T td1 = release d pop (insert t T) td"
proof -
  show h: "handoff d pop T td1 = handoff d pop (insert t T) td"
    using assms by (auto simp: handoff_def td1_def nth_update_total)
  have nt: "\<not> (handoff d pop (insert t T) td \<and> t = Suc d)"
    using nh by (auto simp: handoff_def)
  let ?B = "{x \<in> T. x \<noteq> t \<and> blocker (ds td x) = Some d \<and> onboard (ds td x) \<and>
      \<not> (handoff d pop (insert t T) td \<and> x = Suc d)}"
  show "release d pop T td1 = release d pop (insert t T) td"
  proof (rule release_eqI)
    have "release_index d pop T td1 = Min (insert (min (td_index td) t) ?B)"
      unfolding release_index_def h using assms(2)
      by (intro arg_cong [of _ _ Min]) (auto simp: td1_def nth_update_total)
    also have "\<dots> = Min (insert (td_index td) (insert t ?B))"
      by (rule Min_insert_min) (simp add: assms(3))
    also have "\<dots> = release_index d pop (insert t T) td"
      unfolding release_index_def using nt assms(1,5) by (intro arg_cong [of _ _ Min]) auto
    finally show "release_index d pop T td1 = release_index d pop (insert t T) td" .
  qed (use h nt assms(1,2,5) in \<open>auto simp: td1_def release_state_def nth_update_total\<close>)
qed

lemma release_offboard:
  assumes "blocker (ds td t) = Some d" and "t < length (dependent_states td)" and "\<not> onboard (ds td t)"
  defines "td1 \<equiv> set_state t ((ds td t)\<lparr>blocker := None\<rparr>) td"
  shows "handoff d pop T td1 = handoff d pop (insert t T) td"
    and "release d pop T td1 = release d pop (insert t T) td"
proof -
  show h: "handoff d pop T td1 = handoff d pop (insert t T) td"
    using assms by (auto simp: handoff_def td1_def nth_update_total)
  show "release d pop T td1 = release d pop (insert t T) td"
  proof (rule release_eqI)
    show "release_index d pop T td1 = release_index d pop (insert t T) td"
      unfolding release_index_def h using assms(2,3)
      by (intro arg_cong [of _ _ Min]) (auto simp: td1_def nth_update_total)
  qed (use h assms(1-3) in \<open>auto simp: td1_def release_state_def nth_update_total\<close>)
qed

lemma release_none: "release d pop {} td = td"
proof -
  have "map (release_state d pop {} td) [0..<length (dependent_states td)] = dependent_states td"
    by (rule nth_equalityI) (simp_all add: release_state_def)
  then show ?thesis by (simp add: release_def release_index_def)
qed

lemma remove_loop_closed:
  "(\<And>t. t \<in> set ts \<Longrightarrow> d < t \<and> t < length (dependent_states td)) \<Longrightarrow>
    remove_loop d pop ts nxt td =
      Some (if handoff d pop (set ts) td then Some (Suc d) else nxt, release d pop (set ts) td)"
proof (induction ts arbitrary: nxt td)
  case Nil
  then show ?case by (simp add: release_none handoff_def)
next
  case (Cons t ts)
  have t: "d < t" "t < length (dependent_states td)" using Cons.prems by auto
  show ?case
  proof (cases "blocker (ds td t) = Some d")
    case False
    then have "remove_one d pop t td = Some (None, td)" using t by (simp add: remove_one_def)
    then show ?thesis using Cons.IH [of td] Cons.prems release_skip [OF False] by simp
  next
    case b: True
    consider "onboard (ds td t)" "pop" "t = Suc d" "t < td_index td"
      | "onboard (ds td t)" "\<not> (pop \<and> t = Suc d \<and> t < td_index td)"
      | "\<not> onboard (ds td t)" by blast
    then show ?thesis
    proof cases
      case 1
      let ?td1 = "set_state t ((ds td t)\<lparr>blocker := None, onboard := False\<rparr>) td"
      have "remove_one d pop t td = Some (Some t, ?td1)" using 1 t b by (simp add: remove_one_def)
      then show ?thesis
        using Cons.IH [of ?td1] Cons.prems 1 t b release_handed_over [of td d "set ts" pop] by auto
    next
      case 2
      let ?td1 = "index_fetch_min t (set_state t ((ds td t)\<lparr>blocker := None\<rparr>) td)"
      have "remove_one d pop t td = Some (None, ?td1)" using 2 t b by (auto simp: remove_one_def Let_def)
      then show ?thesis
        using Cons.IH [of ?td1] Cons.prems release_rewound [OF b t(2) _ t(1) 2] by simp
    next
      case 3
      let ?td1 = "set_state t ((ds td t)\<lparr>blocker := None\<rparr>) td"
      have "remove_one d pop t td = Some (None, ?td1)" using 3 t b by (simp add: remove_one_def)
      then show ?thesis
        using Cons.IH [of ?td1] Cons.prems release_offboard [OF b t(2) 3] by simp
    qed
  qed
qed

section \<open>Properties\<close>

text \<open>\<^bold>\<open>C6\<close>. No wakeup is lost: however workers, releases and commits interleave, a transaction
  that may be claimed is still ahead of the scheduling cursor, or a worker has fetched its
  position and is about to look at it.\<close>

theorem claimable_never_skipped:
  assumes "td_step\<^sup>*\<^sup>* (td_sys_new n) s" and "t < n" and "claimable (sys_td s) t"
  shows "td_index (sys_td s) \<le> t \<or> t \<in> set (pending s)"
  using td_reachable_inv [OF assms(1)] assms(2,3) by (auto simp: td_inv_def inv_claim_def)

theorem claimable_never_skipped_witness:
  "claimable (sys_td (td_sys_new 3)) 2 \<and> (td_index (sys_td (td_sys_new 3)) \<le> 2 \<or> 2 \<in> set (pending (td_sys_new 3)))"
proof -
  have c: "claimable (sys_td (td_sys_new 3)) 2"
    by (simp add: claimable_def td_sys_new_def tx_dependency_new_def dependent_state_default_def numeral_3_eq_3)
  show ?thesis using claimable_never_skipped [of 3 "td_sys_new 3" 2] c by simp
qed

text \<open>\<^bold>\<open>C7\<close>. The dependency graph cannot deadlock: when nothing is in flight and the cursor has
  passed every transaction, each transaction still waiting stands behind (or is) a transaction
  whose own commit barrier lies beyond the committed prefix, and which the commit of its
  predecessor will release.\<close>

theorem dependency_never_stuck:
  assumes "td_step\<^sup>*\<^sup>* (td_sys_new n) s"
    and "pending s = []" and "claimed s = []" and "executing s = {}" and "held s = Map.empty" and "committing s = []"
    and "n \<le> td_index (sys_td s)" and "t < n" and "onboard (ds (sys_td s) t)"
  shows "\<exists>b\<le>t. onboard (ds (sys_td s) b) \<and> blocker (ds (sys_td s) b) = Some b \<and> committed s < b"
  using assms(8,9)
proof (induction t rule: less_induct)
  case (less t)
  have inv: "td_inv s" and n: "td_num_txs (sys_td s) = n"
    using td_reachable_inv [OF assms(1)] by auto
  have "blocker (ds (sys_td s) t) \<noteq> None"
    using inv_claimD(2) [of s t] inv n less.prems assms(2,7) by (auto simp: td_inv_def)
  then obtain d where d: "blocker (ds (sys_td s) t) = Some d" by blast
  show ?case
  proof (cases "d = t")
    case True
    then show ?thesis
      using d inv_barrierD [of s t] inv n less.prems assms(6) by (auto simp: td_inv_def)
  next
    case False
    then have "d < t" and "onboard (ds (sys_td s) d)"
      using d inv_edgeD(1) [of s t d] inv_ownerD [of s t d] inv n less.prems assms(3-5)
      by (auto simp: td_inv_def)
    then show ?thesis using less.IH [of d] less.prems(1) by (meson dual_order.trans less_imp_le less_trans)
  qed
qed

definition sample_sys :: "bool \<times> tx_id option \<Rightarrow> bool \<Rightarrow> usize \<Rightarrow> tx_id list \<Rightarrow> tx_id list \<Rightarrow> tx_id set \<Rightarrow>
    (tx_id \<rightharpoonup> tx_id list \<times> bool) \<Rightarrow> td_sys" where
  "sample_sys s1 on0 i p c e h = \<lparr>sys_td = \<lparr>td_num_txs = 2,
     dependent_states = [\<lparr>onboard = on0, blocker = None\<rparr>, \<lparr>onboard = fst s1, blocker = snd s1\<rparr>],
     affect_txs = [[], []], td_index = i\<rparr>, pending = p, claimed = c, executing = e, held = h,
     committed = 0, committing = []\<rparr>"

lemma sample_sys_steps:
  "td_step\<^sup>*\<^sup>* (td_sys_new 2) (sample_sys (True, Some 1) False 2 [] [] {} Map.empty)"
proof -
  let ?S = sample_sys
  note defs = sample_sys_def td_fetch_add_def td_take_def td_key_tx_def set_state_def clear_affects_def list_get_def
  have 0: "td_sys_new 2 = ?S (True, None) True 0 [] [] {} Map.empty"
    by (simp add: td_sys_new_def tx_dependency_new_def dependent_state_default_def sample_sys_def numeral_2_eq_2)
  have 1: "td_step (?S (True, None) True 0 [] [] {} Map.empty) (?S (True, None) True 1 [0] [] {} Map.empty)"
    using td_step.fetch [of "?S (True, None) True 0 [] [] {} Map.empty"] by (simp add: defs)
  have 2: "td_step (?S (True, None) True 1 [0] [] {} Map.empty) (?S (True, None) True 2 [1, 0] [] {} Map.empty)"
    using td_step.fetch [of "?S (True, None) True 1 [0] [] {} Map.empty"] by (simp add: defs numeral_2_eq_2)
  have 3: "td_step (?S (True, None) True 2 [1, 0] [] {} Map.empty) (?S (True, None) False 2 [1] [0] {} Map.empty)"
    using td_step.take [of 0 "?S (True, None) True 2 [1, 0] [] {} Map.empty"] by (simp add: defs)
  have 4: "td_step (?S (True, None) False 2 [1] [0] {} Map.empty) (?S (False, None) False 2 [] [1, 0] {} Map.empty)"
    using td_step.take [of 1 "?S (True, None) False 2 [1] [0] {} Map.empty"] by (simp add: defs)
  have 5: "td_step (?S (False, None) False 2 [] [1, 0] {} Map.empty) (?S (False, None) False 2 [] [0] {1} Map.empty)"
    using td_step.start [of 1 "?S (False, None) False 2 [] [1, 0] {} Map.empty"] by (simp add: defs)
  have 6: "td_step (?S (False, None) False 2 [] [0] {1} Map.empty) (?S (True, Some 1) False 2 [] [0] {} Map.empty)"
    using td_step.key [of 1 "?S (False, None) False 2 [] [0] {1} Map.empty"] by (simp add: defs)
  have 7: "td_step (?S (True, Some 1) False 2 [] [0] {} Map.empty) (?S (True, Some 1) False 2 [] [] {} [0 \<mapsto> ([], False)])"
    using td_step.remove_useless [of 0 "?S (True, Some 1) False 2 [] [0] {} Map.empty"] by (simp add: defs)
  have 8: "td_step (?S (True, Some 1) False 2 [] [] {} [0 \<mapsto> ([], False)]) (?S (True, Some 1) False 2 [] [] {} Map.empty)"
    using td_step.remove_end [of "?S (True, Some 1) False 2 [] [] {} [0 \<mapsto> ([], False)]" 0 False] by (simp add: defs)
  note step = converse_rtranclp_into_rtranclp [of td_step]
  show ?thesis
    unfolding 0
    by (rule step [OF 1] step [OF 2] step [OF 3] step [OF 4] step [OF 5] step [OF 6] step [OF 7] step [OF 8]
        rtranclp.rtrancl_refl)+
qed

theorem dependency_never_stuck_witness:
  "\<exists>b\<le>1. onboard (ds (sys_td (sample_sys (True, Some 1) False 2 [] [] {} Map.empty)) b) \<and>
     blocker (ds (sys_td (sample_sys (True, Some 1) False 2 [] [] {} Map.empty)) b) = Some b \<and>
     committed (sample_sys (True, Some 1) False 2 [] [] {} Map.empty) < b"
  using dependency_never_stuck [OF sample_sys_steps, of 1] by (simp add: sample_sys_def)

text \<open>\<^bold>\<open>C30\<close>. \<open>remove\<close> releases exactly the transactions that still wait for \<open>d\<close>; a stale reverse
  edge releases nothing. The result is a function of the set of edges, so the order in which the
  hash set is visited is irrelevant, and it never panics on a well-formed graph.\<close>

theorem td_remove_releases:
  assumes "td_wf td" and "d < td_num_txs td"
  shows "td_remove d pop td =
    Some (if handoff d pop (set (affect_txs td ! d)) td then Some (Suc d) else None,
          clear_affects d (release d pop (set (affect_txs td ! d)) td))"
proof (cases "affect_txs td ! d = []")
  case True
  have "clear_affects d td = td"
    using list_update_id [of "affect_txs td" d] True by (simp add: clear_affects_def)
  then show ?thesis
    using True assms by (simp add: td_remove_def wf_lengths release_none handoff_def)
next
  case False
  have "remove_loop d pop (affect_txs td ! d) None td =
      Some (if handoff d pop (set (affect_txs td ! d)) td then Some (Suc d) else None,
            release d pop (set (affect_txs td ! d)) td)"
    using wf_edge [OF assms] wf_lengths(1) [OF assms(1)] by (intro remove_loop_closed) simp
  then show ?thesis using False assms by (simp add: td_remove_def wf_lengths)
qed

theorem td_remove_releases_witness:
  "let td = \<lparr>td_num_txs = 3, dependent_states = [\<lparr>onboard = False, blocker = None\<rparr>,
      \<lparr>onboard = True, blocker = Some 0\<rparr>, \<lparr>onboard = True, blocker = Some 1\<rparr>],
      affect_txs = [[2, 1], [2], []], td_index = 3\<rparr>
   in td_wf td \<and> td_remove 0 True td =
     Some (if handoff 0 True (set (affect_txs td ! 0)) td then Some (Suc 0) else None,
          clear_affects 0 (release 0 True (set (affect_txs td ! 0)) td)) \<and> handoff 0 True {2, 1} td"
  unfolding Let_def
  by (intro conjI td_remove_releases)
    (simp_all add: td_wf_def handoff_def numeral_3_eq_3 less_Suc_eq all_conj_distrib)

end
