(* ===== verification/Metrics.thy ===== *)
theory Metrics
  imports Prelude
begin

text \<open>
  \<open>scheduler/metrics.rs\<close>: the counters of one block execution and their recorders. Counters are
  natural numbers here, where the code's atomics wrap, and a duration is its number of nanoseconds,
  without the conversion to \<open>usize\<close>.
\<close>

record execute_metrics =
  total_tx_cnt :: usize
  conflict_cnt :: usize
  validation_cnt :: usize
  execution_cnt :: usize
  reset_validation_idx_cnt :: usize
  useless_dependent_update :: usize
  conflict_by_miner :: usize
  conflict_by_error :: usize
  conflict_by_estimate :: usize
  conflict_by_version :: usize
  one_attempt_with_dependency :: usize
  more_attempts_with_dependency :: usize
  no_dependency_txs :: usize
  conflict_txs :: usize
  execution_time :: usize
  commit_time :: usize
  total_time :: usize

definition metrics_default :: execute_metrics where
  "metrics_default =
    \<lparr>total_tx_cnt = 0, conflict_cnt = 0, validation_cnt = 0, execution_cnt = 0, reset_validation_idx_cnt = 0,
     useless_dependent_update = 0, conflict_by_miner = 0, conflict_by_error = 0, conflict_by_estimate = 0,
     conflict_by_version = 0, one_attempt_with_dependency = 0, more_attempts_with_dependency = 0,
     no_dependency_txs = 0, conflict_txs = 0, execution_time = 0, commit_time = 0, total_time = 0\<rparr>"

definition record_block_start :: "usize \<Rightarrow> execute_metrics \<Rightarrow> execute_metrics" where
  "record_block_start n m = m\<lparr>total_tx_cnt := n\<rparr>"

definition record_execution_attempt :: "execute_metrics \<Rightarrow> execute_metrics" where
  "record_execution_attempt m = m\<lparr>execution_cnt := execution_cnt m + 1\<rparr>"

definition record_validation_attempt :: "execute_metrics \<Rightarrow> execute_metrics" where
  "record_validation_attempt m = m\<lparr>validation_cnt := validation_cnt m + 1\<rparr>"

definition record_estimate_conflict :: "execute_metrics \<Rightarrow> execute_metrics" where
  "record_estimate_conflict m = m\<lparr>conflict_cnt := conflict_cnt m + 1, conflict_by_estimate := conflict_by_estimate m + 1\<rparr>"

definition record_beneficiary_conflict :: "execute_metrics \<Rightarrow> execute_metrics" where
  "record_beneficiary_conflict m = m\<lparr>conflict_cnt := conflict_cnt m + 1, conflict_by_miner := conflict_by_miner m + 1\<rparr>"

definition record_evm_error_conflict :: "execute_metrics \<Rightarrow> execute_metrics" where
  "record_evm_error_conflict m = m\<lparr>conflict_cnt := conflict_cnt m + 1, conflict_by_error := conflict_by_error m + 1\<rparr>"

definition record_version_conflict :: "execute_metrics \<Rightarrow> execute_metrics" where
  "record_version_conflict m = m\<lparr>conflict_cnt := conflict_cnt m + 1, conflict_by_version := conflict_by_version m + 1\<rparr>"

definition record_finalized :: "usize \<Rightarrow> bool \<Rightarrow> execute_metrics \<Rightarrow> execute_metrics" where
  "record_finalized incarnation has_dependency m =
    (let m1 = (if incarnation > 1 then m\<lparr>conflict_txs := conflict_txs m + 1\<rparr> else m)
     in if has_dependency then
          if incarnation = 1 then m1\<lparr>one_attempt_with_dependency := one_attempt_with_dependency m1 + 1\<rparr>
          else if incarnation > 2 then m1\<lparr>more_attempts_with_dependency := more_attempts_with_dependency m1 + 1\<rparr>
          else m1
        else m1\<lparr>no_dependency_txs := no_dependency_txs m1 + 1\<rparr>)"

definition record_useless_dependency_update :: "execute_metrics \<Rightarrow> execute_metrics" where
  "record_useless_dependency_update m = m\<lparr>useless_dependent_update := useless_dependent_update m + 1\<rparr>"

definition record_commit_time :: "usize \<Rightarrow> execute_metrics \<Rightarrow> execute_metrics" where
  "record_commit_time ns m = m\<lparr>commit_time := commit_time m + ns\<rparr>"

definition record_execution_time :: "usize \<Rightarrow> execute_metrics \<Rightarrow> execute_metrics" where
  "record_execution_time ns m = m\<lparr>execution_time := ns\<rparr>"

definition record_validation_resets :: "usize \<Rightarrow> execute_metrics \<Rightarrow> execute_metrics" where
  "record_validation_resets n m = m\<lparr>reset_validation_idx_cnt := n\<rparr>"

definition record_total_time :: "usize \<Rightarrow> execute_metrics \<Rightarrow> execute_metrics" where
  "record_total_time ns m = m\<lparr>total_time := ns\<rparr>"

text \<open>\<open>report\<close>: the histogram samples in declaration order; \<open>execution_time\<close> is skipped when zero.\<close>

definition report :: "execute_metrics \<Rightarrow> (string \<times> usize) list" where
  "report m =
    [(''total_tx_cnt'', total_tx_cnt m), (''conflict_cnt'', conflict_cnt m), (''validation_cnt'', validation_cnt m),
     (''execution_cnt'', execution_cnt m), (''reset_validation_idx_cnt'', reset_validation_idx_cnt m),
     (''useless_dependent_update'', useless_dependent_update m), (''conflict_by_miner'', conflict_by_miner m),
     (''conflict_by_error'', conflict_by_error m), (''conflict_by_estimate'', conflict_by_estimate m),
     (''conflict_by_version'', conflict_by_version m), (''one_attempt_with_dependency'', one_attempt_with_dependency m),
     (''more_attempts_with_dependency'', more_attempts_with_dependency m), (''no_dependency_txs'', no_dependency_txs m),
     (''conflict_txs'', conflict_txs m)] @
    (if execution_time m > 0 then [(''execution_time'', execution_time m)] else []) @
    [(''commit_time'', commit_time m), (''total_time'', total_time m)]"

section \<open>The recorders as events\<close>

datatype metric_event =
    MStart usize | MExecution | MValidation | MEstimate | MBeneficiary | MEvmError | MVersion
  | MFinalized usize bool | MUseless | MCommitTime usize | MExecutionTime usize | MResets usize | MTotal usize

fun record_event :: "metric_event \<Rightarrow> execute_metrics \<Rightarrow> execute_metrics" where
  "record_event (MStart n) = record_block_start n"
| "record_event MExecution = record_execution_attempt"
| "record_event MValidation = record_validation_attempt"
| "record_event MEstimate = record_estimate_conflict"
| "record_event MBeneficiary = record_beneficiary_conflict"
| "record_event MEvmError = record_evm_error_conflict"
| "record_event MVersion = record_version_conflict"
| "record_event (MFinalized i d) = record_finalized i d"
| "record_event MUseless = record_useless_dependency_update"
| "record_event (MCommitTime n) = record_commit_time n"
| "record_event (MExecutionTime n) = record_execution_time n"
| "record_event (MResets n) = record_validation_resets n"
| "record_event (MTotal n) = record_total_time n"

lemmas recorder_defs = record_block_start_def record_execution_attempt_def record_validation_attempt_def
  record_estimate_conflict_def record_beneficiary_conflict_def record_evm_error_conflict_def record_version_conflict_def
  record_finalized_def record_useless_dependency_update_def record_commit_time_def record_execution_time_def
  record_validation_resets_def record_total_time_def

text \<open>The events counted by the finality statistics, by incarnation and dependency.\<close>

definition finalized_events :: "(usize \<Rightarrow> bool \<Rightarrow> bool) \<Rightarrow> metric_event list \<Rightarrow> nat" where
  "finalized_events p es = length (filter (\<lambda>e. case e of MFinalized i d \<Rightarrow> p i d | _ \<Rightarrow> False) es)"

lemma metrics_counts:
  "conflict_cnt (fold record_event es m) + conflict_by_miner m + conflict_by_error m + conflict_by_estimate m + conflict_by_version m =
     conflict_cnt m + conflict_by_miner (fold record_event es m) + conflict_by_error (fold record_event es m) +
     conflict_by_estimate (fold record_event es m) + conflict_by_version (fold record_event es m) \<and>
   conflict_txs (fold record_event es m) = conflict_txs m + finalized_events (\<lambda>i d. i > 1) es \<and>
   one_attempt_with_dependency (fold record_event es m) = one_attempt_with_dependency m + finalized_events (\<lambda>i d. d \<and> i = 1) es \<and>
   more_attempts_with_dependency (fold record_event es m) =
     more_attempts_with_dependency m + finalized_events (\<lambda>i d. d \<and> i > 2) es \<and>
   no_dependency_txs (fold record_event es m) = no_dependency_txs m + finalized_events (\<lambda>i d. \<not> d) es"
proof (induction es arbitrary: m)
  case (Cons e es)
  show ?case using Cons.IH [of "record_event e m"]
    by (cases e) (auto simp: recorder_defs finalized_events_def Let_def split: if_splits)
qed (simp add: finalized_events_def)

text \<open>\<^bold>\<open>C39\<close>. The metrics are consistent under every sequence of recorded events: conflicts are exactly
  split by their four causes, and the finality statistics count exactly the finalized
  transactions they describe.\<close>

theorem metrics_consistent:
  "let m = fold record_event es metrics_default
   in conflict_cnt m = conflict_by_miner m + conflict_by_error m + conflict_by_estimate m + conflict_by_version m \<and>
    conflict_txs m = finalized_events (\<lambda>i d. i > 1) es \<and>
    one_attempt_with_dependency m = finalized_events (\<lambda>i d. d \<and> i = 1) es \<and>
    more_attempts_with_dependency m = finalized_events (\<lambda>i d. d \<and> i > 2) es \<and>
    no_dependency_txs m = finalized_events (\<lambda>i d. \<not> d) es"
  using metrics_counts [of es metrics_default] unfolding Let_def by (simp add: metrics_default_def)

end
