(* ===== verification/Wait_Slot.thy ===== *)
theory Wait_Slot
  imports Prelude
begin

text \<open>
  \<open>scheduler/wait.rs\<close>: the single-consumer notification slot of the finality and commit threads, over
  the parking token of \<open>std::thread\<close>: \<open>unpark\<close> leaves one token, and \<open>park_timeout\<close> returns when it
  consumes the token or when the time is over.
\<close>

section \<open>Operations\<close>

record wait_slot =
  slot_thread :: bool
  slot_token :: bool

definition wait_slot_new :: wait_slot where
  "wait_slot_new = \<lparr>slot_thread = False, slot_token = False\<rparr>"

text \<open>Registering twice panics.\<close>

definition register_current_thread :: "wait_slot \<Rightarrow> wait_slot option" where
  "register_current_thread s = (if slot_thread s then None else Some (s\<lparr>slot_thread := True\<rparr>))"

definition notify :: "wait_slot \<Rightarrow> wait_slot" where
  "notify s = (if slot_thread s then s\<lparr>slot_token := True\<rparr> else s)"

section \<open>Waiting\<close>

text \<open>\<open>wait_while\<close> looks at its predicate twice before it parks.\<close>

datatype wait_pc = WFirst | WSecond | WParked

text \<open>One step of \<open>wait_while\<close> when the predicate is \<open>blocked\<close>: the new position, or \<open>Some None\<close> when the
  call returns. A parked thread without a token does not step.\<close>

fun wait_while :: "bool \<Rightarrow> wait_pc \<Rightarrow> wait_slot \<Rightarrow> (wait_pc option \<times> wait_slot) option" where
  "wait_while blocked WFirst w = Some (if blocked then Some WSecond else None, w)"
| "wait_while blocked WSecond w = Some (if blocked then Some WParked else None, w)"
| "wait_while blocked WParked w = (if slot_token w then Some (None, w\<lparr>slot_token := False\<rparr>) else None)"

lemma notify_fields [simp]:
  "slot_thread (notify w) = slot_thread w" "slot_token (notify w) \<longleftrightarrow> slot_token w \<or> slot_thread w" "notify (notify w) = notify w"
  by (auto simp: notify_def)

end
