(* ===== verification/Scheduler.thy ===== *)
theory Scheduler
  imports Executor Sched_Context Tx_Dependency Metrics Wait_Slot
begin

text \<open>
  \<open>scheduler.rs\<close> and the state part of \<open>scheduler/control.rs\<close>: the scheduler's shared state and the
  operations of its workers, of the finality thread and of the commit thread. An operation that holds
  the lock of a transaction's state is one function; \<open>None\<close> is a panic (an index out of range or a
  failed assertion).
\<close>

section \<open>State\<close>

record ('r, 'e) scheduler =
  s_txs :: "tx_env list"
  results :: "'r tx_execution_outcome list"
  tx_states :: "tx_state list"
  tx_results :: "('r, 'e) transaction_result option list"
  s_dependency :: tx_dependency
  s_memory :: mv_memory
  scheduler_ctx :: scheduler_context
  s_beneficiary :: beneficiary
  started :: bool
  s_abort :: bool
  s_abort_reason :: "'e abort_reason option"
  finality_wait :: wait_slot
  commit_wait :: wait_slot
  s_metrics :: execute_metrics

abbreviation block_size :: "('r, 'e) scheduler \<Rightarrow> usize" where
  "block_size s \<equiv> length (s_txs s)"

definition scheduler_build :: "tx_env list \<Rightarrow> beneficiary \<Rightarrow> ('r, 'e) scheduler" where
  "scheduler_build txs b =
    \<lparr>s_txs = txs, results = [], tx_states = replicate (length txs) tx_state_default,
     tx_results = replicate (length txs) None, s_dependency = tx_dependency_new (length txs),
     s_memory = (\<lambda>_. Map.empty), scheduler_ctx = context_new (length txs), s_beneficiary = b,
     started = False, s_abort = False, s_abort_reason = None, finality_wait = wait_slot_new, commit_wait = wait_slot_new,
     s_metrics = metrics_default\<rparr>"

abbreviation set_tx_state :: "tx_id \<Rightarrow> tx_state \<Rightarrow> ('r, 'e) scheduler \<Rightarrow> ('r, 'e) scheduler" where
  "set_tx_state t st s \<equiv> s\<lparr>tx_states := (tx_states s)[t := st]\<rparr>"

abbreviation set_tx_result :: "tx_id \<Rightarrow> ('r, 'e) transaction_result option \<Rightarrow> ('r, 'e) scheduler \<Rightarrow> ('r, 'e) scheduler" where
  "set_tx_result t r s \<equiv> s\<lparr>tx_results := (tx_results s)[t := r]\<rparr>"

abbreviation bump_metrics :: "(execute_metrics \<Rightarrow> execute_metrics) \<Rightarrow> ('r, 'e) scheduler \<Rightarrow> ('r, 'e) scheduler" where
  "bump_metrics f s \<equiv> s\<lparr>s_metrics := f (s_metrics s)\<rparr>"

text \<open>An operation of the context that may panic.\<close>

definition on_ctx :: "(scheduler_context \<Rightarrow> scheduler_context option) \<Rightarrow> ('r, 'e) scheduler \<Rightarrow> ('r, 'e) scheduler option" where
  "on_ctx f s = map_option (\<lambda>c. s\<lparr>scheduler_ctx := c\<rparr>) (f (scheduler_ctx s))"

definition on_dependency :: "(tx_dependency \<Rightarrow> tx_dependency option) \<Rightarrow> ('r, 'e) scheduler \<Rightarrow> ('r, 'e) scheduler option" where
  "on_dependency f s = map_option (\<lambda>d. s\<lparr>s_dependency := d\<rparr>) (f (s_dependency s))"

section \<open>Abort\<close>

definition cancel :: "('r, 'e) scheduler \<Rightarrow> ('r, 'e) scheduler" where
  "cancel s = s\<lparr>s_abort := True, finality_wait := notify (finality_wait s), commit_wait := notify (commit_wait s)\<rparr>"

text \<open>The first cause is kept.\<close>

definition abort :: "'e abort_reason \<Rightarrow> ('r, 'e) scheduler \<Rightarrow> ('r, 'e) scheduler" where
  "abort reason s =
    cancel (s\<lparr>s_abort_reason := (case s_abort_reason s of Some r \<Rightarrow> Some r | None \<Rightarrow> Some reason)\<rparr>)"

definition is_aborted :: "('r, 'e) scheduler \<Rightarrow> bool" where
  "is_aborted s = s_abort s"

section \<open>Claiming work\<close>

definition execution_task :: "tx_id \<Rightarrow> ('r, 'e) scheduler \<Rightarrow> (task option \<times> ('r, 'e) scheduler) option" where
  "execution_task execute_id s =
    do { tx \<leftarrow> list_get (tx_states s) execute_id;
         (if status tx = Initial \<or> status tx = Conflict then
            Some (Some (Execution (TxVersion execute_id (incarnation tx + 1))),
                  set_tx_state execute_id (tx\<lparr>status := Executing, incarnation := incarnation tx + 1\<rparr>) s)
          else if status tx = Executing then Some (None, s)
          else do { (_, td) \<leftarrow> td_remove execute_id False (s_dependency s);
                    Some (None, bump_metrics record_useless_dependency_update (s\<lparr>s_dependency := td\<rparr>)) }) }"

text \<open>The claim of a validation under the state lock.\<close>

definition validation_task :: "tx_id \<Rightarrow> ('r, 'e) scheduler \<Rightarrow> (task option \<times> ('r, 'e) scheduler) option" where
  "validation_task i s =
    do { tx \<leftarrow> list_get (tx_states s) i;
         (if status tx = Executed \<or> status tx = Unconfirmed
          then Some (Some (Validation (TxVersion i (incarnation tx))), set_tx_state i (tx\<lparr>status := Validating\<rparr>) s)
          else Some (None, s)) }"

text \<open>One iteration of \<open>next\<close>: a validation first, an execution otherwise.\<close>

definition next_iteration :: "('r, 'e) scheduler \<Rightarrow> (task option \<times> ('r, 'e) scheduler) option" where
  "next_iteration s =
    do { let (_, c1) = should_schedule (td_index (s_dependency s)) (scheduler_ctx s);
         let (v, c2) = next_validation_idx (td_index (s_dependency s)) c1;
         let s1 = s\<lparr>scheduler_ctx := c2\<rparr>;
         (r, s2) \<leftarrow> (case v of Some i \<Rightarrow> validation_task i s1 | None \<Rightarrow> Some (None, s1));
         (case r of
            Some t \<Rightarrow> Some (Some t, s2)
          | None \<Rightarrow>
              do { (e, td) \<leftarrow> td_next (s_dependency s2);
                   (case e of
                      Some i \<Rightarrow> execution_task i (s2\<lparr>s_dependency := td\<rparr>)
                    | None \<Rightarrow> Some (None, s2\<lparr>s_dependency := td\<rparr>)) }) }"

text \<open>\<open>next\<close> spins until there is work, so it takes the number of iterations it may make and the effect
  \<open>env i\<close> of the other threads before the \<open>i\<close>-th; \<open>Inl\<close> is a call that is still spinning.\<close>

fun next_task ::
  "nat \<Rightarrow> (nat \<Rightarrow> ('r, 'e) scheduler \<Rightarrow> ('r, 'e) scheduler) \<Rightarrow> ('r, 'e) scheduler \<Rightarrow>
    (unit + task option) option \<times> ('r, 'e) scheduler" where
  "next_task 0 env s = (Some (Inl ()), s)"
| "next_task (Suc n) env s =
    (let s1 = env n s
     in if finished (scheduler_ctx s1) \<or> is_aborted s1 then (Some (Inr None), s1)
        else case next_iteration s1 of
          None \<Rightarrow> (None, s1)
        | Some (Some t, s2) \<Rightarrow> (Some (Inr (Some t)), s2)
        | Some (None, s2) \<Rightarrow> next_task n env s2)"

section \<open>Execution\<close>

definition latest_unfinalized_blocker :: "tx_id set \<Rightarrow> ('r, 'e) scheduler \<Rightarrow> tx_id option" where
  "latest_unfinalized_blocker blockers s =
    (let live = Set.filter (\<lambda>t. finality_idx (scheduler_ctx s) \<le> t) blockers
     in if Set.is_empty live then None else Some (Max live))"

definition mark_mv_estimate :: "tx_id \<Rightarrow> location set \<Rightarrow> mv_memory \<Rightarrow> mv_memory" where
  "mark_mv_estimate txid ws m = (\<lambda>l.
    if l \<in> ws then (case m l txid of Some e \<Rightarrow> (m l)(txid \<mapsto> e\<lparr>me_estimate := True\<rparr>) | None \<Rightarrow> m l) else m l)"

text \<open>Entries of the previous incarnation that the new one no longer writes are removed.\<close>

definition remove_stale_writes :: "tx_id \<Rightarrow> location set \<Rightarrow> location set \<Rightarrow> mv_memory \<Rightarrow> mv_memory" where
  "remove_stale_writes txid old new m = (\<lambda>l. if l \<in> old \<and> l \<notin> new then (m l)(txid := None) else m l)"

definition record_blocked :: "bool \<Rightarrow> execute_metrics \<Rightarrow> execute_metrics" where
  "record_blocked by_beneficiary = (if by_beneficiary then record_beneficiary_conflict else record_estimate_conflict)"

text \<open>What a successful incarnation does with its previous result.\<close>

definition drop_stale_writes ::
  "tx_id \<Rightarrow> ('r, 'e) transaction_result option \<Rightarrow> location set \<Rightarrow> ('r, 'e) scheduler \<Rightarrow> ('r, 'e) scheduler" where
  "drop_stale_writes txid last_result ws s =
    (case last_result of
       Some lr \<Rightarrow> s\<lparr>s_memory := remove_stale_writes txid (write_set lr) ws (s_memory s)\<rparr>
     | None \<Rightarrow> s)"

definition writes_new_locations :: "('r, 'e) transaction_result option \<Rightarrow> location set \<Rightarrow> bool" where
  "writes_new_locations last_result ws = (case last_result of Some lr \<Rightarrow> \<not> ws \<subseteq> write_set lr | None \<Rightarrow> True)"

definition publish_history ::
  "revm_ops \<Rightarrow> tx_version \<Rightarrow> bool \<Rightarrow> 'r speculative_result \<Rightarrow> beneficiary \<Rightarrow> (bool \<times> beneficiary) option" where
  "publish_history R v conflict sr b = (if conflict then record_estimate v b else record_execution R v sr b)"

text \<open>The dependency update after a successful incarnation: a conflict waits for its latest blocker,
  otherwise the dependents are released and the successor may be handed over.\<close>

definition settle_execution ::
  "tx_id \<Rightarrow> incarnation_accesses \<Rightarrow> ('r, 'e) scheduler \<Rightarrow> (tx_id option \<times> ('r, 'e) scheduler) option" where
  "settle_execution txid acc s =
    (if is_blocked acc then
       do { s' \<leftarrow> on_dependency (td_add txid (latest_unfinalized_blocker (ia_blocking_txs acc) s))
              (bump_metrics (record_blocked (ia_blocked_by_beneficiary acc)) s);
            Some (None, s') }
     else
       do { (nxt, td) \<leftarrow> td_remove txid True (s_dependency s);
            Some (nxt, s\<lparr>s_dependency := td\<rparr>) })"

text \<open>The arm for a successful incarnation: \<open>Inl\<close> is the early return after an abort; otherwise the
  conflict flag, \<open>write_new_locations\<close> and the handed-over successor.\<close>

definition execute_ok ::
  "revm_ops \<Rightarrow> tx_version \<Rightarrow> 'r speculative_result \<Rightarrow> incarnation_accesses \<Rightarrow> ('r, 'e) scheduler \<Rightarrow>
    ((unit + bool \<times> bool \<times> tx_id option) \<times> ('r, 'e) scheduler) option" where
  "execute_ok R v sr acc s =
    do { let txid = v_txid v;
         let conflict = is_blocked acc;
         last_result \<leftarrow> list_get (tx_results s) txid;
         let new_locations = writes_new_locations last_result (ia_write_set acc);
         let s1 = drop_stale_writes txid last_result (ia_write_set acc) s;
         (history_published, b) \<leftarrow> publish_history R v conflict sr (s_beneficiary s1);
         let s2 = s1\<lparr>s_beneficiary := b\<rparr>;
         if \<not> history_published then
           Some (Inl (), abort (ParallelError txid ''stale beneficiary history publication'') s2)
         else do {
           (nxt, s3) \<leftarrow> settle_execution txid acc s2;
           Some (Inr (conflict, new_locations, nxt),
             set_tx_result txid (Some \<lparr>read_set = ia_read_set acc, write_set = ia_write_set acc, execute_result = Inr sr\<rparr>) s3) } }"

text \<open>A failed incarnation keeps the previous write set, as estimates.\<close>

definition last_write_set :: "('r, 'e) transaction_result option \<Rightarrow> location set" where
  "last_write_set last_result = (case last_result of Some lr \<Rightarrow> write_set lr | None \<Rightarrow> {})"

definition estimate_last_writes ::
  "tx_id \<Rightarrow> ('r, 'e) transaction_result option \<Rightarrow> ('r, 'e) scheduler \<Rightarrow> ('r, 'e) scheduler" where
  "estimate_last_writes txid last_result s =
    (case last_result of
       Some lr \<Rightarrow> set_tx_result txid (Some (lr\<lparr>write_set := {}\<rparr>))
         (s\<lparr>s_memory := mark_mv_estimate txid (write_set lr) (s_memory s)\<rparr>)
     | None \<Rightarrow> s)"

text \<open>The dependency update after a failure: wait for the blocker, or wait for the commit of the
  predecessor; at the commit head the failure aborts.\<close>

definition settle_failure ::
  "tx_id \<Rightarrow> 'e evm_error \<Rightarrow> incarnation_accesses \<Rightarrow> ('r, 'e) scheduler \<Rightarrow> ('r, 'e) scheduler option" where
  "settle_failure txid e acc s =
    (if is_blocked acc then
       on_dependency (td_add txid (latest_unfinalized_blocker (ia_blocking_txs acc) s))
         (bump_metrics (record_blocked (ia_blocked_by_beneficiary acc)) s)
     else
       let s1 = bump_metrics record_evm_error_conflict s;
           s2 = (if committed_idx (scheduler_ctx s1) = txid
                 then abort (case e of TransactionError _ \<Rightarrow> FallbackSequential | _ \<Rightarrow> FatalEvmError txid) s1
                 else s1)
       in on_dependency (td_key_tx txid (committed_idx (scheduler_ctx s2))) s2)"

text \<open>The arm for a failed incarnation.\<close>

definition execute_err ::
  "tx_version \<Rightarrow> 'e evm_error \<Rightarrow> incarnation_accesses \<Rightarrow> ('r, 'e) scheduler \<Rightarrow>
    ((unit + bool \<times> bool \<times> tx_id option) \<times> ('r, 'e) scheduler) option" where
  "execute_err v e acc s =
    do { let txid = v_txid v;
         last_result \<leftarrow> list_get (tx_results s) txid;
         let s1 = estimate_last_writes txid last_result s;
         (history_published, b) \<leftarrow> record_estimate v (s_beneficiary s1);
         let s2 = s1\<lparr>s_beneficiary := b\<rparr>;
         if \<not> history_published then
           Some (Inl (), abort (ParallelError txid ''stale beneficiary estimate publication'') s2)
         else do {
           s3 \<leftarrow> settle_failure txid e acc
             (set_tx_result txid (Some \<lparr>read_set = [], write_set = last_write_set last_result, execute_result = Inl e\<rparr>) s2);
           Some (Inr (True, False, None), s3) } }"

text \<open>The end of \<open>execute_task\<close>: the new status, the execution frontier, and the validation rewind or
  the follow-up task.\<close>

definition execute_done ::
  "tx_version \<Rightarrow> bool \<Rightarrow> bool \<Rightarrow> tx_id option \<Rightarrow> ('r, 'e) scheduler \<Rightarrow> (task option \<times> ('r, 'e) scheduler) option" where
  "execute_done v conflict new_locations nxt s =
    do { let txid = v_txid v;
         tx \<leftarrow> list_get (tx_states s) txid;
         let tx1 = tx\<lparr>status := (if conflict then Conflict else Executed)\<rparr>;
         s1 \<leftarrow> on_ctx (context_executed txid) (set_tx_state txid tx1 s);
         (case nxt of
            Some i \<Rightarrow> do { s2 \<leftarrow> on_ctx (rewind_validation_to txid) s1; execution_task i s2 }
          | None \<Rightarrow>
              if conflict then do { s2 \<leftarrow> on_ctx (rewind_validation_to (txid + 1)) s1; Some (None, s2) }
              else if new_locations then do { s2 \<leftarrow> on_ctx (rewind_validation_to txid) s1; Some (None, s2) }
              else Some (Some (Validation (TxVersion txid (v_incarnation v))),
                         set_tx_state txid (tx1\<lparr>status := Validating\<rparr>) s1)) }"

text \<open>\<open>execute_task\<close>. The executor returns the execution and the memory with its publications.\<close>

definition execute_task ::
  "revm_ops \<Rightarrow> (tx_version \<Rightarrow> tx_env \<Rightarrow> ('r, 'e) scheduler \<Rightarrow> (('r, 'e) incarnation_execution \<times> mv_memory) option) \<Rightarrow>
    tx_version \<Rightarrow> ('r, 'e) scheduler \<Rightarrow> (task option \<times> ('r, 'e) scheduler) option" where
  "execute_task R executor v s =
    do { let txid = v_txid v;
         tx \<leftarrow> list_get (tx_states s) txid;
         if status tx \<noteq> Executing then Some (None, s)
         else if incarnation tx \<noteq> v_incarnation v then
           Some (None, abort (ParallelError txid ''inconsistent incarnation during execution'') s)
         else do {
           let s1 = bump_metrics record_execution_attempt s;
           tx_env \<leftarrow> list_get (s_txs s1) txid;
           (ie, m) \<leftarrow> executor v tx_env s1;
           let s2 = s1\<lparr>s_memory := m\<rparr>;
           (r, s3) \<leftarrow> (case ie_result ie of
              Inr sr \<Rightarrow> execute_ok R v sr (ie_accesses ie) s2
            | Inl e \<Rightarrow> execute_err v e (ie_accesses ie) s2);
           (case r of
              Inl _ \<Rightarrow> Some (None, s3)
            | Inr (conflict, new_locations, nxt) \<Rightarrow> execute_done v conflict new_locations nxt s3) } }"

section \<open>Validation\<close>

text \<open>\<open>validate\<close> after the scan of the read set: \<open>conflict\<close> and \<open>dep\<close> are what the scan found, \<open>ts\<close> the
  timestamp taken before it.\<close>

definition validate_conflict ::
  "tx_version \<Rightarrow> location set \<Rightarrow> ('r, 'e) scheduler \<Rightarrow> (bool \<times> ('r, 'e) scheduler) option" where
  "validate_conflict v ws s =
    do { let s1 = bump_metrics record_version_conflict s;
         let s2 = s1\<lparr>s_memory := mark_mv_estimate (v_txid v) ws (s_memory s1)\<rparr>;
         (ok, b) \<leftarrow> invalidate v (s_beneficiary s2);
         let s3 = s2\<lparr>s_beneficiary := b\<rparr>;
         Some (if ok then (True, s3)
               else (False, abort (ParallelError (v_txid v) ''stale beneficiary history validation'') s3)) }"

text \<open>A conflicting transaction waits for its latest dependency unless that is final already.\<close>

definition requeue_conflict :: "tx_id \<Rightarrow> bool \<Rightarrow> tx_id option \<Rightarrow> ('r, 'e) scheduler \<Rightarrow> ('r, 'e) scheduler option" where
  "requeue_conflict txid conflict dep s =
    (if conflict
     then on_dependency (td_add txid
       (case dep of Some d \<Rightarrow> if finality_idx (scheduler_ctx s) \<le> d then Some d else None | None \<Rightarrow> None)) s
     else Some s)"

definition wake_finality :: "tx_id \<Rightarrow> ('r, 'e) scheduler \<Rightarrow> ('r, 'e) scheduler" where
  "wake_finality txid s =
    (if txid = finality_idx (scheduler_ctx s) then s\<lparr>finality_wait := notify (finality_wait s)\<rparr> else s)"

definition validate_finish ::
  "tx_version \<Rightarrow> usize \<Rightarrow> location set \<Rightarrow> bool \<Rightarrow> tx_id option \<Rightarrow> ('r, 'e) scheduler \<Rightarrow> ('r, 'e) scheduler option" where
  "validate_finish v ts ws conflict dep s =
    do { let txid = v_txid v;
         (go, s1) \<leftarrow> (if conflict then validate_conflict v ws s else Some (True, s));
         if \<not> go then Some s1
         else do {
           s2 \<leftarrow> (if conflict then on_ctx (rewind_validation_to (txid + 1)) s1
                 else on_ctx (context_unconfirmed txid ts) s1);
           tx \<leftarrow> list_get (tx_states s2) txid;
           s3 \<leftarrow> requeue_conflict txid conflict dep
             (set_tx_state txid (tx\<lparr>status := (if conflict then Conflict else Unconfirmed), dependency := dep\<rparr>) s2);
           Some (wake_finality txid s3) } }"

text \<open>Taking the timestamp, the scan and what follows it are one function, so nothing happens between them; that a
  timestamp taken before the scan is older than a rewind during it is not visible here.\<close>

definition validate :: "tx_version \<Rightarrow> ('r, 'e) scheduler \<Rightarrow> ('r, 'e) scheduler option" where
  "validate v s =
    do { let txid = v_txid v;
         tx \<leftarrow> list_get (tx_states s) txid;
         tx_result \<leftarrow> list_get (tx_results s) txid;
         if status tx \<noteq> Validating then Some s
         else if incarnation tx \<noteq> v_incarnation v then
           Some (abort (ParallelError txid ''inconsistent incarnation during validation'') s)
         else
           let s1 = bump_metrics record_validation_attempt s
           in (case tx_result of
                 None \<Rightarrow> Some (abort (ParallelError txid ''transaction has no result during validation'') s1)
               | Some result \<Rightarrow>
                   (case execute_result result of
                      Inl _ \<Rightarrow> Some (abort (ParallelError txid ''failed transaction reached validation'') s1)
                    | Inr _ \<Rightarrow>
                        do { let (ts, c) = logical_timestamp (scheduler_ctx s1);
                             let s2 = s1\<lparr>scheduler_ctx := c\<rparr>;
                             (conflict, dep) \<leftarrow>
                               validate_reads (s_memory s2) (s_beneficiary s2) txid (read_set result) (False, None);
                             validate_finish v ts (write_set result) conflict dep s2 })) }"

text \<open>The loop body of \<open>run_worker\<close>; \<open>validate\<close> never returns a task.\<close>

definition worker_task ::
  "revm_ops \<Rightarrow> (tx_version \<Rightarrow> tx_env \<Rightarrow> ('r, 'e) scheduler \<Rightarrow> (('r, 'e) incarnation_execution \<times> mv_memory) option) \<Rightarrow>
    task \<Rightarrow> ('r, 'e) scheduler \<Rightarrow> (task option \<times> ('r, 'e) scheduler) option" where
  "worker_task R executor t s =
    (case t of
       Execution v \<Rightarrow> execute_task R executor v s
     | Validation v \<Rightarrow> map_option (Pair None) (validate v s))"

section \<open>Finality\<close>

definition lock_finality_candidate :: "usize \<Rightarrow> usize \<Rightarrow> ('r, 'e) scheduler \<Rightarrow> (tx_state \<times> usize) option option" where
  "lock_finality_candidate f lower_ts s =
    (if block_size s \<le> f \<or> validation_idx (scheduler_ctx s) \<le> f then Some None
     else
       do { tx \<leftarrow> list_get (tx_states s) f;
            if status tx \<noteq> Unconfirmed then Some None
            else do { low \<leftarrow> lower_timestamp f (scheduler_ctx s);
                      let effective = max lower_ts low;
                      ts \<leftarrow> unconfirmed_timestamp f (scheduler_ctx s);
                      Some (if effective < ts then Some (tx, effective) else None) } })"

text \<open>The body of the inner loop of \<open>run_finality_loop\<close>: finalize the candidate and publish; the commit
  thread is notified for the first one of a batch.\<close>

definition finalize_candidate :: "bool \<Rightarrow> usize \<Rightarrow> tx_state \<Rightarrow> ('r, 'e) scheduler \<Rightarrow> ('r, 'e) scheduler" where
  "finalize_candidate first f tx s =
    (let s1 = set_tx_state f (tx\<lparr>status := Finality\<rparr>) s;
         s2 = s1\<lparr>scheduler_ctx := publish_finality (f + 1) (scheduler_ctx s1)\<rparr>;
         s3 = (if first then s2\<lparr>commit_wait := notify (commit_wait s2)\<rparr> else s2)
     in bump_metrics (record_finalized (incarnation tx) (dependency tx \<noteq> None)) s3)"

lemma lock_finality_candidate_range:
  "lock_finality_candidate f l s = Some (Some x) \<Longrightarrow> f < block_size s"
  by (simp add: lock_finality_candidate_def split: if_splits)

lemma finalize_candidate_txs [simp]: "s_txs (finalize_candidate b f tx s) = s_txs s"
  by (simp add: finalize_candidate_def Let_def)

text \<open>The inner loop: finalize as far as possible without waiting.\<close>

function finality_batch :: "bool \<Rightarrow> usize \<Rightarrow> usize \<Rightarrow> ('r, 'e) scheduler \<Rightarrow> (usize \<times> usize \<times> ('r, 'e) scheduler) option" where
  "finality_batch first f lower_ts s =
    (case lock_finality_candidate f lower_ts s of
       None \<Rightarrow> None
     | Some None \<Rightarrow> Some (f, lower_ts, s)
     | Some (Some (tx, effective)) \<Rightarrow> finality_batch False (f + 1) effective (finalize_candidate first f tx s))"
  by pat_completeness auto

termination
  by (relation "measure (\<lambda>(first, f, l, s). block_size s - f)") (auto dest: lock_finality_candidate_range)

text \<open>One round of the outer loop, without the waiting: a batch of more than one notifies again.\<close>

definition finality_round :: "usize \<Rightarrow> usize \<Rightarrow> ('r, 'e) scheduler \<Rightarrow> (usize \<times> usize \<times> ('r, 'e) scheduler) option" where
  "finality_round f lower_ts s =
    do { (f', l, s1) \<leftarrow> finality_batch True f lower_ts s;
         Some (f', l, if f' - f > 1 then s1\<lparr>commit_wait := notify (commit_wait s1)\<rparr> else s1) }"

section \<open>Commit\<close>

record ('r, 'e) commit_loop_result =
  clr_committed :: "'r ordered_commit_output"
  clr_error :: "'e grevm_error option"

text \<open>What the loop does with the outcome of a commit: publish the new boundary and release its
  successor, or abort and leave. \<open>Inl\<close> leaves the loop.\<close>

type_synonym ('r, 'e, 't, 'b) commit_iteration =
  "(('r, 'e) commit_loop_result + usize \<times> 'r ordered_commit_output) \<times> ('e, 't, 'b) ordered_committer \<times> ('r, 'e) scheduler"

definition after_commit ::
  "usize \<Rightarrow> 'e grevm_error + commit_outcome \<Rightarrow> 'r ordered_commit_output \<Rightarrow> ('e, 't, 'b) ordered_committer \<Rightarrow>
    ('r, 'e) scheduler \<Rightarrow> ('r, 'e, 't, 'b) commit_iteration option" where
  "after_commit idx outcome out oc s =
    (case outcome of
       Inr (Committed n) \<Rightarrow>
         do { s' \<leftarrow> on_dependency (td_commit idx) (s\<lparr>scheduler_ctx := publish_commit n (scheduler_ctx s)\<rparr>);
              Some (Inr (n, out), oc, s') }
     | Inr NeedsSequentialFallback \<Rightarrow> Some (Inl \<lparr>clr_committed = out, clr_error = None\<rparr>, oc, abort FallbackSequential s)
     | Inl e \<Rightarrow> Some (Inl \<lparr>clr_committed = out, clr_error = Some e\<rparr>, oc, abort (CommitError e) s))"

text \<open>The body of the inner loop of \<open>run_commit_loop\<close> at \<open>idx < finality_idx\<close>.\<close>

definition commit_one ::
  "revm_ops \<Rightarrow> status_ops \<Rightarrow> ((address \<times> transition_account) list \<Rightarrow> 't \<Rightarrow> 't) \<Rightarrow> usize \<Rightarrow> 'r ordered_commit_output \<Rightarrow>
    ('e, 't, 'b) ordered_committer \<Rightarrow> ('r, 'e) scheduler \<Rightarrow> ('r, 'e, 't, 'b) commit_iteration option" where
  "commit_one R A add idx out oc s =
    do { taken \<leftarrow> list_get (tx_results s) idx;
         let s1 = set_tx_result idx None s;
         (case taken of
            None \<Rightarrow> Some (Inl \<lparr>clr_committed = out, clr_error = None\<rparr>, oc,
              abort (ParallelError idx ''finalized transaction has no execution result'') s1)
          | Some tx_result \<Rightarrow>
              (case execute_result tx_result of
                 Inl _ \<Rightarrow> Some (Inl \<lparr>clr_committed = out, clr_error = None\<rparr>, oc,
                   abort (ParallelError idx ''failed transaction reached commit'') s1)
               | Inr result \<Rightarrow>
                   do { tx \<leftarrow> list_get (s_txs s1) idx;
                        (outcome, out', oc') \<leftarrow> oc_commit R A add idx tx result out oc;
                        after_commit idx outcome out' oc' s1 })) }"

text \<open>The inner loop of \<open>run_commit_loop\<close>: commit as far as finality allows without waiting. The loop
  continues at the index the committer reports, so how often it runs depends on the committer; \<open>None\<close>
  is a run that exceeds its fuel, \<open>Some None\<close> a panic.\<close>

fun commit_batch ::
  "nat \<Rightarrow> revm_ops \<Rightarrow> status_ops \<Rightarrow> ((address \<times> transition_account) list \<Rightarrow> 't \<Rightarrow> 't) \<Rightarrow> usize \<Rightarrow> 'r ordered_commit_output \<Rightarrow>
    ('e, 't, 'b) ordered_committer \<Rightarrow> ('r, 'e) scheduler \<Rightarrow> ('r, 'e, 't, 'b) commit_iteration option option" where
  "commit_batch 0 R A add idx out oc s = None"
| "commit_batch (Suc fuel) R A add idx out oc s =
    (if idx < finality_idx (scheduler_ctx s) then
       (case commit_one R A add idx out oc s of
          None \<Rightarrow> Some None
        | Some (Inl r, oc', s') \<Rightarrow> Some (Some (Inl r, oc', s'))
        | Some (Inr (next_idx, out'), oc', s') \<Rightarrow> commit_batch fuel R A add next_idx out' oc' s')
     else Some (Some (Inr (idx, out), oc, s)))"

text \<open>\<open>install_commit_loop_result\<close>, with its two assertions.\<close>

definition install_commit_loop_result ::
  "('r, 'e) commit_loop_result \<Rightarrow> ('r, 'e) scheduler \<Rightarrow> (('e grevm_error + usize) \<times> ('r, 'e) scheduler) option" where
  "install_commit_loop_result r s =
    (let boundary = output_end (clr_committed r)
     in if boundary \<noteq> committed_idx (scheduler_ctx s) \<or> results s \<noteq> [] then None
        else Some (case clr_error r of None \<Rightarrow> Inr boundary | Some e \<Rightarrow> Inl e, s\<lparr>results := clr_committed r\<rparr>))"

section \<open>Control\<close>

text \<open>\<open>run_once\<close>: the flag elects one caller; a second call is refused with an error that names the
  committed prefix. The two parts before and after the execution are functions of their own.\<close>

definition once_begin :: "('r, 'e) scheduler \<Rightarrow> 'e grevm_error + ('r, 'e) scheduler" where
  "once_begin s =
    (let txid = min (committed_idx (scheduler_ctx s)) (block_size s - 1)
     in if started s then
          Inl (GrevmError txid (CustomError ''a Scheduler can execute only once; create a new Scheduler for each block''))
        else Inr (bump_metrics (record_block_start (block_size s)) (s\<lparr>started := True\<rparr>)))"

definition once_end :: "('r, 'e) scheduler \<Rightarrow> ('r, 'e) scheduler" where
  "once_end s = bump_metrics (record_validation_resets (ctx_validation_resets (scheduler_ctx s))) s"

definition run_once ::
  "(('r, 'e) scheduler \<Rightarrow> (('e grevm_error + unit) \<times> 's \<times> ('r, 'e) scheduler) option) \<Rightarrow> 's \<Rightarrow> ('r, 'e) scheduler \<Rightarrow>
    (('e grevm_error + unit) \<times> 's \<times> ('r, 'e) scheduler) option" where
  "run_once execute ps s =
    (case once_begin s of
       Inl e \<Rightarrow> Some (Inl e, ps, s)
     | Inr s1 \<Rightarrow> do { (r, ps', s2) \<leftarrow> execute s1; Some (r, ps', once_end s2) })"

text \<open>A replay on the scheduler's outcomes, its metrics and the parallel state: each completed
  transaction counts as one execution attempt.\<close>

definition install_replay ::
  "(('e grevm_error + unit) \<times> 'r tx_execution_outcome list \<times> 's) option \<Rightarrow> ('r, 'e) scheduler \<Rightarrow>
    (('e grevm_error + unit) \<times> 's \<times> ('r, 'e) scheduler) option" where
  "install_replay replay s =
    do { (r, outs, ps') \<leftarrow> replay;
         Some (r, ps', bump_metrics (record_execution_attempt ^^ (length outs - length (results s))) (s\<lparr>results := outs\<rparr>)) }"

definition scheduler_replay ::
  "(tx_id \<Rightarrow> tx_env \<Rightarrow> 's \<Rightarrow> (('e evm_error + 'r) \<times> 's) option) \<Rightarrow> usize \<Rightarrow> 's \<Rightarrow> ('r, 'e) scheduler \<Rightarrow>
    (('e grevm_error + unit) \<times> 's \<times> ('r, 'e) scheduler) option" where
  "scheduler_replay tr boundary ps s = install_replay (replay_uncommitted_suffix tr (s_txs s) boundary (results s) ps) s"

definition scheduler_fallback ::
  "(tx_id \<Rightarrow> tx_env \<Rightarrow> 's \<Rightarrow> (('e evm_error + 'r) \<times> 's) option) \<Rightarrow> usize \<Rightarrow> tx_id \<Rightarrow> string \<Rightarrow> 's \<Rightarrow> ('r, 'e) scheduler \<Rightarrow>
    (('e grevm_error + unit) \<times> 's \<times> ('r, 'e) scheduler) option" where
  "scheduler_fallback tr boundary txid message ps s =
    install_replay (fallback_after_parallel_error tr (s_txs s) boundary txid message (results s) ps) s"

text \<open>The error a fatal abort refers to.\<close>

definition fatal_error :: "tx_id \<Rightarrow> ('r, 'e) scheduler \<Rightarrow> 'e evm_error option" where
  "fatal_error txid s =
    do { r \<leftarrow> list_get (tx_results s) txid;
         result \<leftarrow> r;
         (case execute_result result of Inl e \<Rightarrow> Some e | Inr _ \<Rightarrow> None) }"

definition post_execute ::
  "(tx_id \<Rightarrow> tx_env \<Rightarrow> 's \<Rightarrow> (('e evm_error + 'r) \<times> 's) option) \<Rightarrow> usize \<Rightarrow> 's \<Rightarrow> ('r, 'e) scheduler \<Rightarrow>
    (('e grevm_error + unit) \<times> 's \<times> ('r, 'e) scheduler) option" where
  "post_execute tr boundary ps s =
    (if is_aborted s then
       (case s_abort_reason s of
          Some (FatalEvmError txid) \<Rightarrow>
            (case fatal_error txid s of
               Some e \<Rightarrow> Some (Inl (GrevmError txid e), ps, s)
             | None \<Rightarrow> scheduler_fallback tr boundary txid ''fatal execution abort has no matching transaction error'' ps s)
        | Some (CommitError e) \<Rightarrow> Some (Inl e, ps, s)
        | Some (ParallelError txid message) \<Rightarrow> scheduler_fallback tr boundary txid message ps s
        | Some FallbackSequential \<Rightarrow> scheduler_replay tr boundary ps s
        | None \<Rightarrow> scheduler_fallback tr boundary (committed_idx (scheduler_ctx s)) ''parallel execution aborted without a reason'' ps s)
     else Some (Inr (), ps, s))"

definition take_result_and_state :: "'s \<Rightarrow> ('r, 'e) scheduler \<Rightarrow> 'r tx_execution_outcome list \<times> 's" where
  "take_result_and_state ps s = (results s, ps)"

text \<open>\<open>fallback_sequential\<close>: the whole block, in order.\<close>

definition fallback_sequential ::
  "(tx_id \<Rightarrow> tx_env \<Rightarrow> 's \<Rightarrow> (('e evm_error + 'r) \<times> 's) option) \<Rightarrow> 's \<Rightarrow> ('r, 'e) scheduler \<Rightarrow>
    (('e grevm_error + unit) \<times> 's \<times> ('r, 'e) scheduler) option" where
  "fallback_sequential tr ps s = run_once (scheduler_replay tr 0 ps) ps s"

end
