(* ===== verification/Sched_System.thy ===== *)
theory Sched_System
  imports Scheduler "HOL-Library.Multiset"
begin

text \<open>
  The scheduler's threads together: any number of workers, the finality thread and the commit thread,
  interleaved. One iteration of \<open>next\<close>, the whole of a worker's task (\<open>execute_task\<close> with its result settled,
  or \<open>validate\<close> from taking its timestamp over the scan of the reads to setting the status), one finalized
  transaction, one committed transaction and one cancellation are a step each. The steps of different threads
  come in any order, cursor claims are advisory in the code and arbitrary here, an executor may be any function,
  and any thread may cancel at any time. What happens while a task is under way between two of its own accesses
  to shared data is not interleaved further, so the theorems are about executions at this granularity.
\<close>

section \<open>The system\<close>

datatype ('r, 'e) commit_pc =
    CommitRunning usize "'r ordered_commit_output"
  | CommitEnded usize "('r, 'e) commit_loop_result"

text \<open>The commit index, and the number of results the commit thread has taken.\<close>

fun pc_idx :: "('r, 'e) commit_pc \<Rightarrow> usize" where
  "pc_idx (CommitRunning i out) = i"
| "pc_idx (CommitEnded i r) = i"

fun pc_taken :: "('r, 'e) commit_pc \<Rightarrow> usize" where
  "pc_taken (CommitRunning i out) = i"
| "pc_taken (CommitEnded i r) = i + 1"

text \<open>What the loop returns when it ends here.\<close>

fun pc_result :: "('r, 'e) commit_pc \<Rightarrow> ('r, 'e) commit_loop_result" where
  "pc_result (CommitRunning i out) = \<lparr>clr_committed = out, clr_error = None\<rparr>"
| "pc_result (CommitEnded i r) = r"

fun pc_output :: "('r, 'e) commit_pc \<Rightarrow> 'r ordered_commit_output" where
  "pc_output (CommitRunning i out) = out"
| "pc_output (CommitEnded i r) = clr_committed r"

record ('r, 'e, 't, 'b) sched_sys =
  sys_sched :: "('r, 'e) scheduler"
  sys_tasks :: "task multiset"
  sys_final :: usize
  sys_lower :: usize
  sys_commit :: "('r, 'e) commit_pc"
  sys_oc :: "('e, 't, 'b) ordered_committer"

definition sys_new :: "tx_env list \<Rightarrow> beneficiary \<Rightarrow> ('e, 't, 'b) ordered_committer \<Rightarrow> ('r, 'e, 't, 'b) sched_sys" where
  "sys_new txs b oc = \<lparr>sys_sched = scheduler_build txs b, sys_tasks = {#}, sys_final = 0, sys_lower = 0,
     sys_commit = CommitRunning 0 [], sys_oc = oc\<rparr>"

abbreviation opt_task :: "task option \<Rightarrow> task multiset" where
  "opt_task t \<equiv> (case t of None \<Rightarrow> {#} | Some x \<Rightarrow> {#x#})"

type_synonym ('r, 'e) executor =
  "tx_version \<Rightarrow> tx_env \<Rightarrow> ('r, 'e) scheduler \<Rightarrow> (('r, 'e) incarnation_execution \<times> mv_memory) option"

text \<open>\<open>E\<close> is the set of executors a worker may run; the theorems of this theory hold for every such set.\<close>

inductive sched_step ::
  "revm_ops \<Rightarrow> status_ops \<Rightarrow> ((address \<times> transition_account) list \<Rightarrow> 't \<Rightarrow> 't) \<Rightarrow> ('r, 'e) executor set \<Rightarrow>
    ('r, 'e, 't, 'b) sched_sys \<Rightarrow> ('r, 'e, 't, 'b) sched_sys \<Rightarrow> bool" for R A add E where
  claim: "next_iteration (sys_sched y) = Some (t, s') \<Longrightarrow>
    sched_step R A add E y (y\<lparr>sys_sched := s', sys_tasks := sys_tasks y + opt_task t\<rparr>)"
| claim_validation: "validation_task i (sys_sched y) = Some (t, s') \<Longrightarrow>
    sched_step R A add E y (y\<lparr>sys_sched := s', sys_tasks := sys_tasks y + opt_task t\<rparr>)"
| claim_execution: "execution_task i (sys_sched y) = Some (t, s') \<Longrightarrow>
    sched_step R A add E y (y\<lparr>sys_sched := s', sys_tasks := sys_tasks y + opt_task t\<rparr>)"
| work: "task \<in># sys_tasks y \<Longrightarrow> executor \<in> E \<Longrightarrow> worker_task R executor task (sys_sched y) = Some (t, s') \<Longrightarrow>
    sched_step R A add E y (y\<lparr>sys_sched := s', sys_tasks := sys_tasks y - {#task#} + opt_task t\<rparr>)"
| finality: "lock_finality_candidate (sys_final y) (sys_lower y) (sys_sched y) = Some (Some (tx, l)) \<Longrightarrow>
    sched_step R A add E y (y\<lparr>sys_sched := finalize_candidate first (sys_final y) tx (sys_sched y),
      sys_final := sys_final y + 1, sys_lower := l\<rparr>)"
| commit: "sys_commit y = CommitRunning i out \<Longrightarrow> i < finality_idx (scheduler_ctx (sys_sched y)) \<Longrightarrow>
    commit_one R A add i out (sys_oc y) (sys_sched y) = Some (r, oc', s') \<Longrightarrow>
    sched_step R A add E y (y\<lparr>sys_sched := s', sys_oc := oc',
      sys_commit := (case r of Inr (n, out') \<Rightarrow> CommitRunning n out' | Inl e \<Rightarrow> CommitEnded i e)\<rparr>)"
| panic: "sched_step R A add E y (y\<lparr>sys_sched := cancel (sys_sched y)\<rparr>)"

inductive_cases sched_stepE: "sched_step R A add E y y'"

section \<open>The invariant\<close>

abbreviation published_incarnation :: "('r, 'e) scheduler \<Rightarrow> tx_id \<Rightarrow> usize" where
  "published_incarnation s t \<equiv> es_incarnation (entries (ben_history (s_beneficiary s)) ! t)"

text \<open>Per transaction: its tasks are exactly what its status says, the beneficiary entry never has a
  newer incarnation and has the current one once executed, and an executed transaction has a
  successful result until the commit thread takes it.\<close>

definition tx_ok :: "('r, 'e) scheduler \<Rightarrow> task multiset \<Rightarrow> usize \<Rightarrow> tx_id \<Rightarrow> bool" where
  "tx_ok s ts taken t \<longleftrightarrow>
    (let st = tx_states s ! t; h = published_incarnation s t
     in (\<forall>i. count ts (Execution (TxVersion t i)) = (if status st = Executing \<and> incarnation st = i then 1 else 0)) \<and>
        (\<forall>i. count ts (Validation (TxVersion t i)) = (if status st = Validating \<and> incarnation st = i then 1 else 0)) \<and>
        h \<le> incarnation st \<and> (status st = Executing \<longrightarrow> h < incarnation st) \<and>
        (status st \<in> {Executed, Validating, Unconfirmed, Finality} \<longrightarrow> h = incarnation st) \<and>
        (status st \<in> {Executed, Validating, Unconfirmed} \<or> status st = Finality \<and> taken \<le> t \<longrightarrow>
           (\<exists>r sr. tx_results s ! t = Some r \<and> execute_result r = Inr sr)))"

definition shape_ok :: "('r, 'e) scheduler \<Rightarrow> bool" where
  "shape_ok s \<longleftrightarrow> results s = [] \<and> length (tx_states s) = block_size s \<and> length (tx_results s) = block_size s \<and>
    length (entries (ben_history (s_beneficiary s))) = block_size s \<and>
    ctx_num_txs (scheduler_ctx s) = block_size s \<and> context_wf (scheduler_ctx s)"

definition no_parallel_error :: "'e abort_reason option \<Rightarrow> bool" where
  "no_parallel_error r \<longleftrightarrow> (\<forall>t m. r \<noteq> Some (ParallelError t m))"

text \<open>The finality thread: exactly the prefix is final, and no rewind at or below a final transaction
  is as new as its validation.\<close>

definition final_ok :: "('r, 'e) scheduler \<Rightarrow> usize \<Rightarrow> usize \<Rightarrow> bool" where
  "final_ok s f l \<longleftrightarrow> f \<le> block_size s \<and> finality_idx (scheduler_ctx s) = f \<and>
    (\<forall>t<block_size s. status (tx_states s ! t) = Finality \<longleftrightarrow> t < f) \<and>
    (\<forall>j<f. lower_timestamps (scheduler_ctx s) ! j \<le> l) \<and>
    (\<forall>t<f. \<forall>j\<le>t. lower_timestamps (scheduler_ctx s) ! j < unconfirmed_timestamps (scheduler_ctx s) ! t)"

definition commit_ok :: "('r, 'e) scheduler \<Rightarrow> ('r, 'e) commit_pc \<Rightarrow> bool" where
  "commit_ok s pc \<longleftrightarrow> committed_idx (scheduler_ctx s) = pc_idx pc \<and> length (pc_output pc) = pc_idx pc \<and>
    pc_taken pc \<le> finality_idx (scheduler_ctx s)"

definition sched_inv :: "('r, 'e, 't, 'b) sched_sys \<Rightarrow> bool" where
  "sched_inv y \<longleftrightarrow> shape_ok (sys_sched y) \<and> no_parallel_error (s_abort_reason (sys_sched y)) \<and>
    (\<forall>t<block_size (sys_sched y). tx_ok (sys_sched y) (sys_tasks y) (pc_taken (sys_commit y)) t) \<and>
    (\<forall>v. block_size (sys_sched y) \<le> v_txid v \<longrightarrow> Execution v \<notin># sys_tasks y \<and> Validation v \<notin># sys_tasks y) \<and>
    final_ok (sys_sched y) (sys_final y) (sys_lower y) \<and> commit_ok (sys_sched y) (sys_commit y)"

lemma sched_inv_new:
  assumes "length (entries (ben_history b)) = length txs" and "\<forall>e \<in> set (entries (ben_history b)). es_incarnation e = 0"
  shows "sched_inv (sys_new txs b oc)"
  using assms
  by (auto simp: sched_inv_def sys_new_def scheduler_build_def shape_ok_def no_parallel_error_def tx_ok_def final_ok_def
      commit_ok_def context_new_wf tx_state_default_def finality_idx_def committed_idx_def Let_def)
    (auto simp: context_new_def)

section \<open>Operations on one transaction\<close>

text \<open>\<open>local_change t s s'\<close>: only transaction \<open>t\<close> changes its state, result and beneficiary entry, and the
  context changes only in ways that concern \<open>t\<close> and later transactions.\<close>

definition ctx_change :: "tx_id \<Rightarrow> scheduler_context \<Rightarrow> scheduler_context \<Rightarrow> bool" where
  "ctx_change t c c' \<longleftrightarrow> ctx_num_txs c' = ctx_num_txs c \<and> finality_idx c' = finality_idx c \<and>
    committed_idx c' = committed_idx c \<and> (context_wf c \<longrightarrow> context_wf c') \<and> ctx_clock c \<le> ctx_clock c' \<and>
    (\<forall>j<t. lower_timestamps c' ! j = lower_timestamps c ! j) \<and>
    (\<forall>u. u \<noteq> t \<longrightarrow> unconfirmed_timestamps c' ! u = unconfirmed_timestamps c ! u)"

definition local_change :: "tx_id \<Rightarrow> ('r, 'e) scheduler \<Rightarrow> ('r, 'e) scheduler \<Rightarrow> bool" where
  "local_change t s s' \<longleftrightarrow> s_txs s' = s_txs s \<and> results s' = results s \<and> length (tx_states s') = length (tx_states s) \<and>
    length (tx_results s') = length (tx_results s) \<and>
    length (entries (ben_history (s_beneficiary s'))) = length (entries (ben_history (s_beneficiary s))) \<and>
    (\<forall>u. u \<noteq> t \<longrightarrow> tx_states s' ! u = tx_states s ! u \<and> tx_results s' ! u = tx_results s ! u \<and>
       entries (ben_history (s_beneficiary s')) ! u = entries (ben_history (s_beneficiary s)) ! u) \<and>
    ctx_change t (scheduler_ctx s) (scheduler_ctx s')"

lemma ctx_change_refl [simp]: "ctx_change t c c"
  by (simp add: ctx_change_def)

lemma ctx_change_trans: "ctx_change t c c' \<Longrightarrow> ctx_change t c' c'' \<Longrightarrow> ctx_change t c c''"
  by (simp add: ctx_change_def)

lemma local_change_refl [simp]: "local_change t s s"
  by (simp add: local_change_def)

lemma local_change_trans: "local_change t s s' \<Longrightarrow> local_change t s' s'' \<Longrightarrow> local_change t s s''"
  by (simp add: local_change_def) (blast intro: ctx_change_trans)

text \<open>Updates of fields the relation does not look at, and of transaction \<open>t\<close>'s own cells.\<close>

lemma local_change_fields [simp]:
  "local_change t s (s'\<lparr>s_metrics := m\<rparr>) = local_change t s s'"
  "local_change t s (s'\<lparr>s_memory := mem\<rparr>) = local_change t s s'"
  "local_change t s (s'\<lparr>s_dependency := d\<rparr>) = local_change t s s'"
  "local_change t s (s'\<lparr>finality_wait := w\<rparr>) = local_change t s s'"
  "local_change t s (s'\<lparr>commit_wait := w\<rparr>) = local_change t s s'"
  "local_change t s (cancel s') = local_change t s s'"
  "local_change t s (abort r s') = local_change t s s'"
  by (simp_all add: local_change_def cancel_def abort_def)

lemma local_change_cells:
  "local_change t s s' \<Longrightarrow> local_change t s (set_tx_state t st s')"
  "local_change t s s' \<Longrightarrow> local_change t s (set_tx_result t r s')"
  by (simp_all add: local_change_def)

lemma local_change_ctx:
  "local_change t s s' \<Longrightarrow> ctx_change t (scheduler_ctx s') c \<Longrightarrow> local_change t s (s'\<lparr>scheduler_ctx := c\<rparr>)"
  by (simp add: local_change_def) (blast intro: ctx_change_trans)

lemma local_change_on_dependency:
  "on_dependency f s = Some s' \<Longrightarrow> local_change t s s' \<and> tx_states s' = tx_states s \<and> tx_results s' = tx_results s \<and>
    s_beneficiary s' = s_beneficiary s \<and> s_abort_reason s' = s_abort_reason s \<and> scheduler_ctx s' = scheduler_ctx s \<and> s_txs s' = s_txs s \<and> results s' = results s"
  by (auto simp: on_dependency_def)

lemma on_ctx_frame:
  "on_ctx f s = Some s' \<Longrightarrow> \<exists>c. f (scheduler_ctx s) = Some c \<and> s' = s\<lparr>scheduler_ctx := c\<rparr>"
  by (auto simp: on_ctx_def)

lemma ctx_change_executed:
  assumes "context_executed i c = Some c'"
  shows "ctx_change t c c'"
  using assms context_executed_wf [of c i c']
  by (auto simp: ctx_change_def context_executed_def finality_idx_def committed_idx_def)

lemma ctx_change_rewind:
  assumes "rewind_validation_to i c = Some c'" and "t \<le> i"
  shows "ctx_change t c c'"
  using assms rewind_validation_to_wf [of c i c']
  by (auto simp: ctx_change_def rewind_validation_to_def logical_timestamp_def finality_idx_def committed_idx_def Let_def
      split: if_splits Option.bind_splits prod.splits)

lemma ctx_change_timestamp: "logical_timestamp c = (ts, c') \<Longrightarrow> ctx_change t c c'"
  using logical_timestamp_wf [of c ts c']
  by (auto simp: ctx_change_def logical_timestamp_def finality_idx_def committed_idx_def)

lemma ctx_change_unconfirmed:
  assumes "context_unconfirmed t ts c = Some c'" and "ts < ctx_clock c"
  shows "ctx_change t c c'"
  using assms context_unconfirmed_wf [of c ts t c']
  by (auto simp: ctx_change_def context_unconfirmed_def finality_idx_def committed_idx_def split: Option.bind_splits)

lemma ctx_change_claims:
  "should_schedule i c = (b, c') \<Longrightarrow> ctx_change t c c'"
  "next_validation_idx i c = (r, c') \<Longrightarrow> ctx_change t c c'"
proof -
  have *: "ctx_change t c (c\<lparr>ctx_frontier := ef, ctx_validation := v\<rparr>)" "ctx_change t c (c\<lparr>ctx_frontier := ef\<rparr>)"
    if "frontier_current (ctx_frontier c) = (f, ef)" for f ef v
    using context_frontier_wf [OF _ that]
    by (auto simp: ctx_change_def finality_idx_def committed_idx_def) (auto simp: context_wf_def)
  show "should_schedule i c = (b, c') \<Longrightarrow> ctx_change t c c'"
    using * by (auto simp: should_schedule_def Let_def split: if_splits prod.splits)
  show "next_validation_idx i c = (r, c') \<Longrightarrow> ctx_change t c c'"
    using * by (auto simp: next_validation_idx_def Let_def split: prod.splits)
qed

text \<open>The beneficiary entry of the executing transaction.\<close>

lemma history_entry_op_at:
  assumes "history_entry_op f t h = Some (ok, h')"
  shows "t < length (entries h) \<and> ok = fst (f (entries h ! t)) \<and> entries h' = (entries h)[t := snd (f (entries h ! t))]"
  using assms by (auto simp: history_entry_op_def list_get_def split: if_splits prod.splits)

lemma record_at:
  assumes "record_estimate v b = Some (ok, b') \<or> record_execution R v sr b = Some (ok, b')"
    and "es_incarnation (entries (ben_history b) ! v_txid v) < v_incarnation v"
  shows "ok \<and> length (entries (ben_history b')) = length (entries (ben_history b)) \<and>
    es_incarnation (entries (ben_history b') ! v_txid v) = v_incarnation v \<and>
    (\<forall>u. u \<noteq> v_txid v \<longrightarrow> entries (ben_history b') ! u = entries (ben_history b) ! u)"
proof -
  obtain x h where "history_entry_op (entry_record (v_incarnation v) x) (v_txid v) (ben_history b) = Some (ok, h)"
    and "b' = b\<lparr>ben_history := h\<rparr>"
    using assms(1)
    by (auto simp: record_estimate_def record_execution_def lift_history_def history_record_estimate_def
        history_record_execution_def Let_def split: if_splits Option.bind_splits)
  then show ?thesis using history_entry_op_at [of "entry_record (v_incarnation v) x" "v_txid v" "ben_history b" ok h] assms(2)
    by (auto simp: entry_record_def)
qed

lemma invalidate_at:
  assumes "invalidate v b = Some (ok, b')" and "es_incarnation (entries (ben_history b) ! v_txid v) = v_incarnation v"
  shows "ok \<and> length (entries (ben_history b')) = length (entries (ben_history b)) \<and>
    es_incarnation (entries (ben_history b') ! v_txid v) = v_incarnation v \<and>
    (\<forall>u. u \<noteq> v_txid v \<longrightarrow> entries (ben_history b') ! u = entries (ben_history b) ! u)"
proof -
  obtain h where "history_entry_op (entry_invalidate (v_incarnation v)) (v_txid v) (ben_history b) = Some (ok, h)"
    and "b' = b\<lparr>ben_history := h\<rparr>"
    using assms(1) by (auto simp: invalidate_def lift_history_def history_invalidate_def)
  then show ?thesis using history_entry_op_at [of "entry_invalidate (v_incarnation v)" "v_txid v" "ben_history b" ok h] assms(2)
    by (auto simp: entry_invalidate_def nth_list_update split: entry_value.splits)
qed

lemma local_change_beneficiary:
  assumes "local_change t s s'" and "length (entries (ben_history b)) = length (entries (ben_history (s_beneficiary s')))"
    and "\<forall>u. u \<noteq> t \<longrightarrow> entries (ben_history b) ! u = entries (ben_history (s_beneficiary s')) ! u"
  shows "local_change t s (s'\<lparr>s_beneficiary := b\<rparr>)"
  using assms by (simp add: local_change_def)

section \<open>The operations\<close>

text \<open>An update of one transaction that is not yet final keeps the invariant when that transaction is
  in order again and no other transaction's tasks changed.\<close>

lemma sched_inv_local:
  assumes inv: "sched_inv y" and ch: "local_change t (sys_sched y) s'" and t: "sys_final y \<le> t"
    and ok: "t < block_size (sys_sched y) \<Longrightarrow> tx_ok s' ts' (pc_taken (sys_commit y)) t"
    and live: "t < block_size (sys_sched y) \<Longrightarrow> status (tx_states s' ! t) \<noteq> Finality"
    and err: "no_parallel_error (s_abort_reason s')"
    and other: "\<And>v. v_txid v \<noteq> t \<Longrightarrow> count ts' (Execution v) = count (sys_tasks y) (Execution v) \<and>
      count ts' (Validation v) = count (sys_tasks y) (Validation v)"
    and range: "\<And>v. block_size (sys_sched y) \<le> v_txid v \<Longrightarrow> Execution v \<notin># ts' \<and> Validation v \<notin># ts'"
  shows "sched_inv (y\<lparr>sys_sched := s', sys_tasks := ts'\<rparr>)"
proof -
  let ?s = "sys_sched y"
  have c: "ctx_change t (scheduler_ctx ?s) (scheduler_ctx s')" and txs: "s_txs s' = s_txs ?s"
    using ch by (simp_all add: local_change_def)
  have shape: "shape_ok s'" using inv ch c by (simp add: sched_inv_def shape_ok_def local_change_def ctx_change_def)
  have tx: "tx_ok s' ts' (pc_taken (sys_commit y)) u" if "u < block_size s'" for u
  proof (cases "u = t")
    case False
    have same: "tx_states s' ! u = tx_states ?s ! u" "tx_results s' ! u = tx_results ?s ! u"
      "published_incarnation s' u = published_incarnation ?s u" using ch False by (simp_all add: local_change_def)
    have counts: "count ts' (Execution (TxVersion u i)) = count (sys_tasks y) (Execution (TxVersion u i))"
      "count ts' (Validation (TxVersion u i)) = count (sys_tasks y) (Validation (TxVersion u i))" for i
      using other [of "TxVersion u i"] False by simp_all
    have "tx_ok ?s (sys_tasks y) (pc_taken (sys_commit y)) u" using inv that txs by (simp add: sched_inv_def)
    then show ?thesis unfolding tx_ok_def same counts .
  qed (use ok that txs in simp)
  have st: "status (tx_states s' ! u) = Finality \<longleftrightarrow> u < sys_final y" if "u < block_size s'" for u
    using inv ch that live t txs by (cases "u = t") (auto simp: sched_inv_def final_ok_def local_change_def)
  have "final_ok s' (sys_final y) (sys_lower y)"
    using inv c st t txs by (auto simp: sched_inv_def final_ok_def ctx_change_def)
  moreover have "commit_ok s' (sys_commit y)" using inv c by (simp add: sched_inv_def commit_ok_def ctx_change_def)
  ultimately show ?thesis using shape tx err range txs by (simp add: sched_inv_def)
qed

lemma execution_task_cases:
  assumes "execution_task i s = Some (r, s')"
  obtains (none) "r = None" "local_change i s s'" "tx_states s' = tx_states s" "tx_results s' = tx_results s"
      "s_beneficiary s' = s_beneficiary s" "s_abort_reason s' = s_abort_reason s" "scheduler_ctx s' = scheduler_ctx s"
  | (claim) "i < length (tx_states s)" "status (tx_states s ! i) = Initial \<or> status (tx_states s ! i) = Conflict"
      "r = Some (Execution (TxVersion i (Suc (incarnation (tx_states s ! i)))))"
      "s' = set_tx_state i ((tx_states s ! i)\<lparr>status := Executing, incarnation := Suc (incarnation (tx_states s ! i))\<rparr>) s"
  using assms
  by (auto simp: execution_task_def list_get_def split: if_splits Option.bind_splits)

lemma validation_task_cases:
  assumes "validation_task i s = Some (r, s')"
  obtains (none) "r = None" "s' = s"
  | (claim) "i < length (tx_states s)" "status (tx_states s ! i) = Executed \<or> status (tx_states s ! i) = Unconfirmed"
      "r = Some (Validation (TxVersion i (incarnation (tx_states s ! i))))"
      "s' = set_tx_state i ((tx_states s ! i)\<lparr>status := Validating\<rparr>) s"
  using assms by (auto simp: validation_task_def list_get_def split: if_splits)

lemma sched_inv_tx:
  assumes "sched_inv y" and "t < block_size (sys_sched y)"
  shows "tx_ok (sys_sched y) (sys_tasks y) (pc_taken (sys_commit y)) t"
    and "status (tx_states (sys_sched y) ! t) \<noteq> Finality \<Longrightarrow> sys_final y \<le> t"
  using assms by (auto simp: sched_inv_def final_ok_def)

lemma sched_inv_range: "sched_inv y \<Longrightarrow> block_size (sys_sched y) \<le> v_txid v \<Longrightarrow>
    Execution v \<notin># sys_tasks y \<and> Validation v \<notin># sys_tasks y"
  by (simp add: sched_inv_def)

lemma sched_inv_shape:
  assumes "sched_inv y"
  shows "length (tx_states (sys_sched y)) = block_size (sys_sched y)" "length (tx_results (sys_sched y)) = block_size (sys_sched y)"
    "length (entries (ben_history (s_beneficiary (sys_sched y)))) = block_size (sys_sched y)"
    "context_wf (scheduler_ctx (sys_sched y))" "no_parallel_error (s_abort_reason (sys_sched y))"
  using assms by (simp_all add: sched_inv_def shape_ok_def)

lemma sched_inv_quiet:
  assumes inv: "sched_inv y" and ch: "local_change (block_size (sys_sched y)) (sys_sched y) s'"
    and err: "no_parallel_error (s_abort_reason s')"
  shows "sched_inv (y\<lparr>sys_sched := s'\<rparr>)"
proof -
  have "sched_inv (y\<lparr>sys_sched := s', sys_tasks := sys_tasks y\<rparr>)"
    by (rule sched_inv_local [OF inv ch _ _ _ err])
      (use inv in \<open>auto simp: sched_inv_def final_ok_def\<close>)
  then show ?thesis by simp
qed

lemma sched_inv_claim_execution:
  assumes inv: "sched_inv y" and task: "execution_task i (sys_sched y) = Some (r, s')"
  shows "sched_inv (y\<lparr>sys_sched := s', sys_tasks := sys_tasks y + opt_task r\<rparr>)"
  using task
proof (cases rule: execution_task_cases)
  case none
  have "local_change (block_size (sys_sched y)) (sys_sched y) s'"
    using none by (simp add: local_change_def)
  then show ?thesis using sched_inv_quiet [OF inv] none sched_inv_shape(5) [OF inv] by simp
next
  case claim
  have i: "i < block_size (sys_sched y)" using claim(1) sched_inv_shape(1) [OF inv] by simp
  note ok = sched_inv_tx [OF inv i]
  show ?thesis
  proof (rule sched_inv_local [OF inv, of i])
    show "local_change i (sys_sched y) s'" unfolding claim(4) by (rule local_change_cells) simp
    show "sys_final y \<le> i" using ok(2) claim by auto
    show "tx_ok s' (sys_tasks y + opt_task r) (pc_taken (sys_commit y)) i"
      using claim(2) ok(1) claim(1) unfolding claim(3,4) tx_ok_def Let_def by (elim disjE) simp_all
    show "status (tx_states s' ! i) \<noteq> Finality" using claim by simp
    show "no_parallel_error (s_abort_reason s')" using claim sched_inv_shape(5) [OF inv] by simp
    show "count (sys_tasks y + opt_task r) (Execution v) = count (sys_tasks y) (Execution v) \<and>
      count (sys_tasks y + opt_task r) (Validation v) = count (sys_tasks y) (Validation v)" if "v_txid v \<noteq> i" for v
      using that claim(3) by auto
    show "Execution v \<notin># sys_tasks y + opt_task r \<and> Validation v \<notin># sys_tasks y + opt_task r"
      if "block_size (sys_sched y) \<le> v_txid v" for v
      using sched_inv_range [OF inv that] that i claim(3) by auto
  qed
qed

lemma sched_inv_claim_validation:
  assumes inv: "sched_inv y" and task: "validation_task i (sys_sched y) = Some (r, s')"
  shows "sched_inv (y\<lparr>sys_sched := s', sys_tasks := sys_tasks y + opt_task r\<rparr>)"
  using task
proof (cases rule: validation_task_cases)
  case none
  then show ?thesis using inv by simp
next
  case claim
  have i: "i < block_size (sys_sched y)" using claim(1) sched_inv_shape(1) [OF inv] by simp
  note ok = sched_inv_tx [OF inv i]
  show ?thesis
  proof (rule sched_inv_local [OF inv, of i])
    show "local_change i (sys_sched y) s'" unfolding claim(4) by (rule local_change_cells) simp
    show "sys_final y \<le> i" using ok(2) claim by auto
    show "tx_ok s' (sys_tasks y + opt_task r) (pc_taken (sys_commit y)) i"
      using claim(2) ok(1) claim(1) unfolding claim(3,4) tx_ok_def Let_def by (elim disjE) simp_all
    show "status (tx_states s' ! i) \<noteq> Finality" using claim by simp
    show "no_parallel_error (s_abort_reason s')" using claim sched_inv_shape(5) [OF inv] by simp
    show "count (sys_tasks y + opt_task r) (Execution v) = count (sys_tasks y) (Execution v) \<and>
      count (sys_tasks y + opt_task r) (Validation v) = count (sys_tasks y) (Validation v)" if "v_txid v \<noteq> i" for v
      using that claim(3) by auto
    show "Execution v \<notin># sys_tasks y + opt_task r \<and> Validation v \<notin># sys_tasks y + opt_task r"
      if "block_size (sys_sched y) \<le> v_txid v" for v
      using sched_inv_range [OF inv that] that i claim(3) by auto
  qed
qed

lemma sched_inv_next:
  assumes inv: "sched_inv y" and task: "next_iteration (sys_sched y) = Some (r, s')"
  shows "sched_inv (y\<lparr>sys_sched := s', sys_tasks := sys_tasks y + opt_task r\<rparr>)"
proof -
  let ?s = "sys_sched y"
  obtain b c1 where c1: "should_schedule (td_index (s_dependency ?s)) (scheduler_ctx ?s) = (b, c1)" by fastforce
  obtain v c2 where c2: "next_validation_idx (td_index (s_dependency ?s)) c1 = (v, c2)" by fastforce
  let ?s1 = "?s\<lparr>scheduler_ctx := c2\<rparr>"
  have "ctx_change (block_size ?s) (scheduler_ctx ?s) c2"
    using ctx_change_claims(1) [OF c1] ctx_change_claims(2) [OF c2] by (rule ctx_change_trans)
  then have "local_change (block_size ?s) ?s ?s1" by (intro local_change_ctx) simp_all
  then have inv1: "sched_inv (y\<lparr>sys_sched := ?s1\<rparr>)"
    using sched_inv_quiet [OF inv] sched_inv_shape(5) [OF inv] by simp
  obtain r1 s2 where val: "(case v of Some i \<Rightarrow> validation_task i ?s1 | None \<Rightarrow> Some (None, ?s1)) = Some (r1, s2)"
    using task by (auto simp: next_iteration_def c1 c2 Let_def bind_eq_Some_conv)
  have inv2: "sched_inv (y\<lparr>sys_sched := s2, sys_tasks := sys_tasks y + opt_task r1\<rparr>)"
  proof (cases v)
    case None
    then show ?thesis using val inv1 by simp
  next
    case (Some i)
    then show ?thesis using val sched_inv_claim_validation [OF inv1, of i r1 s2] by simp
  qed
  show ?thesis
  proof (cases r1)
    case (Some t)
    then show ?thesis using task inv2 val by (simp add: next_iteration_def c1 c2 Let_def)
  next
    case None
    then obtain e td where td: "td_next (s_dependency s2) = Some (e, td)"
      and rest: "(case e of Some i \<Rightarrow> execution_task i (s2\<lparr>s_dependency := td\<rparr>) | None \<Rightarrow> Some (None, s2\<lparr>s_dependency := td\<rparr>)) = Some (r, s')"
      using task val by (auto simp: next_iteration_def c1 c2 Let_def bind_eq_Some_conv)
    have inv3: "sched_inv (y\<lparr>sys_sched := s2\<lparr>s_dependency := td\<rparr>\<rparr>)"
      using sched_inv_quiet [OF inv2, of "s2\<lparr>s_dependency := td\<rparr>"] sched_inv_shape(5) [OF inv2] None by simp
    show ?thesis
    proof (cases e)
      case None
      then show ?thesis using rest inv3 by simp
    next
      case (Some i)
      then show ?thesis using rest sched_inv_claim_execution [OF inv3, of i r s'] by simp
    qed
  qed
qed

section \<open>Executing and validating\<close>

text \<open>An arm of \<open>execute_task\<close> has published: it goes on, and only the transaction's result and beneficiary
  entry changed.\<close>

definition arm_done ::
  "tx_version \<Rightarrow> ('r, 'e) scheduler \<Rightarrow> (unit + bool \<times> bool \<times> tx_id option) \<times> ('r, 'e) scheduler \<Rightarrow> bool" where
  "arm_done v s r \<longleftrightarrow> (\<exists>c n nxt s'. r = (Inr (c, n, nxt), s') \<and> local_change (v_txid v) s s' \<and>
    tx_states s' = tx_states s \<and> published_incarnation s' (v_txid v) = v_incarnation v \<and>
    (no_parallel_error (s_abort_reason s) \<longrightarrow> no_parallel_error (s_abort_reason s')) \<and>
    (\<not> c \<longrightarrow> (\<exists>x sr. tx_results s' ! v_txid v = Some x \<and> execute_result x = Inr sr)))"

text \<open>The steps of the two arms.\<close>

lemma drop_stale_writes_frame [simp]:
  "local_change t s (drop_stale_writes t lr ws s')= local_change t s s'" "tx_states (drop_stale_writes t lr ws s) = tx_states s"
  "tx_results (drop_stale_writes t lr ws s) = tx_results s" "s_beneficiary (drop_stale_writes t lr ws s) = s_beneficiary s"
  "s_abort_reason (drop_stale_writes t lr ws s) = s_abort_reason s"
  by (simp_all add: drop_stale_writes_def split: option.split)

lemma estimate_last_writes_frame [simp]:
  "local_change t s (estimate_last_writes t lr s)" "tx_states (estimate_last_writes t lr s) = tx_states s"
  "s_beneficiary (estimate_last_writes t lr s) = s_beneficiary s"
  "s_abort_reason (estimate_last_writes t lr s) = s_abort_reason s"
  by (simp_all add: estimate_last_writes_def local_change_def split: option.split)

lemma settle_execution_frame:
  assumes "settle_execution t acc s = Some (nxt, s')"
  shows "local_change t s s'" "tx_states s' = tx_states s" "tx_results s' = tx_results s" "s_beneficiary s' = s_beneficiary s"
    "s_abort_reason s' = s_abort_reason s"
  using assms by (auto simp: settle_execution_def on_dependency_def bind_eq_Some_conv split: if_splits)

lemma settle_failure_frame:
  assumes "settle_failure t e acc s = Some s'"
  shows "local_change t s s'" "tx_states s' = tx_states s" "tx_results s' = tx_results s" "s_beneficiary s' = s_beneficiary s"
    "no_parallel_error (s_abort_reason s) \<Longrightarrow> no_parallel_error (s_abort_reason s')"
  using assms
  by (auto simp: settle_failure_def on_dependency_def abort_def cancel_def no_parallel_error_def Let_def local_change_def
      split: if_splits evm_error.splits option.splits)

lemma publish_history_at:
  assumes "publish_history R v c sr b = Some (ok, b')" and "es_incarnation (entries (ben_history b) ! v_txid v) < v_incarnation v"
  shows "ok \<and> length (entries (ben_history b')) = length (entries (ben_history b)) \<and>
    es_incarnation (entries (ben_history b') ! v_txid v) = v_incarnation v \<and>
    (\<forall>u. u \<noteq> v_txid v \<longrightarrow> entries (ben_history b') ! u = entries (ben_history b) ! u)"
  using assms record_at [of v b ok b' R sr] by (simp add: publish_history_def split: if_splits)

lemma execute_ok_done:
  assumes ex: "execute_ok R v sr acc s = Some r" and new: "published_incarnation s (v_txid v) < v_incarnation v"
    and len: "v_txid v < length (tx_results s)"
  shows "arm_done v s r"
proof -
  let ?t = "v_txid v"
  define s1 where "s1 = drop_stale_writes ?t (tx_results s ! ?t) (ia_write_set acc) s"
  obtain ok b where b: "publish_history R v (is_blocked acc) sr (s_beneficiary s1) = Some (ok, b)"
    using ex len by (auto simp: execute_ok_def Let_def list_get_def s1_def bind_eq_Some_conv)
  have at: "ok \<and> length (entries (ben_history b)) = length (entries (ben_history (s_beneficiary s1))) \<and>
      es_incarnation (entries (ben_history b) ! ?t) = v_incarnation v \<and>
      (\<forall>u. u \<noteq> ?t \<longrightarrow> entries (ben_history b) ! u = entries (ben_history (s_beneficiary s1)) ! u)"
    using publish_history_at [OF b] new by (simp add: s1_def)
  let ?s2 = "s1\<lparr>s_beneficiary := b\<rparr>"
  have s2: "local_change ?t s ?s2" using at by (intro local_change_beneficiary) (simp_all add: s1_def)
  obtain nxt s3 n where s3: "settle_execution ?t acc ?s2 = Some (nxt, s3)"
    and r: "r = (Inr (is_blocked acc, n, nxt),
        set_tx_result ?t (Some \<lparr>read_set = ia_read_set acc, write_set = ia_write_set acc, execute_result = Inr sr\<rparr>) s3)"
    using ex len b at by (auto simp: execute_ok_def Let_def list_get_def s1_def bind_eq_Some_conv)
  note f = settle_execution_frame [OF s3]
  have "local_change ?t s s3" using s2 f(1) by (rule local_change_trans)
  then show ?thesis using r at f(2-) len
    by (auto simp: arm_done_def s1_def local_change_def)
qed

lemma execute_err_done:
  assumes ex: "execute_err v e acc s = Some r" and new: "published_incarnation s (v_txid v) < v_incarnation v"
    and len: "v_txid v < length (tx_results s)"
  shows "arm_done v s r"
proof -
  let ?t = "v_txid v"
  define s1 where "s1 = estimate_last_writes ?t (tx_results s ! ?t) s"
  obtain ok b where b: "record_estimate v (s_beneficiary s1) = Some (ok, b)"
    using ex len by (auto simp: execute_err_def Let_def list_get_def s1_def bind_eq_Some_conv)
  have at: "ok \<and> length (entries (ben_history b)) = length (entries (ben_history (s_beneficiary s1))) \<and>
      es_incarnation (entries (ben_history b) ! ?t) = v_incarnation v \<and>
      (\<forall>u. u \<noteq> ?t \<longrightarrow> entries (ben_history b) ! u = entries (ben_history (s_beneficiary s1)) ! u)"
    using record_at [of v "s_beneficiary s1" ok b] b new by (simp add: s1_def)
  let ?s2 = "s1\<lparr>s_beneficiary := b\<rparr>"
  have s2: "local_change ?t s ?s2" using at by (intro local_change_beneficiary) (simp_all add: s1_def)
  obtain x s3 where s3: "settle_failure ?t e acc (set_tx_result ?t x ?s2) = Some s3" and r: "r = (Inr (True, False, None), s3)"
    using ex len b at by (auto simp: execute_err_def Let_def list_get_def s1_def bind_eq_Some_conv)
  note f = settle_failure_frame [OF s3]
  have "local_change ?t s s3" by (rule local_change_trans [OF local_change_cells(2) [OF s2] f(1)])
  then show ?thesis using r at f(2-) by (auto simp: arm_done_def s1_def)
qed

text \<open>Holding a task fixes the status and incarnation of its transaction.\<close>

lemma held_execution:
  assumes inv: "sched_inv y" and held: "Execution v \<in># sys_tasks y"
  shows "v_txid v < block_size (sys_sched y)" "status (tx_states (sys_sched y) ! v_txid v) = Executing"
    "incarnation (tx_states (sys_sched y) ! v_txid v) = v_incarnation v"
    "published_incarnation (sys_sched y) (v_txid v) < v_incarnation v"
proof -
  show t: "v_txid v < block_size (sys_sched y)" using sched_inv_range [OF inv, of v] held by (meson leI)
  have v: "v = TxVersion (v_txid v) (v_incarnation v)" by simp
  have "0 < count (sys_tasks y) (Execution (TxVersion (v_txid v) (v_incarnation v)))" using held by simp
  then have "status (tx_states (sys_sched y) ! v_txid v) = Executing \<and>
      incarnation (tx_states (sys_sched y) ! v_txid v) = v_incarnation v"
    using sched_inv_tx(1) [OF inv t] unfolding tx_ok_def Let_def by (metis less_numeral_extra(3))
  then show "status (tx_states (sys_sched y) ! v_txid v) = Executing"
    "incarnation (tx_states (sys_sched y) ! v_txid v) = v_incarnation v" by simp_all
  then show "published_incarnation (sys_sched y) (v_txid v) < v_incarnation v"
    using sched_inv_tx(1) [OF inv t] by (simp add: tx_ok_def Let_def)
qed

lemma held_validation:
  assumes inv: "sched_inv y" and held: "Validation v \<in># sys_tasks y"
  shows "v_txid v < block_size (sys_sched y)" "status (tx_states (sys_sched y) ! v_txid v) = Validating"
    "incarnation (tx_states (sys_sched y) ! v_txid v) = v_incarnation v"
    "published_incarnation (sys_sched y) (v_txid v) = v_incarnation v"
    "\<exists>r sr. tx_results (sys_sched y) ! v_txid v = Some r \<and> execute_result r = Inr sr"
proof -
  show t: "v_txid v < block_size (sys_sched y)" using sched_inv_range [OF inv, of v] held by (meson leI)
  have "0 < count (sys_tasks y) (Validation (TxVersion (v_txid v) (v_incarnation v)))" using held by simp
  then have "status (tx_states (sys_sched y) ! v_txid v) = Validating \<and>
      incarnation (tx_states (sys_sched y) ! v_txid v) = v_incarnation v"
    using sched_inv_tx(1) [OF inv t] unfolding tx_ok_def Let_def by (metis less_numeral_extra(3))
  then show "status (tx_states (sys_sched y) ! v_txid v) = Validating"
    "incarnation (tx_states (sys_sched y) ! v_txid v) = v_incarnation v" by simp_all
  then show "published_incarnation (sys_sched y) (v_txid v) = v_incarnation v"
    "\<exists>r sr. tx_results (sys_sched y) ! v_txid v = Some r \<and> execute_result r = Inr sr"
    using sched_inv_tx(1) [OF inv t] by (simp_all add: tx_ok_def Let_def)
qed

text \<open>A worker that gives its task back leaves the transaction in one of three statuses.\<close>

definition next_status :: "transaction_status \<Rightarrow> tx_version \<Rightarrow> task multiset \<Rightarrow> bool" where
  "next_status st v ts \<longleftrightarrow> st \<in> {Conflict, Executed, Unconfirmed} \<and> ts = {#} \<or> st = Validating \<and> ts = {#Validation v#}"

lemma sched_inv_return:
  assumes inv: "sched_inv y" and held: "task \<in># sys_tasks y" and task: "task = Execution v \<or> task = Validation v"
    and ch: "local_change (v_txid v) (sys_sched y) s'" and err: "no_parallel_error (s_abort_reason s')"
    and st: "next_status (status (tx_states s' ! v_txid v)) v ts" "incarnation (tx_states s' ! v_txid v) = v_incarnation v"
    and pub: "published_incarnation s' (v_txid v) = v_incarnation v"
    and res: "status (tx_states s' ! v_txid v) \<noteq> Conflict \<Longrightarrow> \<exists>r sr. tx_results s' ! v_txid v = Some r \<and> execute_result r = Inr sr"
  shows "sched_inv (y\<lparr>sys_sched := s', sys_tasks := sys_tasks y - {#task#} + ts\<rparr>)"
proof -
  let ?t = "v_txid v" and ?ts = "sys_tasks y - {#task#} + ts"
  have t: "?t < block_size (sys_sched y)" and cur: "incarnation (tx_states (sys_sched y) ! ?t) = v_incarnation v"
    and busy: "status (tx_states (sys_sched y) ! ?t) = (if task = Execution v then Executing else Validating)"
    using held task held_execution(1-3) [OF inv, of v] held_validation(1-3) [OF inv, of v] by auto
  note ok = sched_inv_tx [OF inv t]
  have v: "TxVersion ?t i = v \<longleftrightarrow> i = v_incarnation v" "v = TxVersion ?t i \<longleftrightarrow> i = v_incarnation v" for i by (cases v; auto)+
  have raw: "count (sys_tasks y) (Execution (TxVersion ?t i)) = (if status (tx_states (sys_sched y) ! ?t) = Executing \<and> v_incarnation v = i then 1 else 0)"
    "count (sys_tasks y) (Validation (TxVersion ?t i)) = (if status (tx_states (sys_sched y) ! ?t) = Validating \<and> v_incarnation v = i then 1 else 0)" for i
    using ok(1) unfolding tx_ok_def Let_def cur by blast+
  have old: "count (sys_tasks y - {#task#}) (Execution (TxVersion ?t i)) = 0 \<and>
      count (sys_tasks y - {#task#}) (Validation (TxVersion ?t i)) = 0" for i
    using task by (elim disjE) (simp_all add: raw busy v)
  have new: "count ts (Execution (TxVersion ?t i)) = 0 \<and>
    count ts (Validation (TxVersion ?t i)) = (if status (tx_states s' ! ?t) = Validating \<and> v_incarnation v = i then 1 else 0)" for i
    using st(1) unfolding next_status_def by (elim disjE conjE) (auto simp: v)
  have not: "status (tx_states s' ! ?t) \<noteq> Executing" "status (tx_states s' ! ?t) \<noteq> Finality"
    using st(1) unfolding next_status_def by auto
  have tx: "tx_ok s' ?ts (pc_taken (sys_commit y)) ?t"
    unfolding tx_ok_def Let_def pub st(2) count_union
  proof (intro conjI allI impI)
    fix i
    show "count (sys_tasks y - {#task#}) (Execution (TxVersion ?t i)) + count ts (Execution (TxVersion ?t i)) =
        (if status (tx_states s' ! ?t) = Executing \<and> v_incarnation v = i then 1 else 0)"
      using old [of i] new [of i] not(1) by simp
    show "count (sys_tasks y - {#task#}) (Validation (TxVersion ?t i)) + count ts (Validation (TxVersion ?t i)) =
        (if status (tx_states s' ! ?t) = Validating \<and> v_incarnation v = i then 1 else 0)"
      using old [of i] new [of i] by simp
  next
    assume "status (tx_states s' ! ?t) \<in> {Executed, Validating, Unconfirmed} \<or> status (tx_states s' ! ?t) = Finality \<and> pc_taken (sys_commit y) \<le> ?t"
    then show "\<exists>r sr. tx_results s' ! ?t = Some r \<and> execute_result r = Inr sr" using res by fastforce
  qed (use not in simp_all)
  show ?thesis
  proof (rule sched_inv_local [OF inv ch _ tx _ err])
    show "sys_final y \<le> ?t" using ok(2) busy by auto
    show "status (tx_states s' ! ?t) \<noteq> Finality" using not by auto
    show "count ?ts (Execution u) = count (sys_tasks y) (Execution u) \<and> count ?ts (Validation u) = count (sys_tasks y) (Validation u)"
      if "v_txid u \<noteq> ?t" for u
      using task st(1) that unfolding next_status_def by (elim disjE conjE) auto
    show "Execution u \<notin># ?ts \<and> Validation u \<notin># ?ts" if "block_size (sys_sched y) \<le> v_txid u" for u
      using sched_inv_range [OF inv that] st(1) t that by (auto simp: next_status_def dest: in_diffD)
  qed
qed

lemma local_change_after:
  assumes "local_change t s s'" and "on_ctx f s' = Some s''" and "\<And>c. f (scheduler_ctx s') = Some c \<Longrightarrow> ctx_change t (scheduler_ctx s') c"
  shows "local_change t s s'' \<and> tx_states s'' = tx_states s' \<and> tx_results s'' = tx_results s' \<and> s_beneficiary s'' = s_beneficiary s' \<and>
    s_abort_reason s'' = s_abort_reason s' \<and> s_txs s'' = s_txs s'"
  using assms on_ctx_frame [OF assms(2)] by (auto intro: local_change_ctx)

lemma sched_inv_execute_done:
  assumes inv: "sched_inv y" and held: "Execution v \<in># sys_tasks y"
    and ch: "local_change (v_txid v) (sys_sched y) s" and same: "tx_states s = tx_states (sys_sched y)"
    and pub: "published_incarnation s (v_txid v) = v_incarnation v" and err: "no_parallel_error (s_abort_reason s)"
    and res: "\<not> c \<Longrightarrow> \<exists>x sr. tx_results s ! v_txid v = Some x \<and> execute_result x = Inr sr"
    and fin: "execute_done v c n nxt s = Some (t, s')"
  shows "sched_inv (y\<lparr>sys_sched := s', sys_tasks := sys_tasks y - {#Execution v#} + opt_task t\<rparr>)"
proof -
  let ?t = "v_txid v" and ?ts = "sys_tasks y - {#Execution v#}"
  note h = held_execution [OF inv held]
  have len: "?t < length (tx_states s)" using h(1) same sched_inv_shape(1) [OF inv] by simp
  let ?tx = "(tx_states s ! ?t)\<lparr>status := (if c then Conflict else Executed)\<rparr>"
  obtain s1 where s1: "on_ctx (context_executed ?t) (set_tx_state ?t ?tx s) = Some s1"
    using fin len by (auto simp: execute_done_def Let_def list_get_def bind_eq_Some_conv)
  note f1 = local_change_after [OF local_change_cells(1) [OF ch] s1 ctx_change_executed]
  have st1: "tx_states s1 ! ?t = ?tx" using f1 len by simp
  have ret: "sched_inv (y\<lparr>sys_sched := s2, sys_tasks := ?ts\<rparr>)"
    if "on_ctx (rewind_validation_to j) s1 = Some s2" "?t \<le> j" for j s2
  proof -
    have f2: "local_change ?t (sys_sched y) s2 \<and> tx_states s2 = tx_states s1 \<and> tx_results s2 = tx_results s1 \<and>
        s_beneficiary s2 = s_beneficiary s1 \<and> s_abort_reason s2 = s_abort_reason s1 \<and> s_txs s2 = s_txs s1"
      using f1 that ctx_change_rewind by (intro local_change_after) auto
    have "sched_inv (y\<lparr>sys_sched := s2, sys_tasks := ?ts + {#}\<rparr>)"
      by (rule sched_inv_return [OF inv held]) (use f1 f2 st1 h same pub err res in \<open>auto simp: next_status_def split: if_splits\<close>)
    then show ?thesis by simp
  qed
  show ?thesis
  proof (cases nxt)
    case (Some i)
    then obtain s2 where s2: "on_ctx (rewind_validation_to ?t) s1 = Some s2" and task: "execution_task i s2 = Some (t, s')"
      using fin len s1 by (auto simp: execute_done_def Let_def list_get_def bind_eq_Some_conv)
    show ?thesis using sched_inv_claim_execution [OF ret [OF s2], of i t s'] task by simp
  next
    case None
    consider "c" | "\<not> c" "n" | "\<not> c" "\<not> n" by blast
    then show ?thesis
    proof cases
      case 1
      then show ?thesis using fin len s1 None ret [of "Suc ?t"]
        by (auto simp: execute_done_def Let_def list_get_def bind_eq_Some_conv)
    next
      case 2
      then show ?thesis using fin len s1 None ret [of ?t]
        by (auto simp: execute_done_def Let_def list_get_def bind_eq_Some_conv)
    next
      case 3
      have v: "Validation (TxVersion ?t (v_incarnation v)) = Validation v" by simp
      have t: "t = Some (Validation v)" and s': "s' = set_tx_state ?t (?tx\<lparr>status := Validating\<rparr>) s1"
        using fin len s1 None 3 by (auto simp: execute_done_def Let_def list_get_def)
      have "local_change ?t (sys_sched y) s'" unfolding s' using f1 by (intro local_change_cells) simp
      then have "sched_inv (y\<lparr>sys_sched := s', sys_tasks := ?ts + {#Validation v#}\<rparr>)"
        by (rule sched_inv_return [OF inv held, rotated])
          (use f1 len h same pub err res 3 in \<open>auto simp: next_status_def s'\<close>)
      then show ?thesis by (simp add: t)
    qed
  qed
qed

lemma sched_inv_execute:
  assumes inv: "sched_inv y" and held: "Execution v \<in># sys_tasks y"
    and ex: "execute_task R executor v (sys_sched y) = Some (t, s')"
  shows "sched_inv (y\<lparr>sys_sched := s', sys_tasks := sys_tasks y - {#Execution v#} + opt_task t\<rparr>)"
proof -
  let ?t = "v_txid v" and ?s = "sys_sched y"
  note h = held_execution [OF inv held] and shape = sched_inv_shape [OF inv]
  obtain ie m where ie: "executor v (s_txs ?s ! ?t) (bump_metrics record_execution_attempt ?s) = Some (ie, m)"
    using ex h shape by (auto simp: execute_task_def Let_def list_get_def bind_eq_Some_conv)
  let ?s2 = "(bump_metrics record_execution_attempt ?s)\<lparr>s_memory := m\<rparr>"
  obtain r where r: "(case ie_result ie of Inr sr \<Rightarrow> execute_ok R v sr (ie_accesses ie) ?s2
      | Inl e \<Rightarrow> execute_err v e (ie_accesses ie) ?s2) = Some r"
    using ex h shape ie by (auto simp: execute_task_def Let_def list_get_def bind_eq_Some_conv)
  have "arm_done v ?s2 r"
    using r h shape execute_ok_done [of R v _ "ie_accesses ie" ?s2 r] execute_err_done [of v _ "ie_accesses ie" ?s2 r]
    by (auto split: sum.splits)
  then obtain c n nxt s3 where arm: "r = (Inr (c, n, nxt), s3)" "local_change ?t ?s2 s3" "tx_states s3 = tx_states ?s"
      "published_incarnation s3 ?t = v_incarnation v" "no_parallel_error (s_abort_reason s3)"
      "\<not> c \<longrightarrow> (\<exists>x sr. tx_results s3 ! ?t = Some x \<and> execute_result x = Inr sr)"
    using shape(5) by (auto simp: arm_done_def)
  have ch: "local_change ?t ?s s3" using arm(2) by (rule local_change_trans [rotated]) simp
  have "execute_done v c n nxt s3 = Some (t, s')"
    using ex h shape ie r arm(1) by (simp add: execute_task_def Let_def list_get_def)
  then show ?thesis using sched_inv_execute_done [OF inv held ch arm(3-5)] arm(6) by blast
qed

lemma validate_conflict_frame:
  assumes "validate_conflict v ws s = Some (ok, s')" and "published_incarnation s (v_txid v) = v_incarnation v"
  shows "ok" "local_change (v_txid v) s s'" "tx_states s' = tx_states s" "tx_results s' = tx_results s"
    "published_incarnation s' (v_txid v) = v_incarnation v" "s_abort_reason s' = s_abort_reason s" "scheduler_ctx s' = scheduler_ctx s"
proof -
  obtain ok' b where b: "invalidate v (s_beneficiary s) = Some (ok', b)"
    using assms(1) by (auto simp: validate_conflict_def Let_def bind_eq_Some_conv)
  note at = invalidate_at [OF b assms(2)]
  have s': "ok" "s' = ((bump_metrics record_version_conflict s)\<lparr>s_memory := mark_mv_estimate (v_txid v) ws (s_memory s)\<rparr>)\<lparr>s_beneficiary := b\<rparr>"
    using assms(1) b at by (auto simp: validate_conflict_def Let_def)
  show "ok" by (rule s'(1))
  show "local_change (v_txid v) s s'" unfolding s'(2) using at by (intro local_change_beneficiary) simp_all
  show "tx_states s' = tx_states s" "tx_results s' = tx_results s"
    "published_incarnation s' (v_txid v) = v_incarnation v" "s_abort_reason s' = s_abort_reason s" "scheduler_ctx s' = scheduler_ctx s"
    using at by (simp_all add: s'(2))
qed

text \<open>After the scan: the transaction is in conflict or unconfirmed.\<close>

lemma validate_finish_frame:
  assumes fin: "validate_finish v ts ws c dep s = Some s'" and pub: "published_incarnation s (v_txid v) = v_incarnation v"
    and ts: "ts < ctx_clock (scheduler_ctx s)" and len: "v_txid v < length (tx_states s)"
  shows "local_change (v_txid v) s s'" "tx_states s' ! v_txid v = (tx_states s ! v_txid v)\<lparr>status := (if c then Conflict else Unconfirmed), dependency := dep\<rparr>"
    "tx_results s' = tx_results s" "published_incarnation s' (v_txid v) = v_incarnation v" "s_abort_reason s' = s_abort_reason s"
proof -
  let ?t = "v_txid v"
  obtain go s1 where s1: "(if c then validate_conflict v ws s else Some (True, s)) = Some (go, s1)"
    using fin by (auto simp: validate_finish_def Let_def bind_eq_Some_conv)
  have f1: "go" "local_change ?t s s1" "tx_states s1 = tx_states s" "tx_results s1 = tx_results s"
    "published_incarnation s1 ?t = v_incarnation v" "s_abort_reason s1 = s_abort_reason s" "scheduler_ctx s1 = scheduler_ctx s"
    using s1 validate_conflict_frame [OF _ pub, of ws go s1] pub by (auto split: if_splits)
  obtain s2 where s2: "(if c then on_ctx (rewind_validation_to (?t + 1)) s1 else on_ctx (context_unconfirmed ?t ts) s1) = Some s2"
    using fin s1 f1(1) by (auto simp: validate_finish_def Let_def bind_eq_Some_conv)
  obtain ctx where ctx: "on_ctx ctx s1 = Some s2" "\<And>c'. ctx (scheduler_ctx s1) = Some c' \<Longrightarrow> ctx_change ?t (scheduler_ctx s1) c'"
  proof (cases c)
    case True
    then show thesis using that [of "rewind_validation_to (?t + 1)"] s2 ctx_change_rewind by fastforce
  next
    case False
    then show thesis using that [of "context_unconfirmed ?t ts"] s2 ctx_change_unconfirmed ts f1(7) by fastforce
  qed
  note f2 = local_change_after [OF f1(2) ctx]
  define s3 where "s3 = set_tx_state ?t ((tx_states s ! ?t)\<lparr>status := (if c then Conflict else Unconfirmed), dependency := dep\<rparr>) s2"
  obtain s4 where s4: "requeue_conflict ?t c dep s3 = Some s4" and s': "s' = wake_finality ?t s4"
    using fin s1 f1(1,3) s2 f2 len unfolding s3_def
    by (auto simp: validate_finish_def Let_def list_get_def bind_eq_Some_conv)
  have f3: "local_change ?t s s3" unfolding s3_def using f2 by (intro local_change_cells) simp
  have f4: "local_change ?t s3 s4 \<and> tx_states s4 = tx_states s3 \<and> tx_results s4 = tx_results s3 \<and>
      s_beneficiary s4 = s_beneficiary s3 \<and> s_abort_reason s4 = s_abort_reason s3"
    using s4 by (auto simp: requeue_conflict_def on_dependency_def split: if_splits)
  have "local_change ?t s s4" using f3 f4 local_change_trans by blast
  then show "local_change ?t s s'" by (auto simp: s' wake_finality_def)
  show "tx_states s' ! ?t = (tx_states s ! ?t)\<lparr>status := (if c then Conflict else Unconfirmed), dependency := dep\<rparr>"
    "tx_results s' = tx_results s" "published_incarnation s' ?t = v_incarnation v" "s_abort_reason s' = s_abort_reason s"
    using f1 f2 f4 len by (auto simp: s' s3_def wake_finality_def)
qed

lemma sched_inv_validate:
  assumes inv: "sched_inv y" and held: "Validation v \<in># sys_tasks y" and val: "validate v (sys_sched y) = Some s'"
  shows "sched_inv (y\<lparr>sys_sched := s', sys_tasks := sys_tasks y - {#Validation v#}\<rparr>)"
proof -
  let ?t = "v_txid v" and ?s = "sys_sched y"
  note h = held_validation [OF inv held] and shape = sched_inv_shape [OF inv]
  obtain r sr where r: "tx_results ?s ! ?t = Some r" "execute_result r = Inr sr" using h(5) by blast
  obtain ts c where ts: "logical_timestamp (scheduler_ctx ?s) = (ts, c)" by fastforce
  let ?s2 = "(bump_metrics record_validation_attempt ?s)\<lparr>scheduler_ctx := c\<rparr>"
  obtain k dep where fin: "validate_finish v ts (write_set r) k dep ?s2 = Some s'"
    using val h shape r ts by (auto simp: validate_def Let_def list_get_def bind_eq_Some_conv)
  have ch: "local_change ?t ?s ?s2" using ctx_change_timestamp [OF ts] by (intro local_change_ctx) simp_all
  have clk: "ts < ctx_clock c" using ts by (auto simp: logical_timestamp_def)
  have f: "local_change ?t ?s2 s'" "tx_states s' ! ?t = (tx_states ?s ! ?t)\<lparr>status := (if k then Conflict else Unconfirmed), dependency := dep\<rparr>"
    "tx_results s' = tx_results ?s" "published_incarnation s' ?t = v_incarnation v" "s_abort_reason s' = s_abort_reason ?s"
    using validate_finish_frame [OF fin] h shape clk by auto
  have "sched_inv (y\<lparr>sys_sched := s', sys_tasks := sys_tasks y - {#Validation v#} + {#}\<rparr>)"
    by (rule sched_inv_return [OF inv held])
      (use f h r shape local_change_trans [OF ch f(1)] in \<open>auto simp: next_status_def split: if_splits\<close>)
  then show ?thesis by simp
qed

section \<open>Finality and commit\<close>

lemma lock_finality_candidateD:
  assumes "lock_finality_candidate f l s = Some (Some (tx, e))"
  shows "f < block_size s" "f < length (tx_states s)" "tx = tx_states s ! f" "status tx = Unconfirmed"
    "f < length (lower_timestamps (scheduler_ctx s))" "f < length (unconfirmed_timestamps (scheduler_ctx s))"
    "e = max l (lower_timestamps (scheduler_ctx s) ! f)" "e < unconfirmed_timestamps (scheduler_ctx s) ! f"
  using assms
  by (auto simp: lock_finality_candidate_def list_get_def lower_timestamp_def unconfirmed_timestamp_def Let_def
      split: if_splits Option.bind_splits)

lemma finalize_candidate_fields [simp]:
  "tx_states (finalize_candidate b f tx s) = (tx_states s)[f := tx\<lparr>status := Finality\<rparr>]"
  "tx_results (finalize_candidate b f tx s) = tx_results s" "s_beneficiary (finalize_candidate b f tx s) = s_beneficiary s"
  "s_abort_reason (finalize_candidate b f tx s) = s_abort_reason s"
  "results (finalize_candidate b f tx s) = results s"
  "scheduler_ctx (finalize_candidate b f tx s) = publish_finality (f + 1) (scheduler_ctx s)"
  by (simp_all add: finalize_candidate_def Let_def)

lemma publish_finality_fields [simp]:
  "finality_idx (publish_finality n c) = n" "committed_idx (publish_finality n c) = committed_idx c"
  "lower_timestamps (publish_finality n c) = lower_timestamps c" "unconfirmed_timestamps (publish_finality n c) = unconfirmed_timestamps c"
  "ctx_num_txs (publish_finality n c) = ctx_num_txs c" "context_wf (publish_finality n c) = context_wf c"
  by (cases "ctx_finality c"; simp add: publish_finality_def finality_idx_def committed_idx_def context_wf_def)+

lemma publish_commit_fields [simp]:
  "committed_idx (publish_commit n c) = n" "finality_idx (publish_commit n c) = finality_idx c"
  "lower_timestamps (publish_commit n c) = lower_timestamps c" "unconfirmed_timestamps (publish_commit n c) = unconfirmed_timestamps c"
  "ctx_num_txs (publish_commit n c) = ctx_num_txs c" "context_wf (publish_commit n c) = context_wf c"
  by (cases "ctx_committed c"; simp add: publish_commit_def finality_idx_def committed_idx_def context_wf_def)+

lemma sched_inv_finality:
  assumes inv: "sched_inv y" and cand: "lock_finality_candidate (sys_final y) (sys_lower y) (sys_sched y) = Some (Some (tx, l))"
  shows "sched_inv (y\<lparr>sys_sched := finalize_candidate b (sys_final y) tx (sys_sched y), sys_final := sys_final y + 1, sys_lower := l\<rparr>)"
proof -
  let ?f = "sys_final y" and ?s = "sys_sched y"
  let ?s' = "finalize_candidate b ?f tx ?s"
  note c = lock_finality_candidateD [OF cand]
  have shape: "shape_ok ?s'" using inv by (simp add: sched_inv_def shape_ok_def)
  have tx: "tx_ok ?s' (sys_tasks y) (pc_taken (sys_commit y)) t" if "t < block_size ?s" for t
  proof (cases "t = ?f")
    case True
    have "tx_ok ?s (sys_tasks y) (pc_taken (sys_commit y)) ?f" using sched_inv_tx(1) [OF inv c(1)] .
    then show ?thesis using c(2-4) True unfolding tx_ok_def Let_def by simp
  next
    case False
    then show ?thesis using sched_inv_tx(1) [OF inv that] by (simp add: tx_ok_def)
  qed
  have fin: "final_ok ?s ?f (sys_lower y)" using inv by (simp add: sched_inv_def)
  have st: "status (tx_states ?s' ! t) = Finality \<longleftrightarrow> t < ?f + 1" if "t < block_size ?s" for t
    using fin that c(2) by (cases "t = ?f") (auto simp: final_ok_def)
  have low: "lower_timestamps (scheduler_ctx ?s) ! j \<le> l" if "j < ?f + 1" for j
    using fin that c(7) by (cases "j = ?f") (auto simp: final_ok_def less_Suc_eq)
  have new: "lower_timestamps (scheduler_ctx ?s) ! j < unconfirmed_timestamps (scheduler_ctx ?s) ! t" if "t < ?f + 1" "j \<le> t" for t j
  proof (cases "t = ?f")
    case True
    then show ?thesis using low [of j] that c(8) by simp
  next
    case False
    then show ?thesis using fin that by (simp add: final_ok_def)
  qed
  have "final_ok ?s' (?f + 1) l" using c(1) st low new unfolding final_ok_def by simp
  moreover have "commit_ok ?s' (sys_commit y)" using inv fin by (simp add: sched_inv_def commit_ok_def final_ok_def)
  ultimately show ?thesis using inv shape tx by (simp add: sched_inv_def)
qed

lemma oc_commit_output:
  assumes "oc_commit R A add i tx sr out oc = Some (r, out', oc')"
  shows "(\<exists>n. r = Inr (Committed n) \<and> n = Suc (length out) \<and> length out' = Suc (length out)) \<or>
    (r = Inr NeedsSequentialFallback \<or> (\<exists>e. r = Inl e)) \<and> out' = out"
proof -
  have state: "\<exists>n. r = Inr (Committed n) \<and> n = Suc (length out) \<and> length out' = Suc (length out)"
    if "commit_state R A add x st out oc1 = Some (r, out', oc')" for x st oc1
    using that by (auto simp: commit_state_def output_push_def output_end_def bind_eq_Some_conv)
  have reward: "?thesis" if "commit_reward R A add i x st rw out oc1 = Some (r, out', oc')" for x st rw oc1
    using that state by (fastforce simp: commit_reward_def split: option.splits if_splits prod.splits sum.splits)
  show ?thesis using assms reward
    by (fastforce simp: oc_commit_def into_commit_parts_def split: prod.splits sum.splits if_splits)
qed

text \<open>Taking the result of the commit head.\<close>

lemma sched_inv_take:
  assumes inv: "sched_inv y" and pc: "sys_commit y = CommitRunning i out" and i: "i < sys_final y"
    and same: "s_txs s' = s_txs (sys_sched y)" "tx_states s' = tx_states (sys_sched y)"
      "tx_results s' = (tx_results (sys_sched y))[i := None]" "s_beneficiary s' = s_beneficiary (sys_sched y)"
      "results s' = results (sys_sched y)"
    and ctx: "scheduler_ctx s' = scheduler_ctx (sys_sched y) \<or> scheduler_ctx s' = publish_commit (pc_idx pc') (scheduler_ctx (sys_sched y))"
    and err: "no_parallel_error (s_abort_reason s')" and pc': "pc_taken pc' = Suc i" "commit_ok s' pc'"
  shows "sched_inv (y\<lparr>sys_sched := s', sys_oc := oc', sys_commit := pc'\<rparr>)"
proof -
  let ?s = "sys_sched y"
  have fields: "finality_idx (scheduler_ctx s') = finality_idx (scheduler_ctx ?s)"
    "lower_timestamps (scheduler_ctx s') = lower_timestamps (scheduler_ctx ?s)"
    "unconfirmed_timestamps (scheduler_ctx s') = unconfirmed_timestamps (scheduler_ctx ?s)"
    "ctx_num_txs (scheduler_ctx s') = ctx_num_txs (scheduler_ctx ?s)"
    "context_wf (scheduler_ctx s') = context_wf (scheduler_ctx ?s)"
    using ctx by auto
  have tx: "tx_ok s' (sys_tasks y) (Suc i) t" if "t < block_size ?s" for t
  proof (cases "t = i")
    case True
    have "status (tx_states ?s ! i) = Finality" using inv i that True by (simp add: sched_inv_def final_ok_def)
    then show ?thesis using sched_inv_tx(1) [OF inv that] True unfolding tx_ok_def Let_def same(2,4) by simp
  next
    case False
    then show ?thesis using sched_inv_tx(1) [OF inv that] pc unfolding tx_ok_def Let_def same(2-4) by auto
  qed
  have "shape_ok s'" using sched_inv_shape [OF inv] inv same fields by (simp add: shape_ok_def sched_inv_def)
  moreover have "final_ok s' (sys_final y) (sys_lower y)" using inv same fields by (simp add: sched_inv_def final_ok_def)
  ultimately show ?thesis using inv tx err pc' same by (simp add: sched_inv_def)
qed

lemma sched_inv_commit:
  assumes inv: "sched_inv y" and pc: "sys_commit y = CommitRunning i out"
    and i: "i < finality_idx (scheduler_ctx (sys_sched y))"
    and com: "commit_one R A add i out (sys_oc y) (sys_sched y) = Some (r, oc', s')"
  shows "sched_inv (y\<lparr>sys_sched := s', sys_oc := oc',
      sys_commit := (case r of Inr (n, out') \<Rightarrow> CommitRunning n out' | Inl e \<Rightarrow> CommitEnded i e)\<rparr>)"
proof -
  let ?s = "sys_sched y" and ?s1 = "set_tx_result i None (sys_sched y)"
  have f: "i < sys_final y" "i < block_size ?s" "status (tx_states ?s ! i) = Finality"
    using inv i by (auto simp: sched_inv_def final_ok_def)
  have out: "length out = i" "committed_idx (scheduler_ctx ?s) = i" using inv pc by (simp_all add: sched_inv_def commit_ok_def)
  obtain x sr where x: "tx_results ?s ! i = Some x" "execute_result x = Inr sr"
    using sched_inv_tx(1) [OF inv f(2)] f(3) pc by (auto simp: tx_ok_def Let_def)
  obtain outcome out' oc1 where oc: "oc_commit R A add i (s_txs ?s ! i) sr out (sys_oc y) = Some (outcome, out', oc1)"
    and rest: "after_commit i outcome out' oc1 ?s1 = Some (r, oc', s')"
    using com x f sched_inv_shape(2) [OF inv] by (auto simp: commit_one_def Let_def list_get_def bind_eq_Some_conv)
  have err: "no_parallel_error (s_abort_reason (abort FallbackSequential ?s1))"
    "\<And>e. no_parallel_error (s_abort_reason (abort (CommitError e) ?s1))"
    using sched_inv_shape(5) [OF inv] by (auto simp: abort_def cancel_def no_parallel_error_def split: option.split)
  consider (adv) n s2 where "outcome = Inr (Committed n)" "n = Suc i" "length out' = Suc i"
      "on_dependency (td_commit i) (?s1\<lparr>scheduler_ctx := publish_commit n (scheduler_ctx ?s1)\<rparr>) = Some s2"
      "r = Inr (n, out')" "s' = s2"
    | (leave) reason e where "r = Inl \<lparr>clr_committed = out, clr_error = e\<rparr>" "s' = abort reason ?s1" "no_parallel_error (s_abort_reason s')"
    using oc_commit_output [OF oc] rest out err by (auto simp: after_commit_def bind_eq_Some_conv)
  then show ?thesis
  proof cases
    case adv
    note d = local_change_on_dependency [OF adv(4)]
    show ?thesis
      by (rule sched_inv_take [OF inv pc f(1)])
        (use d adv f i sched_inv_shape(5) [OF inv] in \<open>auto simp: commit_ok_def\<close>)
  next
    case leave
    show ?thesis
      by (rule sched_inv_take [OF inv pc f(1)])
        (use leave out i in \<open>auto simp: commit_ok_def abort_def cancel_def\<close>)
  qed
qed

section \<open>Reachable states\<close>

lemma sched_inv_step: "sched_step R A add E y y' \<Longrightarrow> sched_inv y \<Longrightarrow> sched_inv y'"
proof (induction rule: sched_step.induct)
  case (work task y executor t s')
  then show ?case using sched_inv_execute [of y _ R executor t s'] sched_inv_validate [of y]
    by (cases task) (auto simp: worker_task_def)
next
  case (panic y)
  have "no_parallel_error (s_abort_reason (cancel (sys_sched y)))"
    using sched_inv_shape(5) [OF panic] by (simp add: cancel_def)
  then show ?case using sched_inv_quiet [OF panic, of "cancel (sys_sched y)"] by simp
qed (blast intro: sched_inv_next sched_inv_claim_validation sched_inv_claim_execution sched_inv_finality sched_inv_commit)+

lemma sched_inv_reachable: "(sched_step R A add E)\<^sup>*\<^sup>* y y' \<Longrightarrow> sched_inv y \<Longrightarrow> sched_inv y'"
  by (induction rule: rtranclp_induct) (auto intro: sched_inv_step)

text \<open>The start of a block: a new history of the block's length.\<close>

definition block_start :: "tx_env list \<Rightarrow> address \<Rightarrow> account_info option \<Rightarrow> ('e, 't, 'b) ordered_committer \<Rightarrow> ('r, 'e, 't, 'b) sched_sys" where
  "block_start txs ben anchor oc = sys_new txs (beneficiary_new ben anchor (length txs)) oc"

lemma sched_inv_start: "sched_inv (block_start txs ben anchor oc)"
  unfolding block_start_def
  by (rule sched_inv_new) (auto simp: beneficiary_new_def history_new_def entry_estimate_def)

section \<open>Properties\<close>

fun task_version :: "task \<Rightarrow> tx_version" where
  "task_version (Execution v) = v"
| "task_version (Validation v) = v"

lemma own_tasks:
  assumes inv: "sched_inv y" and t: "t < block_size (sys_sched y)"
  shows "filter_mset (\<lambda>k. v_txid (task_version k) = t) (sys_tasks y) =
    (let st = tx_states (sys_sched y) ! t
     in if status st = Executing then {#Execution (TxVersion t (incarnation st))#}
        else if status st = Validating then {#Validation (TxVersion t (incarnation st))#} else {#})"
proof (rule multiset_eqI)
  fix k
  let ?st = "tx_states (sys_sched y) ! t"
  have counts: "count (sys_tasks y) (Execution (TxVersion t i)) = (if status ?st = Executing \<and> incarnation ?st = i then 1 else 0)"
    "count (sys_tasks y) (Validation (TxVersion t i)) = (if status ?st = Validating \<and> incarnation ?st = i then 1 else 0)" for i
    using sched_inv_tx(1) [OF inv t] unfolding tx_ok_def Let_def by blast+
  obtain v where k: "k = Execution v \<or> k = Validation v" by (cases k) auto
  obtain u i where v: "v = TxVersion u i" by (cases v)
  show "count (filter_mset (\<lambda>k. v_txid (task_version k) = t) (sys_tasks y)) k =
      count (let st = ?st in if status st = Executing then {#Execution (TxVersion t (incarnation st))#}
        else if status st = Validating then {#Validation (TxVersion t (incarnation st))#} else {#}) k"
  proof (cases "u = t")
    case True
    then show ?thesis using k counts [of i] by (elim disjE) (simp_all add: v Let_def)
  next
    case False
    then show ?thesis using k by (elim disjE) (simp_all add: v Let_def)
  qed
qed

text \<open>\<^bold>\<open>C13\<close>. The scheduler's consistency checks never fire: in no interleaving of workers, finality thread,
  commit thread and cancellations does the scheduler abort with a \<open>ParallelError\<close>, that is, no
  task ever meets another incarnation than its own, no validation or commit meets a missing or
  failed result, and no beneficiary publication is stale.\<close>

theorem scheduler_consistent:
  assumes "(sched_step R A add E)\<^sup>*\<^sup>* (block_start txs ben anchor oc) y"
  shows "s_abort_reason (sys_sched y) \<noteq> Some (ParallelError t m)"
  using sched_inv_shape(5) [OF sched_inv_reachable [OF assms sched_inv_start]] by (simp add: no_parallel_error_def)

text \<open>\<^bold>\<open>C16\<close>. Every transaction has one owner: in every reachable state the tasks held by workers for a
  transaction are exactly one execution of its current incarnation while its status is \<open>Executing\<close>,
  one validation of it while \<open>Validating\<close>, and none otherwise.\<close>

theorem one_owner:
  assumes "(sched_step R A add E)\<^sup>*\<^sup>* (block_start txs ben anchor oc) y" and "t < block_size (sys_sched y)"
  shows "filter_mset (\<lambda>k. v_txid (task_version k) = t) (sys_tasks y) =
    (let st = tx_states (sys_sched y) ! t
     in if status st = Executing then {#Execution (TxVersion t (incarnation st))#}
        else if status st = Validating then {#Validation (TxVersion t (incarnation st))#} else {#})"
  by (rule own_tasks [OF sched_inv_reachable [OF assms(1) sched_inv_start] assms(2)])

text \<open>\<^bold>\<open>C14\<close>. Finality and commit are ordered prefixes: exactly the transactions below the finality index
  are final, the committed prefix lies inside it and is as long as the ordered output, and no
  validation rewind at or below a final transaction is as new as the validation it was
  finalized with.\<close>

theorem finality_prefix:
  assumes "(sched_step R A add E)\<^sup>*\<^sup>* (block_start txs ben anchor oc) y"
  shows "let s = sys_sched y; c = scheduler_ctx s
    in committed_idx c = length (pc_output (sys_commit y)) \<and> committed_idx c \<le> finality_idx c \<and> finality_idx c \<le> block_size s \<and>
      (\<forall>t. t < block_size s \<longrightarrow> (status (tx_states s ! t) = Finality) = (t < finality_idx c)) \<and>
      (\<forall>t j. j \<le> t \<and> t < finality_idx c \<longrightarrow> lower_timestamps c ! j < unconfirmed_timestamps c ! t)"
proof -
  have inv: "sched_inv y" by (rule sched_inv_reachable [OF assms sched_inv_start])
  have "pc_idx (sys_commit y) \<le> pc_taken (sys_commit y)" by (cases "sys_commit y") auto
  then show ?thesis using inv by (auto simp: sched_inv_def final_ok_def commit_ok_def Let_def)
qed

text \<open>\<^bold>\<open>C17\<close>. Whenever the commit loop ends, installing its result passes both assertions: the output and
  the published cursor name the same prefix and no outcome was installed before.\<close>

theorem install_never_panics:
  assumes "(sched_step R A add E)\<^sup>*\<^sup>* (block_start txs ben anchor oc) y"
  shows "\<exists>x. install_commit_loop_result (pc_result (sys_commit y)) (sys_sched y) =
      Some (x, (sys_sched y)\<lparr>results := pc_output (sys_commit y)\<rparr>) \<and>
    (case clr_error (pc_result (sys_commit y)) of None \<Rightarrow> x = Inr (pc_idx (sys_commit y)) | Some e \<Rightarrow> x = Inl e)"
proof -
  have "sched_inv y" by (rule sched_inv_reachable [OF assms(1) sched_inv_start])
  then show ?thesis
    by (cases "sys_commit y") (auto simp: sched_inv_def commit_ok_def shape_ok_def install_commit_loop_result_def output_end_def
        Let_def split: option.split)
qed

section \<open>A concrete run\<close>

text \<open>Commands that run the threads' steps; \<open>X y\<close> is the executor a worker uses in state \<open>y\<close>.\<close>

datatype sched_cmd = DoNext | DoWork task | DoFinality | DoCommit

type_synonym sample_sys = "(nat, unit, nat, unit) sched_sys"

fun sched_do :: "(sample_sys \<Rightarrow> (nat, unit) executor) \<Rightarrow> sched_cmd \<Rightarrow> sample_sys \<Rightarrow> sample_sys option" where
  "sched_do X DoNext y =
    do { (t, s') \<leftarrow> next_iteration (sys_sched y);
         Some (y\<lparr>sys_sched := s', sys_tasks := sys_tasks y + opt_task t\<rparr>) }"
| "sched_do X (DoWork k) y =
    (if k \<in># sys_tasks y then
       do { (t, s') \<leftarrow> worker_task sample_revm (X y) k (sys_sched y);
            Some (y\<lparr>sys_sched := s', sys_tasks := sys_tasks y - {#k#} + opt_task t\<rparr>) }
     else None)"
| "sched_do X DoFinality y =
    do { c \<leftarrow> lock_finality_candidate (sys_final y) (sys_lower y) (sys_sched y);
         (tx, l) \<leftarrow> c;
         Some (y\<lparr>sys_sched := finalize_candidate True (sys_final y) tx (sys_sched y),
           sys_final := sys_final y + 1, sys_lower := l\<rparr>) }"
| "sched_do X DoCommit y =
    (case sys_commit y of
       CommitRunning i out \<Rightarrow>
         if i < finality_idx (scheduler_ctx (sys_sched y)) then
           do { (r, oc', s') \<leftarrow> commit_one sample_revm sample_status (\<lambda>_ t. t) i out (sys_oc y) (sys_sched y);
                Some (y\<lparr>sys_sched := s', sys_oc := oc',
                  sys_commit := (case r of Inr (n, out') \<Rightarrow> CommitRunning n out' | Inl e \<Rightarrow> CommitEnded i e)\<rparr>) }
         else None
     | CommitEnded i r \<Rightarrow> None)"

lemma sched_do_step:
  assumes "sched_do X c y = Some y'" and "X y \<in> E"
  shows "sched_step sample_revm sample_status (\<lambda>_ t. t) E y y'"
proof (cases c)
  case DoFinality
  then obtain tx l where "lock_finality_candidate (sys_final y) (sys_lower y) (sys_sched y) = Some (Some (tx, l))"
    and "y' = y\<lparr>sys_sched := finalize_candidate True (sys_final y) tx (sys_sched y), sys_final := sys_final y + 1, sys_lower := l\<rparr>"
    using assms by (auto simp: bind_eq_Some_conv)
  then show ?thesis using sched_step.finality by blast
next
  case DoCommit
  then show ?thesis using assms
    by (auto simp: bind_eq_Some_conv split: commit_pc.splits if_splits intro: sched_step.commit)
next
  case (DoWork k)
  then obtain t s' where "k \<in># sys_tasks y"
    and "worker_task sample_revm (X y) k (sys_sched y) = Some (t, s')"
    and "y' = y\<lparr>sys_sched := s', sys_tasks := sys_tasks y - {#k#} + opt_task t\<rparr>"
    using assms by (auto simp: bind_eq_Some_conv split: if_splits)
  then show ?thesis using sched_step.work assms(2) by blast
next
  case DoNext
  then obtain t s' where "next_iteration (sys_sched y) = Some (t, s')"
    and "y' = y\<lparr>sys_sched := s', sys_tasks := sys_tasks y + opt_task t\<rparr>"
    using assms by (auto simp: bind_eq_Some_conv)
  then show ?thesis using sched_step.claim by blast
qed

fun sched_run :: "(sample_sys \<Rightarrow> (nat, unit) executor) \<Rightarrow> sched_cmd list \<Rightarrow> sample_sys \<Rightarrow> sample_sys option" where
  "sched_run X [] y = Some y"
| "sched_run X (c # cs) y = do { y1 \<leftarrow> sched_do X c y; sched_run X cs y1 }"

text \<open>The executor of \<open>executor.rs\<close> whose every access sees the world \<open>w\<close>, and a transaction that reads its
  sender and slot 0 of it, bumps the nonce and increments the slot.\<close>

definition world_executor :: "(tx_id \<Rightarrow> tx_env \<Rightarrow> ('r, 'e) tx_program) \<Rightarrow> revm_ops \<Rightarrow> 'e world \<Rightarrow> ('r, 'e) executor" where
  "world_executor prog R w = (\<lambda>v tx s. map_option (\<lambda>(ie, _, m). (ie, m))
     (execute_incarnation R (\<lambda>_. w) prog (s_beneficiary s) v tx (idb_new 0) (s_memory s)))"

definition sample_bumped :: "account_info \<Rightarrow> u256 \<Rightarrow> account" where
  "sample_bumped i v =
    \<lparr>acct_info = i\<lparr>info_nonce := info_nonce i + 1, info_code := (if info_code_hash i = keccak_empty then None else info_code i)\<rparr>,
     is_touched = True, is_selfdestructed = False, is_created = False,
     acct_storage = [(0, \<lparr>original_value = v, present_value = v + 1\<rparr>)]\<rparr>"

definition sample_counter :: "tx_env \<Rightarrow> (nat, unit) tx_program" where
  "sample_counter tx = EBasic (caller tx) (\<lambda>acc.
     case acc of None \<Rightarrow> EDone (Inr (\<lparr>ho_result = 0, ho_deferred_reward = None\<rparr>, []))
     | Some i \<Rightarrow> EStorage (caller tx) 0 (\<lambda>v.
         EDone (Inr (\<lparr>ho_result = unat v, ho_deferred_reward = None\<rparr>, [(caller tx, sample_bumped i v)]))))"

definition sample_executor :: "(nat, unit) executor" where
  "sample_executor = world_executor (\<lambda>_. sample_counter) sample_revm
     \<lparr>w_mv = \<lambda>_. Map.empty, w_ben = beneficiary_new 9 None 1, w_db = sample_state_db\<rparr>"

text \<open>A block of one transaction, executed, validated, finalized and committed.\<close>

definition sample_block :: sample_sys where
  "sample_block = block_start [sample_commit_tx] 9 None (committer_new 9 (parallel_state_new sample_state_db True 0 ()) False)"

definition sample_cmds :: "sched_cmd list" where
  "sample_cmds = [DoNext, DoWork (Execution (TxVersion 0 1)), DoNext]"

definition sample_cmds_end :: "sched_cmd list" where
  "sample_cmds_end = sample_cmds @ [DoWork (Validation (TxVersion 0 1)), DoFinality, DoCommit]"

lemma sched_run_steps:
  "sched_run (\<lambda>_. x) cs y = Some y' \<Longrightarrow> x \<in> E \<Longrightarrow> (sched_step sample_revm sample_status (\<lambda>_ t. t) E)\<^sup>*\<^sup>* y y'"
  by (induction cs arbitrary: y)
    (auto simp: bind_eq_Some_conv dest!: sched_do_step intro: converse_rtranclp_into_rtranclp)

text \<open>The state after commands that all succeed.\<close>

lemma sched_run_reachable:
  assumes "case sched_run (\<lambda>_. sample_executor) cs sample_block of None \<Rightarrow> False | Some y \<Rightarrow> P y" and "sample_executor \<in> E"
  shows "\<exists>y. (sched_step sample_revm sample_status (\<lambda>_ t. t) E)\<^sup>*\<^sup>* sample_block y \<and> P y"
  using assms sched_run_steps [of sample_executor cs sample_block] by (auto split: option.splits)

lemma sample_committed:
  obtains y where "(sched_step sample_revm sample_status (\<lambda>_ t. t) UNIV)\<^sup>*\<^sup>* sample_block y"
    and "committed_idx (scheduler_ctx (sys_sched y)) = 1" and "block_size (sys_sched y) = 1"
proof -
  have "case sched_run (\<lambda>_. sample_executor) sample_cmds_end sample_block of None \<Rightarrow> False
      | Some y \<Rightarrow> committed_idx (scheduler_ctx (sys_sched y)) = 1 \<and> block_size (sys_sched y) = 1"
    by code_simp
  from sched_run_reachable [OF this UNIV_I] show thesis using that by blast
qed

lemma sample_validating:
  obtains y where "(sched_step sample_revm sample_status (\<lambda>_ t. t) UNIV)\<^sup>*\<^sup>* sample_block y"
    and "status (tx_states (sys_sched y) ! 0) = Validating" and "incarnation (tx_states (sys_sched y) ! 0) = 1"
    and "block_size (sys_sched y) = 1"
proof -
  have "case sched_run (\<lambda>_. sample_executor) sample_cmds sample_block of None \<Rightarrow> False
      | Some y \<Rightarrow> status (tx_states (sys_sched y) ! 0) = Validating \<and> incarnation (tx_states (sys_sched y) ! 0) = 1 \<and>
          block_size (sys_sched y) = 1"
    by code_simp
  from sched_run_reachable [OF this UNIV_I] show thesis using that by blast
qed

theorem scheduler_consistent_witness:
  "\<exists>y. (sched_step sample_revm sample_status (\<lambda>_ t. t) UNIV)\<^sup>*\<^sup>* sample_block y \<and>
    committed_idx (scheduler_ctx (sys_sched y)) = 1 \<and> s_abort_reason (sys_sched y) \<noteq> Some (ParallelError 0 ''x'')"
proof -
  obtain y where y: "(sched_step sample_revm sample_status (\<lambda>_ t. t) UNIV)\<^sup>*\<^sup>* sample_block y"
    "committed_idx (scheduler_ctx (sys_sched y)) = 1" by (rule sample_committed)
  then show ?thesis using scheduler_consistent [OF y(1) [unfolded sample_block_def], of 0 "''x''"] by blast
qed

theorem one_owner_witness:
  "\<exists>y. (sched_step sample_revm sample_status (\<lambda>_ t. t) UNIV)\<^sup>*\<^sup>* sample_block y \<and>
    filter_mset (\<lambda>k. v_txid (task_version k) = 0) (sys_tasks y) = {#Validation (TxVersion 0 1)#}"
proof -
  obtain y where y: "(sched_step sample_revm sample_status (\<lambda>_ t. t) UNIV)\<^sup>*\<^sup>* sample_block y"
    "status (tx_states (sys_sched y) ! 0) = Validating" "incarnation (tx_states (sys_sched y) ! 0) = 1" "block_size (sys_sched y) = 1"
    by (rule sample_validating)
  then show ?thesis using one_owner [OF y(1) [unfolded sample_block_def], of 0] by auto
qed

theorem finality_prefix_witness:
  "\<exists>y. (sched_step sample_revm sample_status (\<lambda>_ t. t) UNIV)\<^sup>*\<^sup>* sample_block y \<and>
    finality_idx (scheduler_ctx (sys_sched y)) = 1 \<and> length (pc_output (sys_commit y)) = 1"
proof -
  obtain y where y: "(sched_step sample_revm sample_status (\<lambda>_ t. t) UNIV)\<^sup>*\<^sup>* sample_block y"
    "committed_idx (scheduler_ctx (sys_sched y)) = 1" "block_size (sys_sched y) = 1" by (rule sample_committed)
  have "committed_idx (scheduler_ctx (sys_sched y)) = length (pc_output (sys_commit y)) \<and>
      committed_idx (scheduler_ctx (sys_sched y)) \<le> finality_idx (scheduler_ctx (sys_sched y)) \<and>
      finality_idx (scheduler_ctx (sys_sched y)) \<le> block_size (sys_sched y)"
    using finality_prefix [OF y(1) [unfolded sample_block_def]] unfolding Let_def by blast
  then show ?thesis using y by auto
qed

theorem install_never_panics_witness:
  "\<exists>y x. (sched_step sample_revm sample_status (\<lambda>_ t. t) UNIV)\<^sup>*\<^sup>* sample_block y \<and>
    install_commit_loop_result (pc_result (sys_commit y)) (sys_sched y) =
      Some (x, (sys_sched y)\<lparr>results := pc_output (sys_commit y)\<rparr>) \<and> committed_idx (scheduler_ctx (sys_sched y)) = 1"
proof -
  obtain y where y: "(sched_step sample_revm sample_status (\<lambda>_ t. t) UNIV)\<^sup>*\<^sup>* sample_block y"
    "committed_idx (scheduler_ctx (sys_sched y)) = 1" by (rule sample_committed)
  then show ?thesis using install_never_panics [OF y(1) [unfolded sample_block_def]] by blast
qed

end
