(* ===== verification/Stability.thy ===== *)
theory Stability
  imports Sched_System
begin

text \<open>
  Why a finalized transaction stays valid. The first part says exactly what an execution and a
  validation do to the shared state; the second proves that a validated read set stays current
  until a rewind at or below the transaction outdates the validation, so the reads of a finalized
  transaction are current in every later state.
\<close>

section \<open>What an execution does\<close>

definition exec_conflict :: "('r, 'e) incarnation_execution \<Rightarrow> bool" where
  "exec_conflict ie = (case ie_result ie of Inr _ \<Rightarrow> is_blocked (ie_accesses ie) | Inl _ \<Rightarrow> True)"

definition exec_result ::
  "('r, 'e) incarnation_execution \<Rightarrow> ('r, 'e) transaction_result option \<Rightarrow> ('r, 'e) transaction_result" where
  "exec_result ie old =
    (case ie_result ie of
       Inr sr \<Rightarrow> \<lparr>read_set = ia_read_set (ie_accesses ie), write_set = ia_write_set (ie_accesses ie), execute_result = Inr sr\<rparr>
     | Inl e \<Rightarrow> \<lparr>read_set = [], write_set = last_write_set old, execute_result = Inl e\<rparr>)"

definition exec_memory ::
  "tx_id \<Rightarrow> ('r, 'e) incarnation_execution \<Rightarrow> ('r, 'e) transaction_result option \<Rightarrow> mv_memory \<Rightarrow> mv_memory" where
  "exec_memory t ie old m =
    (case ie_result ie of
       Inr sr \<Rightarrow> remove_stale_writes t (last_write_set old) (ia_write_set (ie_accesses ie)) m
     | Inl e \<Rightarrow> mark_mv_estimate t (last_write_set old) m)"

definition exec_history ::
  "revm_ops \<Rightarrow> tx_version \<Rightarrow> ('r, 'e) incarnation_execution \<Rightarrow> beneficiary \<Rightarrow> (bool \<times> beneficiary) option" where
  "exec_history R v ie b =
    (case ie_result ie of
       Inr sr \<Rightarrow> publish_history R v (is_blocked (ie_accesses ie)) sr b
     | Inl e \<Rightarrow> record_estimate v b)"

text \<open>A rewind outdates every validation of a transaction after \<open>t\<close>.\<close>

definition rewound :: "tx_id \<Rightarrow> scheduler_context \<Rightarrow> scheduler_context \<Rightarrow> bool" where
  "rewound t c c' \<longleftrightarrow> (\<forall>u. t < u \<and> u < ctx_num_txs c \<longrightarrow> (\<exists>j\<le>u. ctx_clock c \<le> lower_timestamps c' ! j))"

text \<open>Rewinds only grow, the validation cursor moves back at most, and the finality cursor stays.\<close>

definition lower_mono :: "scheduler_context \<Rightarrow> scheduler_context \<Rightarrow> bool" where
  "lower_mono c c' \<longleftrightarrow> (\<forall>j. lower_timestamps c ! j \<le> lower_timestamps c' ! j) \<and>
    validation_idx c' \<le> validation_idx c \<and> finality_idx c' = finality_idx c"

definition exec_effect ::
  "revm_ops \<Rightarrow> tx_version \<Rightarrow> ('r, 'e) incarnation_execution \<Rightarrow> mv_memory \<Rightarrow> ('r, 'e) scheduler \<Rightarrow> ('r, 'e) scheduler \<Rightarrow> bool \<Rightarrow> bool" where
  "exec_effect R v ie m s s' rw \<longleftrightarrow>
    (let t = v_txid v; old = tx_results s ! t
     in s_txs s' = s_txs s \<and> s_memory s' = exec_memory t ie old m \<and>
        tx_results s' = (tx_results s)[t := Some (exec_result ie old)] \<and>
        exec_history R v ie (s_beneficiary s) = Some (True, s_beneficiary s') \<and>
        tx_states s' = (tx_states s)[t := (tx_states s ! t)\<lparr>status :=
          if exec_conflict ie then Conflict else if rw then Executed else Validating\<rparr>] \<and>
        unconfirmed_timestamps (scheduler_ctx s') = unconfirmed_timestamps (scheduler_ctx s) \<and>
        lower_mono (scheduler_ctx s) (scheduler_ctx s') \<and>
        (rw \<longrightarrow> rewound t (scheduler_ctx s) (scheduler_ctx s')) \<and>
        (\<not> rw \<longrightarrow> \<not> exec_conflict ie \<and> \<not> writes_new_locations old (ia_write_set (ie_accesses ie))))"

lemma rewind_rewinds:
  assumes "rewind_validation_to i c = Some c'" and "i = t \<or> i = Suc t" and "length (lower_timestamps c) = ctx_num_txs c"
  shows "rewound t c c' \<and> lower_mono c c' \<and> unconfirmed_timestamps c' = unconfirmed_timestamps c"
proof (cases "ctx_num_txs c \<le> i")
  case True
  then show ?thesis using assms by (auto simp: rewind_validation_to_def rewound_def lower_mono_def)
next
  case False
  obtain p r where p: "cursor_rewind i (ctx_validation c) = (p, r)" by fastforce
  have low: "lower_timestamps c' = (lower_timestamps c)[i := max (lower_timestamps c ! i) (ctx_clock c)]"
    and unc: "unconfirmed_timestamps c' = unconfirmed_timestamps c"
    and cursors: "ctx_validation c' = r" "ctx_finality c' = ctx_finality c"
    using assms(1) False p assms(3)
    by (auto simp: rewind_validation_to_def logical_timestamp_def list_get_def Let_def split: if_splits)
  have "rewindable_get r \<le> rewindable_get (ctx_validation c)" using p by (cases "ctx_validation c") auto
  then have idx: "validation_idx c' \<le> validation_idx c" "finality_idx c' = finality_idx c"
    using cursors by (simp_all add: validation_idx_def finality_idx_def)
  have "\<exists>j\<le>u. ctx_clock c \<le> lower_timestamps c' ! j" if "t < u" for u
    using that assms(2,3) False by (intro exI [of _ i]) (auto simp: low)
  moreover have "lower_timestamps c ! j \<le> lower_timestamps c' ! j" for j
    using False assms(3) by (cases "j = i") (simp_all add: low)
  ultimately show ?thesis using unc idx by (simp add: rewound_def lower_mono_def)
qed

lemma context_executed_times:
  "context_executed i c = Some c' \<Longrightarrow> lower_timestamps c' = lower_timestamps c \<and>
    unconfirmed_timestamps c' = unconfirmed_timestamps c \<and> ctx_clock c' = ctx_clock c \<and> ctx_num_txs c' = ctx_num_txs c \<and>
    validation_idx c' = validation_idx c \<and> finality_idx c' = finality_idx c"
  by (auto simp: context_executed_def validation_idx_def finality_idx_def)

lemma settle_frame:
  "settle_execution t acc s = Some (nxt, s1) \<Longrightarrow> s_memory s1 = s_memory s \<and> scheduler_ctx s1 = scheduler_ctx s \<and> s_txs s1 = s_txs s"
  "settle_failure t e acc s = Some s2 \<Longrightarrow> s_memory s2 = s_memory s \<and> scheduler_ctx s2 = scheduler_ctx s \<and> s_txs s2 = s_txs s"
  by (auto simp: settle_execution_def settle_failure_def on_dependency_def abort_def cancel_def Let_def bind_eq_Some_conv
      split: if_splits evm_error.splits)

text \<open>The two arms.\<close>

definition arm_effect ::
  "revm_ops \<Rightarrow> tx_version \<Rightarrow> ('r, 'e) incarnation_execution \<Rightarrow> ('r, 'e) scheduler \<Rightarrow>
    (unit + bool \<times> bool \<times> tx_id option) \<times> ('r, 'e) scheduler \<Rightarrow> bool" where
  "arm_effect R v ie s r \<longleftrightarrow>
    (let t = v_txid v; old = tx_results s ! t
     in \<exists>n nxt s'. r = (Inr (exec_conflict ie, n, nxt), s') \<and>
        (\<not> exec_conflict ie \<longrightarrow> n = writes_new_locations old (ia_write_set (ie_accesses ie))) \<and>
        s_txs s' = s_txs s \<and> s_memory s' = exec_memory t ie old (s_memory s) \<and>
        tx_results s' = (tx_results s)[t := Some (exec_result ie old)] \<and> tx_states s' = tx_states s \<and>
        exec_history R v ie (s_beneficiary s) = Some (True, s_beneficiary s') \<and> scheduler_ctx s' = scheduler_ctx s)"

lemma remove_stale_none [simp]: "remove_stale_writes t {} ws m = m"
  by (simp add: remove_stale_writes_def)

lemma mark_none [simp]: "mark_mv_estimate t {} m = m"
  by (simp add: mark_mv_estimate_def)

lemma drop_stale_writes_eq:
  "drop_stale_writes t lr ws s = s\<lparr>s_memory := remove_stale_writes t (last_write_set lr) ws (s_memory s)\<rparr>"
  by (simp add: drop_stale_writes_def last_write_set_def split: option.split)

lemma execute_ok_effect:
  assumes ex: "execute_ok R v sr (ie_accesses ie) s = Some r" and ie: "ie_result ie = Inr sr"
    and new: "published_incarnation s (v_txid v) < v_incarnation v" and len: "v_txid v < length (tx_results s)"
  shows "arm_effect R v ie s r"
proof -
  let ?t = "v_txid v" and ?acc = "ie_accesses ie"
  let ?s1 = "s\<lparr>s_memory := remove_stale_writes ?t (last_write_set (tx_results s ! ?t)) (ia_write_set ?acc) (s_memory s)\<rparr>"
  obtain ok b where b: "publish_history R v (is_blocked ?acc) sr (s_beneficiary s) = Some (ok, b)"
    using ex len by (auto simp: execute_ok_def Let_def list_get_def drop_stale_writes_eq bind_eq_Some_conv)
  have ok: "ok" using publish_history_at [OF b new] by simp
  obtain nxt s3 where s3: "settle_execution ?t ?acc (?s1\<lparr>s_beneficiary := b\<rparr>) = Some (nxt, s3)"
    and r: "r = (Inr (is_blocked ?acc, writes_new_locations (tx_results s ! ?t) (ia_write_set ?acc), nxt),
      set_tx_result ?t (Some \<lparr>read_set = ia_read_set ?acc, write_set = ia_write_set ?acc, execute_result = Inr sr\<rparr>) s3)"
    using ex len b ok by (auto simp: execute_ok_def Let_def list_get_def drop_stale_writes_eq bind_eq_Some_conv)
  show ?thesis using settle_execution_frame [OF s3] settle_frame(1) [OF s3] r b ok ie
    by (simp add: arm_effect_def exec_conflict_def exec_memory_def exec_result_def exec_history_def Let_def)
qed

lemma execute_err_effect:
  assumes ex: "execute_err v e (ie_accesses ie) s = Some r" and ie: "ie_result ie = Inl e"
    and new: "published_incarnation s (v_txid v) < v_incarnation v" and len: "v_txid v < length (tx_results s)"
  shows "arm_effect R v ie s r"
proof -
  let ?t = "v_txid v"
  define s1 where "s1 = estimate_last_writes ?t (tx_results s ! ?t) s"
  have s1: "s_beneficiary s1 = s_beneficiary s" "s_memory s1 = mark_mv_estimate ?t (last_write_set (tx_results s ! ?t)) (s_memory s)"
    "scheduler_ctx s1 = scheduler_ctx s" "s_txs s1 = s_txs s" "tx_states s1 = tx_states s"
    "(tx_results s1)[?t := x] = (tx_results s)[?t := x]" for x
    by (simp_all add: s1_def estimate_last_writes_def last_write_set_def split: option.split)
  obtain ok b where b: "record_estimate v (s_beneficiary s) = Some (ok, b)"
    using ex len s1(1) by (auto simp: execute_err_def Let_def list_get_def s1_def bind_eq_Some_conv)
  have ok: "ok" using record_at [of v "s_beneficiary s" ok b] b new by simp
  obtain s3 where s3: "settle_failure ?t e (ie_accesses ie)
      (set_tx_result ?t (Some (exec_result ie (tx_results s ! ?t))) (s1\<lparr>s_beneficiary := b\<rparr>)) = Some s3"
    and r: "r = (Inr (True, False, None), s3)"
    using ex len b ok s1(1) ie by (auto simp: execute_err_def exec_result_def Let_def list_get_def s1_def bind_eq_Some_conv)
  show ?thesis using settle_failure_frame(2-4) [OF s3] settle_frame(2) [OF s3] r b ok ie s1
    by (auto simp: arm_effect_def exec_conflict_def exec_memory_def exec_history_def Let_def)
qed

lemma execute_done_effect:
  assumes fin: "execute_done v c n nxt s = Some (task, s')" and t: "v_txid v < length (tx_states s)"
    and ctx: "context_wf (scheduler_ctx s)"
  shows "\<exists>rw s1. (s' = s1 \<or> (\<exists>i. execution_task i s1 = Some (task, s'))) \<and> s_txs s1 = s_txs s \<and> s_memory s1 = s_memory s \<and>
    tx_results s1 = tx_results s \<and> s_beneficiary s1 = s_beneficiary s \<and>
    tx_states s1 = (tx_states s)[v_txid v := (tx_states s ! v_txid v)\<lparr>status := if c then Conflict else if rw then Executed else Validating\<rparr>] \<and>
    unconfirmed_timestamps (scheduler_ctx s1) = unconfirmed_timestamps (scheduler_ctx s) \<and>
    lower_mono (scheduler_ctx s) (scheduler_ctx s1) \<and> (rw \<longrightarrow> rewound (v_txid v) (scheduler_ctx s) (scheduler_ctx s1)) \<and>
    (\<not> rw \<longrightarrow> \<not> c \<and> \<not> n)"
proof -
  let ?t = "v_txid v"
  let ?tx = "(tx_states s ! ?t)\<lparr>status := (if c then Conflict else Executed)\<rparr>"
  obtain c1 where c1: "context_executed ?t (scheduler_ctx s) = Some c1"
    using fin t by (auto simp: execute_done_def Let_def list_get_def on_ctx_def bind_eq_Some_conv)
  let ?s1 = "(set_tx_state ?t ?tx s)\<lparr>scheduler_ctx := c1\<rparr>"
  note times = context_executed_times [OF c1]
  have again: "?thesis" if "rewind_validation_to i c1 = Some c2" "i = ?t \<or> i = Suc ?t"
    "s' = ?s1\<lparr>scheduler_ctx := c2\<rparr> \<or> (\<exists>i. execution_task i (?s1\<lparr>scheduler_ctx := c2\<rparr>) = Some (task, s'))" for i c2
  proof (intro exI conjI)
    show "s' = ?s1\<lparr>scheduler_ctx := c2\<rparr> \<or> (\<exists>i. execution_task i (?s1\<lparr>scheduler_ctx := c2\<rparr>) = Some (task, s'))" by (fact that)
    have "length (lower_timestamps c1) = ctx_num_txs c1" using times ctx by (simp add: context_wf_def)
    note r = rewind_rewinds [OF that(1,2) this]
    show "tx_states (?s1\<lparr>scheduler_ctx := c2\<rparr>) =
      (tx_states s)[?t := (tx_states s ! ?t)\<lparr>status := if c then Conflict else if True then Executed else Validating\<rparr>]" by simp
    show "unconfirmed_timestamps (scheduler_ctx (?s1\<lparr>scheduler_ctx := c2\<rparr>)) = unconfirmed_timestamps (scheduler_ctx s)"
      "lower_mono (scheduler_ctx s) (scheduler_ctx (?s1\<lparr>scheduler_ctx := c2\<rparr>))"
      "True \<longrightarrow> rewound ?t (scheduler_ctx s) (scheduler_ctx (?s1\<lparr>scheduler_ctx := c2\<rparr>))"
      using r times by (simp_all add: rewound_def lower_mono_def)
  qed simp_all
  have body: "(case nxt of
      Some i \<Rightarrow> do { s2 \<leftarrow> on_ctx (rewind_validation_to ?t) ?s1; execution_task i s2 }
    | None \<Rightarrow>
        if c then do { s2 \<leftarrow> on_ctx (rewind_validation_to (?t + 1)) ?s1; Some (None, s2) }
        else if n then do { s2 \<leftarrow> on_ctx (rewind_validation_to ?t) ?s1; Some (None, s2) }
        else Some (Some (Validation (TxVersion ?t (v_incarnation v))), set_tx_state ?t (?tx\<lparr>status := Validating\<rparr>) ?s1)) = Some (task, s')"
    using fin t c1 by (simp add: execute_done_def Let_def list_get_def on_ctx_def)
  show ?thesis
  proof (cases nxt)
    case (Some i)
    then obtain c2 where "rewind_validation_to ?t c1 = Some c2" "execution_task i (?s1\<lparr>scheduler_ctx := c2\<rparr>) = Some (task, s')"
      using body by (auto simp: on_ctx_def bind_eq_Some_conv)
    then show ?thesis using again [of ?t c2] by blast
  next
    case None
    consider "c" | "\<not> c" "n" | "\<not> c" "\<not> n" by blast
    then show ?thesis
    proof cases
      case 1
      then obtain c2 where "rewind_validation_to (Suc ?t) c1 = Some c2" "s' = ?s1\<lparr>scheduler_ctx := c2\<rparr>"
        using body None by (auto simp: on_ctx_def bind_eq_Some_conv)
      then show ?thesis using again [of "Suc ?t" c2] by blast
    next
      case 2
      then obtain c2 where "rewind_validation_to ?t c1 = Some c2" "s' = ?s1\<lparr>scheduler_ctx := c2\<rparr>"
        using body None by (auto simp: on_ctx_def bind_eq_Some_conv)
      then show ?thesis using again [of ?t c2] by blast
    next
      case 3
      then have s': "s' = set_tx_state ?t (?tx\<lparr>status := Validating\<rparr>) ?s1" using body None by simp
      show ?thesis using 3 times by (intro exI [of _ False] exI [of _ s']) (simp add: s' lower_mono_def)
    qed
  qed
qed

lemma execute_task_effect:
  assumes inv: "sched_inv y" and held: "Execution v \<in># sys_tasks y"
    and ex: "execute_task R executor v (sys_sched y) = Some (task, s')"
  obtains ie m s1 rw where "executor v (s_txs (sys_sched y) ! v_txid v) (bump_metrics record_execution_attempt (sys_sched y)) = Some (ie, m)"
    and "exec_effect R v ie m (sys_sched y) s1 rw" and "s' = s1 \<or> (\<exists>i. execution_task i s1 = Some (task, s'))"
proof -
  let ?t = "v_txid v" and ?s = "sys_sched y"
  note h = held_execution [OF inv held] and shape = sched_inv_shape [OF inv]
  obtain ie m where ie: "executor v (s_txs ?s ! ?t) (bump_metrics record_execution_attempt ?s) = Some (ie, m)"
    using ex h shape by (auto simp: execute_task_def Let_def list_get_def bind_eq_Some_conv)
  let ?s2 = "(bump_metrics record_execution_attempt ?s)\<lparr>s_memory := m\<rparr>"
  obtain r where r: "(case ie_result ie of Inr sr \<Rightarrow> execute_ok R v sr (ie_accesses ie) ?s2
      | Inl e \<Rightarrow> execute_err v e (ie_accesses ie) ?s2) = Some r"
    using ex h shape ie by (auto simp: execute_task_def Let_def list_get_def bind_eq_Some_conv)
  have "arm_effect R v ie ?s2 r"
    using r h shape execute_ok_effect [of R v _ ie ?s2 r] execute_err_effect [of v _ ie ?s2 r R]
    by (auto split: sum.splits)
  then obtain n nxt s3 where arm: "r = (Inr (exec_conflict ie, n, nxt), s3)"
      "\<not> exec_conflict ie \<longrightarrow> n = writes_new_locations (tx_results ?s ! ?t) (ia_write_set (ie_accesses ie))"
      "s_txs s3 = s_txs ?s" "s_memory s3 = exec_memory ?t ie (tx_results ?s ! ?t) m"
      "tx_results s3 = (tx_results ?s)[?t := Some (exec_result ie (tx_results ?s ! ?t))]" "tx_states s3 = tx_states ?s"
      "exec_history R v ie (s_beneficiary ?s) = Some (True, s_beneficiary s3)" "scheduler_ctx s3 = scheduler_ctx ?s"
    by (auto simp: arm_effect_def Let_def)
  have fin: "execute_done v (exec_conflict ie) n nxt s3 = Some (task, s')"
    using ex h shape ie r arm(1) by (simp add: execute_task_def Let_def list_get_def)
  have len: "?t < length (tx_states s3)" "context_wf (scheduler_ctx s3)" using arm h shape by simp_all
  obtain rw s1 where s1: "s' = s1 \<or> (\<exists>i. execution_task i s1 = Some (task, s'))" and fields: "s_txs s1 = s_txs s3" "s_memory s1 = s_memory s3"
      "tx_results s1 = tx_results s3" "s_beneficiary s1 = s_beneficiary s3"
      "tx_states s1 = (tx_states s3)[?t := (tx_states s3 ! ?t)\<lparr>status := if exec_conflict ie then Conflict else if rw then Executed else Validating\<rparr>]"
      "unconfirmed_timestamps (scheduler_ctx s1) = unconfirmed_timestamps (scheduler_ctx s3)"
      "lower_mono (scheduler_ctx s3) (scheduler_ctx s1)" "rw \<longrightarrow> rewound ?t (scheduler_ctx s3) (scheduler_ctx s1)"
      "\<not> rw \<longrightarrow> \<not> exec_conflict ie \<and> \<not> n"
    using execute_done_effect [OF fin len] by blast
  have "exec_effect R v ie m ?s s1 rw"
    unfolding exec_effect_def Let_def using fields arm(2-) by (cases rw) simp_all
  then show thesis using that ie s1 by blast
qed

section \<open>What a validation does\<close>

definition val_effect ::
  "tx_version \<Rightarrow> ('r, 'e) transaction_result \<Rightarrow> bool \<Rightarrow> tx_id option \<Rightarrow> ('r, 'e) scheduler \<Rightarrow> ('r, 'e) scheduler \<Rightarrow> bool" where
  "val_effect v r c dep s s' \<longleftrightarrow>
    (let t = v_txid v
     in tx_results s ! t = Some r \<and>
        validate_reads (s_memory s) (s_beneficiary s) t (read_set r) (False, None) = Some (c, dep) \<and>
        s_txs s' = s_txs s \<and> tx_results s' = tx_results s \<and>
        s_memory s' = (if c then mark_mv_estimate t (write_set r) (s_memory s) else s_memory s) \<and>
        (if c then invalidate v (s_beneficiary s) = Some (True, s_beneficiary s') else s_beneficiary s' = s_beneficiary s) \<and>
        tx_states s' = (tx_states s)[t := (tx_states s ! t)\<lparr>status := if c then Conflict else Unconfirmed, dependency := dep\<rparr>] \<and>
        lower_mono (scheduler_ctx s) (scheduler_ctx s') \<and>
        (c \<longrightarrow> rewound t (scheduler_ctx s) (scheduler_ctx s')) \<and>
        (\<forall>u. u \<noteq> t \<longrightarrow> unconfirmed_timestamps (scheduler_ctx s') ! u = unconfirmed_timestamps (scheduler_ctx s) ! u))"

lemma validate_finish_effect:
  assumes fin: "validate_finish v ts ws c dep s = Some s'" and pub: "published_incarnation s (v_txid v) = v_incarnation v"
    and t: "v_txid v < length (tx_states s)" and ctx: "context_wf (scheduler_ctx s)"
  shows "s_txs s' = s_txs s \<and> tx_results s' = tx_results s \<and>
    s_memory s' = (if c then mark_mv_estimate (v_txid v) ws (s_memory s) else s_memory s) \<and>
    (if c then invalidate v (s_beneficiary s) = Some (True, s_beneficiary s') else s_beneficiary s' = s_beneficiary s) \<and>
    tx_states s' = (tx_states s)[v_txid v := (tx_states s ! v_txid v)\<lparr>status := if c then Conflict else Unconfirmed, dependency := dep\<rparr>] \<and>
    lower_mono (scheduler_ctx s) (scheduler_ctx s') \<and>
    (c \<longrightarrow> rewound (v_txid v) (scheduler_ctx s) (scheduler_ctx s')) \<and>
    (\<forall>u. u \<noteq> v_txid v \<longrightarrow> unconfirmed_timestamps (scheduler_ctx s') ! u = unconfirmed_timestamps (scheduler_ctx s) ! u)"
proof -
  let ?t = "v_txid v"
  have wf: "s_txs (wake_finality ?t x) = s_txs x" "tx_results (wake_finality ?t x) = tx_results x"
    "s_memory (wake_finality ?t x) = s_memory x" "s_beneficiary (wake_finality ?t x) = s_beneficiary x"
    "tx_states (wake_finality ?t x) = tx_states x" "scheduler_ctx (wake_finality ?t x) = scheduler_ctx x" for x :: "('a, 'b) scheduler"
    by (simp_all add: wake_finality_def)
  have rq: "s_txs y = s_txs x \<and> tx_results y = tx_results x \<and> s_memory y = s_memory x \<and> s_beneficiary y = s_beneficiary x \<and>
      tx_states y = tx_states x \<and> scheduler_ctx y = scheduler_ctx x"
    if "requeue_conflict ?t c dep x = Some y" for x y :: "('a, 'b) scheduler"
    using that by (auto simp: requeue_conflict_def on_dependency_def split: if_splits)
  show ?thesis
  proof (cases c)
    case True
    obtain ok s1 where s1: "validate_conflict v ws s = Some (ok, s1)"
      using fin True by (auto simp: validate_finish_def Let_def bind_eq_Some_conv)
    note f = validate_conflict_frame [OF s1 pub]
    have m: "s_memory s1 = mark_mv_estimate ?t ws (s_memory s)" "invalidate v (s_beneficiary s) = Some (True, s_beneficiary s1)" "s_txs s1 = s_txs s"
      using s1 f(1) by (auto simp: validate_conflict_def Let_def bind_eq_Some_conv split: if_splits)
    obtain c2 s3 where c2: "rewind_validation_to (Suc ?t) (scheduler_ctx s) = Some c2"
      and s3: "requeue_conflict ?t True dep (set_tx_state ?t ((tx_states s ! ?t)\<lparr>status := Conflict, dependency := dep\<rparr>)
        (s1\<lparr>scheduler_ctx := c2\<rparr>)) = Some s3" and s': "s' = wake_finality ?t s3"
      using fin True s1 f t by (auto simp: validate_finish_def Let_def list_get_def on_ctx_def bind_eq_Some_conv)
    have "rewound ?t (scheduler_ctx s) c2 \<and> lower_mono (scheduler_ctx s) c2 \<and> unconfirmed_timestamps c2 = unconfirmed_timestamps (scheduler_ctx s)"
      using rewind_rewinds [OF c2, of ?t] ctx by (simp add: context_wf_def)
    moreover have "requeue_conflict ?t c dep (set_tx_state ?t ((tx_states s ! ?t)\<lparr>status := Conflict, dependency := dep\<rparr>)
        (s1\<lparr>scheduler_ctx := c2\<rparr>)) = Some s3" using s3 True by simp
    ultimately show ?thesis using True rq m f(3,4) by (simp add: s' wf)
  next
    case False
    obtain c2 where c2: "context_unconfirmed ?t ts (scheduler_ctx s) = Some c2"
      and s': "s' = wake_finality ?t (set_tx_state ?t ((tx_states s ! ?t)\<lparr>status := Unconfirmed, dependency := dep\<rparr>) (s\<lparr>scheduler_ctx := c2\<rparr>))"
      using fin False t by (auto simp: validate_finish_def requeue_conflict_def Let_def list_get_def on_ctx_def bind_eq_Some_conv)
    have "lower_timestamps c2 = lower_timestamps (scheduler_ctx s)"
      "\<forall>u. u \<noteq> ?t \<longrightarrow> unconfirmed_timestamps c2 ! u = unconfirmed_timestamps (scheduler_ctx s) ! u"
      "validation_idx c2 = validation_idx (scheduler_ctx s)" "finality_idx c2 = finality_idx (scheduler_ctx s)"
      using c2 by (auto simp: context_unconfirmed_def validation_idx_def finality_idx_def bind_eq_Some_conv)
    then show ?thesis using False by (simp add: s' wf lower_mono_def)
  qed
qed

lemma validate_effect:
  assumes inv: "sched_inv y" and held: "Validation v \<in># sys_tasks y" and val: "validate v (sys_sched y) = Some s'"
  obtains r c dep where "val_effect v r c dep (sys_sched y) s'"
proof -
  let ?t = "v_txid v" and ?s = "sys_sched y"
  note h = held_validation [OF inv held] and shape = sched_inv_shape [OF inv]
  obtain r sr where r: "tx_results ?s ! ?t = Some r" "execute_result r = Inr sr" using h(5) by blast
  obtain ts c1 where ts: "logical_timestamp (scheduler_ctx ?s) = (ts, c1)" by fastforce
  let ?s2 = "(bump_metrics record_validation_attempt ?s)\<lparr>scheduler_ctx := c1\<rparr>"
  obtain c dep where reads: "validate_reads (s_memory ?s) (s_beneficiary ?s) ?t (read_set r) (False, None) = Some (c, dep)"
    and fin: "validate_finish v ts (write_set r) c dep ?s2 = Some s'"
    using val h shape r ts by (auto simp: validate_def Let_def list_get_def bind_eq_Some_conv)
  have c1: "lower_timestamps c1 = lower_timestamps (scheduler_ctx ?s)" "unconfirmed_timestamps c1 = unconfirmed_timestamps (scheduler_ctx ?s)"
    "ctx_num_txs c1 = ctx_num_txs (scheduler_ctx ?s)" "ctx_clock (scheduler_ctx ?s) \<le> ctx_clock c1"
    "validation_idx c1 = validation_idx (scheduler_ctx ?s)" "finality_idx c1 = finality_idx (scheduler_ctx ?s)"
    using ts by (auto simp: logical_timestamp_def validation_idx_def finality_idx_def)
  have "context_wf c1" using logical_timestamp_wf [OF shape(4) ts] .
  note f = validate_finish_effect [OF fin, simplified, OF h(4) _ this]
  have "rewound ?t (scheduler_ctx ?s) x" if "rewound ?t c1 x" for x
    using that c1(3,4) unfolding rewound_def by (metis order_trans)
  then have "val_effect v r c dep ?s s'"
    unfolding val_effect_def Let_def using f r(1) reads c1 h(1) shape(1)
    by (simp add: lower_mono_def split: if_splits)
  then show thesis by (rule that)
qed

section \<open>When a read stays current\<close>

text \<open>The stores of the two states differ at transaction \<open>t\<close> only.\<close>

definition differ_at :: "tx_id \<Rightarrow> mv_memory \<times> beneficiary \<Rightarrow> mv_memory \<times> beneficiary \<Rightarrow> bool" where
  "differ_at t = (\<lambda>(m, b) (m', b').
    (\<forall>l u. u \<noteq> t \<longrightarrow> m' l u = m l u) \<and> block_anchor (ben_history b') = block_anchor (ben_history b) \<and>
    length (entries (ben_history b')) = length (entries (ben_history b)) \<and>
    (\<forall>u. u \<noteq> t \<longrightarrow> entries (ben_history b') ! u = entries (ben_history b) ! u))"

lemma differ_at_refl [simp]: "differ_at t x x"
  by (simp add: differ_at_def split: prod.split)

lemma scan_loop_cong:
  assumes "\<And>w. w < u \<Longrightarrow> entries h' ! w = entries h ! w" and "block_anchor h' = block_anchor h"
  shows "scan_loop h' u os rs = scan_loop h u os rs"
  using assms by (induction u arbitrary: os rs) (simp_all add: Let_def split: entry_value.splits beneficiary_effect.splits)

lemma scan_loop_skips:
  assumes "scan_loop h u os rs = Inr s" and "es_value (entries h ! t) = Estimate"
    and "\<And>w. w \<noteq> t \<Longrightarrow> entries h' ! w = entries h ! w" and "block_anchor h' = block_anchor h"
  shows "scan_loop h' u os rs = Inr s"
  using assms(1)
proof (induction u arbitrary: os rs)
  case (Suc w)
  then have "w \<noteq> t" using assms(2) by auto
  then have "entries h' ! w = entries h ! w" by (rule assms(3))
  then show ?case using Suc by (auto simp: Let_def split: entry_value.splits beneficiary_effect.splits)
qed (simp add: assms(4))

text \<open>Reads of transactions up to \<open>t\<close> do not depend on \<open>t\<close>.\<close>

lemma read_current_before:
  assumes "differ_at t (m, b) (m', b')" and "u \<le> t"
  shows "read_current m' b' u l v = read_current m b u l v"
proof -
  have p: "prev_entry (m' l) u = prev_entry (m l) u" by (rule prev_entry_cong) (use assms in \<open>simp add: differ_at_def\<close>)
  have "scan_loop (ben_history b') u [] [] = scan_loop (ben_history b) u [] []"
    by (rule scan_loop_cong) (use assms in \<open>simp_all add: differ_at_def\<close>)
  then have "beneficiary_validate b' u x = beneficiary_validate b u x" for x
    using assms by (simp add: beneficiary_validate_def history_validate_def scan_before_def differ_at_def)
  then show ?thesis using p by (cases v rule: read_version.exhaust) (simp, case_tac x1, simp_all)
qed

text \<open>A later reader whose read is current does not depend on a transaction all of whose entries are
  estimates, and keeps its version when that transaction publishes on the same locations only.\<close>

lemma read_current_after:
  assumes diff: "differ_at t (m, b) (m', b')" and u: "t < u" and cur: "read_current m b u l v"
    and est: "\<And>l e. m l t = Some e \<Longrightarrow> me_estimate e" "es_value (entries (ben_history b) ! t) = Estimate"
    and dom: "\<And>l. m l t = None \<Longrightarrow> m' l t = None"
  shows "read_current m' b' u l v"
proof (cases v)
  case (RvMvMemory x)
  obtain p i where x: "x = TxVersion p i" by (cases x)
  obtain e where e: "prev_entry (m l) u = Some (p, e)" "me_incarnation e = i" "\<not> me_estimate e"
    using cur by (auto simp: RvMvMemory x)
  have "p \<noteq> t" using est(1) [of l e] e by (auto dest: prev_entry_SomeD)
  have "m' l k = None" if "p < k" "k < u" for k
    using prev_entry_SomeD [OF e(1)] that diff dom [of l] by (cases "k = t") (auto simp: differ_at_def)
  then have "prev_entry (m' l) u = Some (p, e)"
    using prev_entry_SomeD [OF e(1)] diff \<open>p \<noteq> t\<close> by (intro prev_entry_SomeI) (auto simp: differ_at_def)
  then show ?thesis using e by (simp add: RvMvMemory x)
next
  case (RvBeneficiary x)
  let ?h = "ben_history b" and ?h' = "ben_history b'"
  obtain s where s: "u \<le> length (entries ?h)" "scan_loop ?h u [] [] = Inr s" "scan_version s = x"
    using cur
    by (cases "scan_loop ?h u [] []") (auto simp: RvBeneficiary beneficiary_validate_def history_validate_def scan_before_def
        scan_validate_def split: if_splits)
  have "scan_loop ?h' u [] [] = Inr s"
    by (rule scan_loop_skips [OF s(2) est(2)]) (use diff in \<open>simp_all add: differ_at_def\<close>)
  then show ?thesis using s diff
    by (simp add: RvBeneficiary beneficiary_validate_def history_validate_def scan_before_def scan_validate_def differ_at_def)
next
  case RvStorage
  have "m' l j = None" if "j < u" for j
    using cur diff dom [of l] that by (cases "j = t") (auto simp: RvStorage prev_entry_None_iff differ_at_def)
  then show ?thesis by (simp add: RvStorage prev_entry_None_iff)
qed

section \<open>The history after a step\<close>

lemma record_estimate_history:
  assumes "record_estimate v b = Some (True, b')"
  shows "v_txid v < length (entries (ben_history b)) \<and> ben_address b' = ben_address b \<and>
    ben_history b' = (ben_history b)\<lparr>entries := (entries (ben_history b))[v_txid v := \<lparr>es_incarnation = v_incarnation v, es_value = Estimate\<rparr>]\<rparr>"
  using assms
  by (auto simp: record_estimate_def lift_history_def history_record_estimate_def history_entry_op_Some entry_record_def split: if_splits)

lemma record_execution_history:
  assumes "record_execution R v sr b = Some (True, b')"
  obtains eff where "effect_from_execution R (deferred_reward sr) (map_of (sr_state sr) (ben_address b)) = Some eff"
    and "v_txid v < length (entries (ben_history b))" and "ben_address b' = ben_address b"
    and "ben_history b' = (ben_history b)\<lparr>entries := (entries (ben_history b))[v_txid v := \<lparr>es_incarnation = v_incarnation v, es_value = Exact eff\<rparr>]\<rparr>"
proof -
  obtain h where h: "history_record_execution R v (deferred_reward sr) (map_of (sr_state sr) (ben_address b)) (ben_history b) = Some (True, h)"
    and b': "b' = b\<lparr>ben_history := h\<rparr>"
    using assms by (auto simp: record_execution_def lift_history_def Let_def split: if_splits)
  then show thesis using that
    by (auto simp: history_record_execution_def history_entry_op_Some entry_record_def bind_eq_Some_conv split: if_splits)
qed

lemma invalidate_history:
  assumes "invalidate v b = Some (True, b')"
  shows "v_txid v < length (entries (ben_history b)) \<and> ben_address b' = ben_address b \<and>
    ben_history b' = (ben_history b)\<lparr>entries := (entries (ben_history b))[v_txid v := (entries (ben_history b) ! v_txid v)\<lparr>es_value := Estimate\<rparr>]\<rparr>"
proof -
  obtain h where h: "history_invalidate v (ben_history b) = Some (True, h)" and b': "b' = b\<lparr>ben_history := h\<rparr>"
    using assms by (auto simp: invalidate_def lift_history_def)
  have st: "(case es_value st of Exact x \<Rightarrow> st\<lparr>es_value := Estimate\<rparr> | Estimate \<Rightarrow> st) = st\<lparr>es_value := Estimate\<rparr>" for st :: entry_state
    by (cases st) (auto split: entry_value.split)
  show ?thesis using h
    by (auto simp: b' history_invalidate_def history_entry_op_Some entry_invalidate_def st split: if_splits)
qed

text \<open>Publications and invalidations are steps of the history.\<close>

lemma exec_history_step:
  assumes "exec_history R v ie b = Some (True, b')"
  shows "history_step R (ben_history b) (ben_history b') \<and> ben_address b' = ben_address b"
  using assms
  by (auto simp: exec_history_def publish_history_def record_estimate_def record_execution_def lift_history_def Let_def
      split: sum.splits if_splits intro: history_step.intros)

lemma invalidate_step:
  assumes "invalidate v b = Some (True, b')"
  shows "history_step R (ben_history b) (ben_history b') \<and> ben_address b' = ben_address b"
  using assms by (auto simp: invalidate_def lift_history_def intro: history_step.intros)

text \<open>Where the entry of the executed transaction changes, and to what.\<close>

lemma exec_history_differ:
  assumes "exec_history R v ie b = Some (True, b')"
  shows "differ_at (v_txid v) (m, b) (m, b')"
    and "exec_conflict ie \<Longrightarrow> es_value (entries (ben_history b') ! v_txid v) = Estimate"
proof -
  consider "record_estimate v b = Some (True, b')"
    | sr where "ie_result ie = Inr sr" "record_execution R v sr b = Some (True, b')" "\<not> exec_conflict ie"
    using assms by (auto simp: exec_history_def publish_history_def exec_conflict_def split: sum.splits if_splits)
  then have "differ_at (v_txid v) (m, b) (m, b') \<and> (exec_conflict ie \<longrightarrow> es_value (entries (ben_history b') ! v_txid v) = Estimate)"
  proof cases
    case 1
    then show ?thesis using record_estimate_history [OF 1] by (simp add: differ_at_def)
  next
    case 2
    from 2(2) obtain eff where "ben_history b' = (ben_history b)\<lparr>entries := (entries (ben_history b))[v_txid v := \<lparr>es_incarnation = v_incarnation v, es_value = Exact eff\<rparr>]\<rparr>"
      by (rule record_execution_history) blast
    then show ?thesis using 2(3) by (simp add: differ_at_def)
  qed
  then show "differ_at (v_txid v) (m, b) (m, b')" "exec_conflict ie \<Longrightarrow> es_value (entries (ben_history b') ! v_txid v) = Estimate"
    by simp_all
qed

section \<open>The invariant\<close>

text \<open>\<open>g t\<close> is the read set of the last incarnation of \<open>t\<close>; it stays when the commit thread takes the
  result. A transaction that runs or waits to run again has estimates only; its entries are exactly
  the write set of its last result.\<close>

abbreviation unsettled :: "tx_state \<Rightarrow> bool" where
  "unsettled st \<equiv> status st \<in> {Initial, Conflict, Executing}"

definition slots_ok :: "('r, 'e) scheduler \<Rightarrow> usize \<Rightarrow> tx_id \<Rightarrow> bool" where
  "slots_ok s taken t \<longleftrightarrow>
    (unsettled (tx_states s ! t) \<longrightarrow> (\<forall>l e. s_memory s l t = Some e \<longrightarrow> me_estimate e) \<and>
       es_value (entries (ben_history (s_beneficiary s)) ! t) = Estimate) \<and>
    (taken \<le> t \<longrightarrow> (\<forall>l. s_memory s l t \<noteq> None \<longleftrightarrow> l \<in> last_write_set (tx_results s ! t)))"

definition validation_holds :: "scheduler_context \<Rightarrow> tx_id \<Rightarrow> bool" where
  "validation_holds c t \<longleftrightarrow> (\<forall>j\<le>t. lower_timestamps c ! j < unconfirmed_timestamps c ! t)"

definition reads_ok :: "(location \<times> read_version) list \<Rightarrow> ('r, 'e) scheduler \<Rightarrow> tx_id \<Rightarrow> bool" where
  "reads_ok rs s t \<longleftrightarrow> (\<forall>(l, v)\<in>set rs. read_current (s_memory s) (s_beneficiary s) t l v)"

definition stable_tx :: "(tx_id \<Rightarrow> (location \<times> read_version) list) \<Rightarrow> ('r, 'e) scheduler \<Rightarrow> usize \<Rightarrow> tx_id \<Rightarrow> bool" where
  "stable_tx g s taken t \<longleftrightarrow> slots_ok s taken t \<and>
    (\<not> unsettled (tx_states s ! t) \<and> taken \<le> t \<longrightarrow> map_option read_set (tx_results s ! t) = Some (g t)) \<and>
    (status (tx_states s ! t) \<in> {Unconfirmed, Finality} \<and> validation_holds (scheduler_ctx s) t \<longrightarrow> reads_ok (g t) s t)"

definition stable_inv :: "(tx_id \<Rightarrow> (location \<times> read_version) list) \<Rightarrow> ('r, 'e) scheduler \<Rightarrow> usize \<Rightarrow> bool" where
  "stable_inv g s taken \<longleftrightarrow> (\<forall>t<block_size s. stable_tx g s taken t)"

text \<open>A change of one transaction.\<close>

lemma stable_change:
  assumes inv: "stable_inv g s taken" and wf: "context_wf (scheduler_ctx s)" "ctx_num_txs (scheduler_ctx s) = block_size s"
    and diff: "differ_at t (s_memory s, s_beneficiary s) (s_memory s', s_beneficiary s')"
    and same: "s_txs s' = s_txs s" "\<And>u. u \<noteq> t \<Longrightarrow> tx_states s' ! u = tx_states s ! u" "\<And>u. u \<noteq> t \<Longrightarrow> tx_results s' ! u = tx_results s ! u"
      "\<And>u. u \<noteq> t \<Longrightarrow> g' u = g u"
    and ctx: "lower_mono (scheduler_ctx s) (scheduler_ctx s')"
      "\<And>u. u \<noteq> t \<Longrightarrow> unconfirmed_timestamps (scheduler_ctx s') ! u = unconfirmed_timestamps (scheduler_ctx s) ! u"
    and kind: "rewound t (scheduler_ctx s) (scheduler_ctx s') \<or>
      (\<forall>l e. s_memory s l t = Some e \<longrightarrow> me_estimate e) \<and> es_value (entries (ben_history (s_beneficiary s)) ! t) = Estimate \<and>
      (\<forall>l. s_memory s l t = None \<longrightarrow> s_memory s' l t = None) \<or>
      s_memory s' = s_memory s \<and> s_beneficiary s' = s_beneficiary s"
    and own: "t < block_size s \<Longrightarrow> stable_tx g' s' taken t"
  shows "stable_inv g' s' taken"
  unfolding stable_inv_def
proof (intro allI impI)
  fix u
  assume u: "u < block_size s'"
  show "stable_tx g' s' taken u"
  proof (cases "u = t")
    case False
    have old: "stable_tx g s taken u" using inv u same(1) by (simp add: stable_inv_def)
    have slots: "slots_ok s' taken u"
      using old False diff same by (simp add: stable_tx_def slots_ok_def differ_at_def)
    have reads: "reads_ok (g u) s' u" if st: "status (tx_states s ! u) \<in> {Unconfirmed, Finality}"
      and holds: "validation_holds (scheduler_ctx s') u"
    proof -
      have "validation_holds (scheduler_ctx s) u"
        using holds ctx False unfolding validation_holds_def lower_mono_def by (metis order_le_less_trans)
      then have cur: "reads_ok (g u) s u" using old st by (auto simp: stable_tx_def)
      have le: "reads_ok (g u) s' u" if "u < t"
        using cur read_current_before [OF diff] that by (simp add: reads_ok_def)
      have stamp: "unconfirmed_timestamps (scheduler_ctx s) ! u < ctx_clock (scheduler_ctx s)"
        using wf u same(1) by (auto simp: context_wf_def)
      have "\<not> rewound t (scheduler_ctx s) (scheduler_ctx s')" if "t < u"
        using holds that stamp u same(1) wf(2) ctx(2) [OF False]
        unfolding rewound_def validation_holds_def by (metis not_less order_less_trans)
      moreover have "reads_ok (g u) s' u"
        if "t < u" "\<forall>l e. s_memory s l t = Some e \<longrightarrow> me_estimate e" "es_value (entries (ben_history (s_beneficiary s)) ! t) = Estimate"
          "\<forall>l. s_memory s l t = None \<longrightarrow> s_memory s' l t = None"
        using cur that read_current_after [OF diff that(1)] unfolding reads_ok_def by blast
      moreover have "reads_ok (g u) s' u" if "s_memory s' = s_memory s" "s_beneficiary s' = s_beneficiary s"
        using cur that by (simp add: reads_ok_def)
      ultimately show ?thesis using kind le False by (meson nat_neq_iff)
    qed
    show ?thesis using old slots reads False same by (simp add: stable_tx_def)
  qed (use own u same(1) in simp)
qed

section \<open>Executions and validations keep it\<close>

text \<open>What is relied on of an executor: a successful incarnation publishes on its own slots and reports
  where, a failed one publishes nothing.\<close>

definition own_publication :: "tx_version \<Rightarrow> ('r, 'e) incarnation_execution \<Rightarrow> mv_memory \<Rightarrow> mv_memory \<Rightarrow> bool" where
  "own_publication v ie m m' =
    (case ie_result ie of
       Inr sr \<Rightarrow> published v (is_blocked (ie_accesses ie)) (m, {}) (m', ia_write_set (ie_accesses ie))
     | Inl e \<Rightarrow> m' = m)"

lemma exec_memory_slots:
  assumes pub: "own_publication v ie m0 m" and t: "t = v_txid v"
    and dom: "\<And>l. m0 l t \<noteq> None \<longleftrightarrow> l \<in> last_write_set old"
  shows "u \<noteq> t \<Longrightarrow> exec_memory t ie old m l u = m0 l u"
    and "exec_memory t ie old m l t \<noteq> None \<longleftrightarrow> l \<in> write_set (exec_result ie old)"
    and "exec_conflict ie \<Longrightarrow> exec_memory t ie old m l t = Some e \<Longrightarrow> me_estimate e"
    and "\<not> exec_conflict ie \<Longrightarrow> exec_memory t ie old m l t = Some e \<Longrightarrow> me_incarnation e = v_incarnation v \<and> \<not> me_estimate e"
proof -
  have "(u \<noteq> t \<longrightarrow> exec_memory t ie old m l u = m0 l u) \<and>
    (exec_memory t ie old m l t \<noteq> None \<longleftrightarrow> l \<in> write_set (exec_result ie old)) \<and>
    (exec_conflict ie \<longrightarrow> exec_memory t ie old m l t = Some e \<longrightarrow> me_estimate e) \<and>
    (\<not> exec_conflict ie \<longrightarrow> exec_memory t ie old m l t = Some e \<longrightarrow> me_incarnation e = v_incarnation v \<and> \<not> me_estimate e)"
  proof (cases "ie_result ie")
    case (Inr sr)
    let ?ws = "ia_write_set (ie_accesses ie)"
    have p: "\<And>l u. u \<noteq> t \<Longrightarrow> m l u = m0 l u" "\<And>l. l \<notin> ?ws \<Longrightarrow> m l t = m0 l t"
      "\<And>l. l \<in> ?ws \<Longrightarrow> \<exists>d. m l t = Some (memory_entry_new (v_incarnation v) d (is_blocked (ie_accesses ie)))"
      using pub by (simp_all add: own_publication_def Inr published_def t)
    show ?thesis
    proof (cases "l \<in> ?ws")
      case True
      then show ?thesis using p(1) p(3) [OF True]
        by (auto simp: exec_memory_def exec_result_def exec_conflict_def Inr remove_stale_writes_def memory_entry_new_def)
    next
      case False
      then show ?thesis using p(1) p(2) [OF False] dom [of l]
        by (auto simp: exec_memory_def exec_result_def exec_conflict_def Inr remove_stale_writes_def)
    qed
  next
    case (Inl x)
    then show ?thesis using pub dom [of l]
      by (auto simp: own_publication_def exec_memory_def exec_result_def exec_conflict_def mark_mv_estimate_def split: option.splits)
  qed
  then show "u \<noteq> t \<Longrightarrow> exec_memory t ie old m l u = m0 l u" "exec_memory t ie old m l t \<noteq> None \<longleftrightarrow> l \<in> write_set (exec_result ie old)"
    "exec_conflict ie \<Longrightarrow> exec_memory t ie old m l t = Some e \<Longrightarrow> me_estimate e"
    "\<not> exec_conflict ie \<Longrightarrow> exec_memory t ie old m l t = Some e \<Longrightarrow> me_incarnation e = v_incarnation v \<and> \<not> me_estimate e"
    by blast+
qed

text \<open>A transaction a worker holds is not final, so its result was not taken.\<close>

lemma sched_inv_taken:
  assumes "sched_inv y" and "t < block_size (sys_sched y)" and "status (tx_states (sys_sched y) ! t) \<noteq> Finality"
  shows "pc_taken (sys_commit y) \<le> t"
  using sched_inv_tx(2) [OF assms] assms(1) by (simp add: sched_inv_def commit_ok_def final_ok_def)

lemma stable_exec:
  assumes inv: "sched_inv y" and held: "Execution v \<in># sys_tasks y"
    and eff: "exec_effect R v ie m (sys_sched y) s1 rw" and pub: "own_publication v ie (s_memory (sys_sched y)) m"
    and stable: "stable_inv g (sys_sched y) (pc_taken (sys_commit y))"
  shows "stable_inv (g(v_txid v := read_set (exec_result ie (tx_results (sys_sched y) ! v_txid v)))) s1 (pc_taken (sys_commit y))"
proof -
  let ?s = "sys_sched y" and ?t = "v_txid v" and ?taken = "pc_taken (sys_commit y)"
  let ?old = "tx_results ?s ! ?t"
  note h = held_execution [OF inv held] and shape = sched_inv_shape [OF inv]
  have taken: "?taken \<le> ?t" using sched_inv_taken [OF inv h(1)] h(2) by simp
  have slots: "slots_ok ?s ?taken ?t" using stable h(1) by (simp add: stable_inv_def stable_tx_def)
  have est: "\<forall>l e. s_memory ?s l ?t = Some e \<longrightarrow> me_estimate e" "es_value (entries (ben_history (s_beneficiary ?s)) ! ?t) = Estimate"
    and dom: "\<And>l. s_memory ?s l ?t \<noteq> None \<longleftrightarrow> l \<in> last_write_set ?old"
    using slots h(2) taken by (simp_all add: slots_ok_def)
  note mem = exec_memory_slots [OF pub refl dom]
  have e: "s_txs s1 = s_txs ?s" "s_memory s1 = exec_memory ?t ie ?old m" "tx_results s1 = (tx_results ?s)[?t := Some (exec_result ie ?old)]"
    "exec_history R v ie (s_beneficiary ?s) = Some (True, s_beneficiary s1)"
    "tx_states s1 = (tx_states ?s)[?t := (tx_states ?s ! ?t)\<lparr>status := if exec_conflict ie then Conflict else if rw then Executed else Validating\<rparr>]"
    "unconfirmed_timestamps (scheduler_ctx s1) = unconfirmed_timestamps (scheduler_ctx ?s)" "lower_mono (scheduler_ctx ?s) (scheduler_ctx s1)"
    "rw \<longrightarrow> rewound ?t (scheduler_ctx ?s) (scheduler_ctx s1)"
    "\<not> rw \<longrightarrow> \<not> exec_conflict ie \<and> \<not> writes_new_locations ?old (ia_write_set (ie_accesses ie))"
    using eff by (simp_all add: exec_effect_def Let_def)
  note hist = exec_history_differ [OF e(4)]
  show ?thesis
  proof (rule stable_change [OF stable, where t = ?t])
    show "context_wf (scheduler_ctx ?s)" "ctx_num_txs (scheduler_ctx ?s) = block_size ?s"
      using inv by (simp_all add: sched_inv_def shape_ok_def)
    show "differ_at ?t (s_memory ?s, s_beneficiary ?s) (s_memory s1, s_beneficiary s1)"
      using hist(1) mem(1) by (simp add: differ_at_def e(2))
    have "\<not> rw \<Longrightarrow> s_memory ?s l ?t = None \<Longrightarrow> s_memory s1 l ?t = None" for l
    proof -
      assume "\<not> rw" and none: "s_memory ?s l ?t = None"
      then obtain sr where "ie_result ie = Inr sr" using e(9) by (cases "ie_result ie") (auto simp: exec_conflict_def)
      moreover obtain lr where "?old = Some lr" "ia_write_set (ie_accesses ie) \<subseteq> write_set lr"
        using e(9) \<open>\<not> rw\<close> by (auto simp: writes_new_locations_def split: option.splits)
      ultimately show "s_memory s1 l ?t = None"
        using none dom [of l] mem(2) [of l] by (auto simp: e(2) exec_result_def last_write_set_def)
    qed
    then show "rewound ?t (scheduler_ctx ?s) (scheduler_ctx s1) \<or>
      (\<forall>l e. s_memory ?s l ?t = Some e \<longrightarrow> me_estimate e) \<and> es_value (entries (ben_history (s_beneficiary ?s)) ! ?t) = Estimate \<and>
      (\<forall>l. s_memory ?s l ?t = None \<longrightarrow> s_memory s1 l ?t = None) \<or> s_memory s1 = s_memory ?s \<and> s_beneficiary s1 = s_beneficiary ?s"
      using e(8) est by blast
    have "slots_ok s1 ?taken ?t"
      unfolding slots_ok_def using mem(2,3) hist(2) h(1) shape(1,2) by (auto simp: e last_write_set_def)
    then show "stable_tx (g(?t := read_set (exec_result ie ?old))) s1 ?taken ?t"
      using h(1) shape by (simp add: stable_tx_def e)
  qed (use e in simp_all)
qed

lemma mark_slots:
  assumes "\<And>l. m l t \<noteq> None \<longleftrightarrow> l \<in> ws"
  shows "u \<noteq> t \<Longrightarrow> mark_mv_estimate t ws m l u = m l u" "mark_mv_estimate t ws m l t = map_option (\<lambda>e. e\<lparr>me_estimate := True\<rparr>) (m l t)"
  using assms [of l] by (auto simp: mark_mv_estimate_def split: option.split)

lemma stable_val:
  assumes inv: "sched_inv y" and held: "Validation v \<in># sys_tasks y" and eff: "val_effect v r c dep (sys_sched y) s'"
    and stable: "stable_inv g (sys_sched y) (pc_taken (sys_commit y))"
  shows "stable_inv g s' (pc_taken (sys_commit y))"
proof -
  let ?s = "sys_sched y" and ?t = "v_txid v" and ?taken = "pc_taken (sys_commit y)"
  note h = held_validation [OF inv held] and shape = sched_inv_shape [OF inv]
  have taken: "?taken \<le> ?t" using sched_inv_taken [OF inv h(1)] h(2) by simp
  have e: "tx_results ?s ! ?t = Some r" "validate_reads (s_memory ?s) (s_beneficiary ?s) ?t (read_set r) (False, None) = Some (c, dep)"
    "s_txs s' = s_txs ?s" "tx_results s' = tx_results ?s"
    "s_memory s' = (if c then mark_mv_estimate ?t (write_set r) (s_memory ?s) else s_memory ?s)"
    "if c then invalidate v (s_beneficiary ?s) = Some (True, s_beneficiary s') else s_beneficiary s' = s_beneficiary ?s"
    "tx_states s' = (tx_states ?s)[?t := (tx_states ?s ! ?t)\<lparr>status := if c then Conflict else Unconfirmed, dependency := dep\<rparr>]"
    "lower_mono (scheduler_ctx ?s) (scheduler_ctx s')" "c \<longrightarrow> rewound ?t (scheduler_ctx ?s) (scheduler_ctx s')"
    "\<forall>u. u \<noteq> ?t \<longrightarrow> unconfirmed_timestamps (scheduler_ctx s') ! u = unconfirmed_timestamps (scheduler_ctx ?s) ! u"
    using eff by (simp_all add: val_effect_def Let_def)
  have own: "stable_tx g ?s ?taken ?t" using stable h(1) by (simp add: stable_inv_def)
  have dom: "\<And>l. s_memory ?s l ?t \<noteq> None \<longleftrightarrow> l \<in> write_set r" and g: "g ?t = read_set r"
    using own taken h(2) e(1) by (simp_all add: stable_tx_def slots_ok_def last_write_set_def)
  note mem = mark_slots [of "s_memory ?s" ?t "write_set r", OF dom]
  have hist: "c \<Longrightarrow> ben_history (s_beneficiary s') =
      (ben_history (s_beneficiary ?s))\<lparr>entries := (entries (ben_history (s_beneficiary ?s)))
        [?t := (entries (ben_history (s_beneficiary ?s)) ! ?t)\<lparr>es_value := Estimate\<rparr>]\<rparr>"
    using e(6) invalidate_history [of v "s_beneficiary ?s" "s_beneficiary s'"] by simp
  show ?thesis
  proof (rule stable_change [OF stable, where t = ?t])
    show "context_wf (scheduler_ctx ?s)" "ctx_num_txs (scheduler_ctx ?s) = block_size ?s"
      using inv by (simp_all add: sched_inv_def shape_ok_def)
    show "differ_at ?t (s_memory ?s, s_beneficiary ?s) (s_memory s', s_beneficiary s')"
      using hist mem(1) e(5,6) by (cases c) (simp_all add: differ_at_def)
    show "rewound ?t (scheduler_ctx ?s) (scheduler_ctx s') \<or>
      (\<forall>l e. s_memory ?s l ?t = Some e \<longrightarrow> me_estimate e) \<and> es_value (entries (ben_history (s_beneficiary ?s)) ! ?t) = Estimate \<and>
      (\<forall>l. s_memory ?s l ?t = None \<longrightarrow> s_memory s' l ?t = None) \<or> s_memory s' = s_memory ?s \<and> s_beneficiary s' = s_beneficiary ?s"
      using e(5,6,9) by (cases c) simp_all
    show "stable_tx g s' ?taken ?t"
    proof (cases c)
      case True
      have len: "?t < length (entries (ben_history (s_beneficiary ?s)))" using h(1) shape(3) by simp
      have "s_memory s' l ?t = map_option (\<lambda>e. e\<lparr>me_estimate := True\<rparr>) (s_memory ?s l ?t)" for l
        using e(5) True mem(2) by simp
      then have "slots_ok s' ?taken ?t"
        unfolding slots_ok_def using True e(1,4) hist [OF True] len dom by (auto simp: last_write_set_def)
      then show ?thesis using True h(1) shape(1) by (simp add: stable_tx_def e)
    next
      case False
      have "reads_ok (g ?t) s' ?t"
        using validate_reads_conflict [OF e(2)] False e(5,6) by (auto simp: reads_ok_def g)
      moreover have "slots_ok s' ?taken ?t"
        unfolding slots_ok_def using False e(1,4,5) h(1) shape(1) dom by (auto simp: last_write_set_def e(7))
      ultimately show ?thesis using False h(1) shape(1) g e(1,4) by (simp add: stable_tx_def e(7))
    qed
  qed (use e in simp_all)
qed

section \<open>Claims, finality and commit keep it\<close>

definition claimed :: "tx_state \<Rightarrow> tx_state \<Rightarrow> bool" where
  "claimed st st' \<longleftrightarrow> st' = st \<or>
    status st \<in> {Initial, Conflict} \<and> st' = st\<lparr>status := Executing, incarnation := Suc (incarnation st)\<rparr> \<or>
    status st \<in> {Executed, Unconfirmed} \<and> st' = st\<lparr>status := Validating\<rparr>"

definition claims :: "('r, 'e) scheduler \<Rightarrow> ('r, 'e) scheduler \<Rightarrow> bool" where
  "claims s s' \<longleftrightarrow> s_txs s' = s_txs s \<and> s_memory s' = s_memory s \<and> s_beneficiary s' = s_beneficiary s \<and>
    tx_results s' = tx_results s \<and> lower_timestamps (scheduler_ctx s') = lower_timestamps (scheduler_ctx s) \<and>
    unconfirmed_timestamps (scheduler_ctx s') = unconfirmed_timestamps (scheduler_ctx s) \<and>
    (\<forall>t. claimed (tx_states s ! t) (tx_states s' ! t))"

lemma claims_refl [simp]: "claims s s"
  by (simp add: claims_def claimed_def)

lemma execution_task_claims: "execution_task i s = Some (t, s') \<Longrightarrow> claims s s'"
  by (auto simp: execution_task_def claims_def claimed_def list_get_def nth_list_update bind_eq_Some_conv split: if_splits)

lemma validation_task_claims: "validation_task i s = Some (t, s') \<Longrightarrow> claims s s'"
  by (auto simp: validation_task_def claims_def claimed_def list_get_def nth_list_update split: if_splits)

lemma claims_fields [simp]:
  "claims s (s'\<lparr>s_dependency := d\<rparr>) = claims s s'" "claims (s\<lparr>s_dependency := d\<rparr>) s' = claims s s'" "claims s (cancel s') = claims s s'"
  by (simp_all add: claims_def cancel_def)

lemma next_iteration_claims:
  assumes "next_iteration s = Some (t, s')"
  shows "claims s s'"
proof -
  obtain b c1 where c1: "should_schedule (td_index (s_dependency s)) (scheduler_ctx s) = (b, c1)" by fastforce
  obtain v c2 where c2: "next_validation_idx (td_index (s_dependency s)) c1 = (v, c2)" by fastforce
  let ?s1 = "s\<lparr>scheduler_ctx := c2\<rparr>"
  have stamps: "lower_timestamps c2 = lower_timestamps (scheduler_ctx s)" "unconfirmed_timestamps c2 = unconfirmed_timestamps (scheduler_ctx s)"
    using c1 c2 by (auto simp: should_schedule_def next_validation_idx_def Let_def split: if_splits prod.splits)
  then have ctx: "claims s x = claims ?s1 x" for x by (simp add: claims_def)
  obtain r s2 where r: "(case v of Some i \<Rightarrow> validation_task i ?s1 | None \<Rightarrow> Some (None, ?s1)) = Some (r, s2)"
    using assms by (auto simp: next_iteration_def c1 c2 Let_def bind_eq_Some_conv)
  have s2: "claims ?s1 s2" "r = None \<Longrightarrow> s2 = ?s1"
    using r validation_task_claims [of _ ?s1 r s2] by (auto split: option.splits elim: validation_task_cases)
  show ?thesis
  proof (cases r)
    case (Some x)
    then show ?thesis using assms r s2(1) by (simp add: next_iteration_def c1 c2 Let_def ctx)
  next
    case None
    then obtain e td where "td_next (s_dependency s2) = Some (e, td)"
      and "(case e of Some i \<Rightarrow> execution_task i (s2\<lparr>s_dependency := td\<rparr>) | None \<Rightarrow> Some (None, s2\<lparr>s_dependency := td\<rparr>)) = Some (t, s')"
      using assms r by (auto simp: next_iteration_def c1 c2 Let_def bind_eq_Some_conv)
    then have "claims (s2\<lparr>s_dependency := td\<rparr>) s'"
      using execution_task_claims [of _ "s2\<lparr>s_dependency := td\<rparr>" t s'] by (auto split: option.splits)
    then show ?thesis using s2(2) [OF None] ctx by simp
  qed
qed

lemma stable_same:
  assumes "stable_tx g s taken t" and "s_memory s' = s_memory s" and "s_beneficiary s' = s_beneficiary s"
    and "tx_results s' ! t = tx_results s ! t"
    and "lower_timestamps (scheduler_ctx s') = lower_timestamps (scheduler_ctx s)"
    and "unconfirmed_timestamps (scheduler_ctx s') = unconfirmed_timestamps (scheduler_ctx s)"
    and "unsettled (tx_states s' ! t) \<longleftrightarrow> unsettled (tx_states s ! t)"
    and "status (tx_states s' ! t) \<in> {Unconfirmed, Finality} \<Longrightarrow> status (tx_states s ! t) \<in> {Unconfirmed, Finality}"
  shows "stable_tx g s' taken t"
  using assms unfolding stable_tx_def slots_ok_def reads_ok_def validation_holds_def by simp

lemma stable_claims:
  assumes "stable_inv g s taken" and "claims s s'"
  shows "stable_inv g s' taken"
  unfolding stable_inv_def
proof (intro allI impI)
  fix t
  assume "t < block_size s'"
  then have st: "stable_tx g s taken t" and "claimed (tx_states s ! t) (tx_states s' ! t)"
    using assms by (simp_all add: stable_inv_def claims_def)
  then have "unsettled (tx_states s' ! t) \<longleftrightarrow> unsettled (tx_states s ! t)"
    "status (tx_states s' ! t) \<in> {Unconfirmed, Finality} \<Longrightarrow> status (tx_states s ! t) \<in> {Unconfirmed, Finality}"
    unfolding claimed_def by (elim disjE conjE; simp)+
  then show "stable_tx g s' taken t" using assms(2) by (intro stable_same [OF st]) (simp_all add: claims_def)
qed

lemma stable_finality:
  assumes stable: "stable_inv g s taken" and cand: "lock_finality_candidate f l s = Some (Some (tx, l'))"
  shows "stable_inv g (finalize_candidate b f tx s) taken"
  unfolding stable_inv_def
proof (intro allI impI)
  fix t
  let ?s = "finalize_candidate b f tx s"
  assume t: "t < block_size ?s"
  note c = lock_finality_candidateD [OF cand]
  have st: "stable_tx g s taken t" using t stable by (simp add: stable_inv_def)
  show "stable_tx g ?s taken t"
  proof (rule stable_same [OF st])
    show "s_memory ?s = s_memory s" by (simp add: finalize_candidate_def Let_def)
    show "unsettled (tx_states ?s ! t) \<longleftrightarrow> unsettled (tx_states s ! t)"
      "status (tx_states ?s ! t) \<in> {Unconfirmed, Finality} \<Longrightarrow> status (tx_states s ! t) \<in> {Unconfirmed, Finality}"
      using c(2-4) by (cases "t = f"; simp)+
  qed simp_all
qed

lemma abort_fields [simp]:
  "s_txs (abort a s) = s_txs s" "s_memory (abort a s) = s_memory s" "s_beneficiary (abort a s) = s_beneficiary s"
  "tx_states (abort a s) = tx_states s" "tx_results (abort a s) = tx_results s" "scheduler_ctx (abort a s) = scheduler_ctx s"
  by (simp_all add: abort_def cancel_def)

lemma after_commit_frame:
  assumes "after_commit i outcome out oc s = Some (r, oc', s')"
  shows "s_txs s' = s_txs s \<and> s_memory s' = s_memory s \<and> s_beneficiary s' = s_beneficiary s \<and> tx_states s' = tx_states s \<and>
    tx_results s' = tx_results s \<and> lower_timestamps (scheduler_ctx s') = lower_timestamps (scheduler_ctx s) \<and>
    unconfirmed_timestamps (scheduler_ctx s') = unconfirmed_timestamps (scheduler_ctx s)"
proof (cases outcome)
  case (Inl e)
  then have "s' = abort (CommitError e) s" using assms by (simp add: after_commit_def)
  then show ?thesis by simp
next
  case (Inr x)
  show ?thesis
  proof (cases x)
    case (Committed n)
    then show ?thesis using assms Inr by (auto simp: after_commit_def on_dependency_def bind_eq_Some_conv)
  next
    case NeedsSequentialFallback
    then have "s' = abort FallbackSequential s" using assms Inr by (simp add: after_commit_def)
    then show ?thesis by simp
  qed
qed

lemma commit_one_frame:
  assumes "commit_one R A add i out oc s = Some (r, oc', s')"
  shows "s_txs s' = s_txs s \<and> s_memory s' = s_memory s \<and> s_beneficiary s' = s_beneficiary s \<and> tx_states s' = tx_states s \<and>
    tx_results s' = (tx_results s)[i := None] \<and>
    lower_timestamps (scheduler_ctx s') = lower_timestamps (scheduler_ctx s) \<and>
    unconfirmed_timestamps (scheduler_ctx s') = unconfirmed_timestamps (scheduler_ctx s)"
proof -
  obtain x where x: "list_get (tx_results s) i = Some x" using assms by (auto simp: commit_one_def bind_eq_Some_conv)
  have leave: "?thesis" if "s' = abort a (set_tx_result i None s)" for a using that by simp
  show ?thesis
  proof (cases x)
    case None
    then show ?thesis using assms x leave by (auto simp: commit_one_def)
  next
    case (Some y)
    show ?thesis
    proof (cases "execute_result y")
      case (Inl e)
      then show ?thesis using assms x Some leave by (auto simp: commit_one_def)
    next
      case (Inr sr)
      then show ?thesis using assms x Some after_commit_frame [of i _ _ _ "set_tx_result i None s" r oc' s']
        by (auto simp: commit_one_def Let_def bind_eq_Some_conv)
    qed
  qed
qed

lemma stable_commit:
  assumes stable: "stable_inv g s i" and com: "commit_one R A add i out oc s = Some (r, oc', s')"
    and fin: "status (tx_states s ! i) = Finality"
  shows "stable_inv g s' (Suc i)"
  unfolding stable_inv_def
proof (intro allI impI)
  fix t
  assume t: "t < block_size s'"
  note f = commit_one_frame [OF com]
  have "stable_tx g s i t" using t stable f by (simp add: stable_inv_def)
  then show "stable_tx g s' (Suc i) t"
    using fin f by (cases "t = i") (auto simp: stable_tx_def slots_ok_def reads_ok_def validation_holds_def)
qed

section \<open>Reachable states\<close>

definition publishes_own :: "('r, 'e) executor \<Rightarrow> bool" where
  "publishes_own executor \<longleftrightarrow>
    (\<forall>v tx s ie m. executor v tx s = Some (ie, m) \<longrightarrow> own_publication v ie (s_memory s) m)"

text \<open>The executor of \<open>executor.rs\<close> does, whatever the worlds its reads see and the transaction program.\<close>

lemma execute_incarnation_own:
  assumes "execute_incarnation R W prog b v tx db m = Some (ie, db', m')"
  shows "own_publication v ie m m'"
proof -
  obtain x db1 where x: "run R W (prog (v_txid v) tx) (begin_incarnation v db) = Some (x, db1)"
    using assms by (auto simp: execute_incarnation_def bind_eq_Some_conv)
  show ?thesis
  proof (cases "handler_result x")
    case (Inl e)
    then show ?thesis using assms x
      by (auto simp: execute_incarnation_def own_publication_def discard_incarnation_def)
  next
    case (Inr sr)
    then obtain out st where "x = Inr (Inr (out, st))"
      by (auto simp: handler_result_def split: sum.splits prod.splits)
    then have v: "idb_version db1 = v" using run_version x by (fastforce simp: begin_incarnation_def)
    obtain mm ws where p: "publish_writes R b db1 (sr_state sr) (idb_blocking_txs db1 \<noteq> {}) m = (mm, ws)" by fastforce
    then show ?thesis using assms x Inr published_writes [OF p] v
      by (auto simp: execute_incarnation_def own_publication_def finish_incarnation_def is_blocked_def)
  qed
qed

text \<open>The commit thread finds a successful result.\<close>

lemma commit_one_result:
  assumes inv: "sched_inv y" and pc: "sys_commit y = CommitRunning i out"
    and i: "i < finality_idx (scheduler_ctx (sys_sched y))"
    and com: "commit_one R A add i out (sys_oc y) (sys_sched y) = Some (r, oc', s')"
  obtains x sr outcome out1 oc1 where "tx_results (sys_sched y) ! i = Some x" and "execute_result x = Inr sr"
    and "oc_commit R A add i (s_txs (sys_sched y) ! i) sr out (sys_oc y) = Some (outcome, out1, oc1)"
    and "after_commit i outcome out1 oc1 (set_tx_result i None (sys_sched y)) = Some (r, oc', s')"
    and "length out = i" and "i < block_size (sys_sched y)" and "status (tx_states (sys_sched y) ! i) = Finality"
proof -
  let ?s = "sys_sched y"
  have f: "i < sys_final y" "i < block_size ?s" "status (tx_states ?s ! i) = Finality" "length out = i"
    using inv i pc by (auto simp: sched_inv_def final_ok_def commit_ok_def)
  obtain x sr where x: "tx_results ?s ! i = Some x" "execute_result x = Inr sr"
    using sched_inv_tx(1) [OF inv f(2)] f(3) pc by (auto simp: tx_ok_def Let_def)
  then show thesis using that com f sched_inv_shape(2) [OF inv]
    by (auto simp: commit_one_def Let_def list_get_def bind_eq_Some_conv)
qed

lemma commit_one_taken:
  assumes "oc_commit R A add i tx sr out oc = Some (outcome, out1, oc1)"
    and "after_commit i outcome out1 oc1 s = Some (r, oc', s')" and "length out = i"
  shows "pc_taken (case r of Inr (n, out') \<Rightarrow> CommitRunning n out' | Inl e \<Rightarrow> CommitEnded i e) = Suc i"
  using oc_commit_output [OF assms(1)] assms(2,3)
  by (auto simp: after_commit_def bind_eq_Some_conv split: sum.splits commit_outcome.splits)

lemma stable_step:
  assumes "sched_step R A add E y y'" and "E \<subseteq> Collect publishes_own" and "sched_inv y"
    and "stable_inv g (sys_sched y) (pc_taken (sys_commit y))"
  shows "\<exists>g'. stable_inv g' (sys_sched y') (pc_taken (sys_commit y'))"
  using assms
proof (induction rule: sched_step.induct)
  case (claim y t s')
  then show ?case using stable_claims [OF claim(4) next_iteration_claims [OF claim(1)]] by auto
next
  case (claim_validation i y t s')
  then show ?case using stable_claims [OF claim_validation(4) validation_task_claims [OF claim_validation(1)]] by auto
next
  case (claim_execution i y t s')
  then show ?case using stable_claims [OF claim_execution(4) execution_task_claims [OF claim_execution(1)]] by auto
next
  case (work task y executor t s')
  show ?case
  proof (cases task)
    case (Execution v)
    then have held: "Execution v \<in># sys_tasks y" and ex: "execute_task R executor v (sys_sched y) = Some (t, s')"
      using work by (simp_all add: worker_task_def)
    from work(5) held ex obtain ie m s1 rw
      where run: "executor v (s_txs (sys_sched y) ! v_txid v) (bump_metrics record_execution_attempt (sys_sched y)) = Some (ie, m)"
      and eff: "exec_effect R v ie m (sys_sched y) s1 rw" and s': "s' = s1 \<or> (\<exists>i. execution_task i s1 = Some (t, s'))"
      by (rule execute_task_effect)
    have "own_publication v ie (s_memory (sys_sched y)) m"
      using run work(2,4) unfolding publishes_own_def by fastforce
    from stable_exec [OF work(5) held eff this work(6)]
    obtain g' where "stable_inv g' s1 (pc_taken (sys_commit y))" by blast
    then have "stable_inv g' s' (pc_taken (sys_commit y))"
      using s' stable_claims execution_task_claims by blast
    then show ?thesis by auto
  next
    case (Validation v)
    then have held: "Validation v \<in># sys_tasks y" and val: "validate v (sys_sched y) = Some s'"
      using work by (auto simp: worker_task_def)
    from work(5) held val obtain r c dep where "val_effect v r c dep (sys_sched y) s'" by (rule validate_effect)
    from stable_val [OF work(5) held this work(6)] show ?thesis by auto
  qed
next
  case (finality y tx l first)
  then show ?case using stable_finality [OF finality(4,1)] by auto
next
  case (commit y i out r oc' s')
  from commit(5,1-3) show ?case
  proof (rule commit_one_result)
    fix x sr outcome out1 oc1
    assume oc: "oc_commit R A add i (s_txs (sys_sched y) ! i) sr out (sys_oc y) = Some (outcome, out1, oc1)"
      "after_commit i outcome out1 oc1 (set_tx_result i None (sys_sched y)) = Some (r, oc', s')" "length out = i"
      and fin: "status (tx_states (sys_sched y) ! i) = Finality"
    have "stable_inv g s' (Suc i)" using stable_commit [OF _ commit(3) fin] commit(1,6) by simp
    then show ?case using commit_one_taken [OF oc] by auto
  qed
next
  case (panic y)
  then show ?case using stable_claims [OF panic(3), of "cancel (sys_sched y)"] by auto
qed

lemma stable_start: "stable_inv g (sys_sched (block_start txs ben anchor oc)) 0"
  by (auto simp: stable_inv_def stable_tx_def slots_ok_def block_start_def sys_new_def scheduler_build_def tx_state_default_def
      beneficiary_new_def history_new_def entry_estimate_def last_write_set_def)

lemma stable_reachable:
  assumes "(sched_step R A add E)\<^sup>*\<^sup>* (block_start txs ben anchor oc) y" and "E \<subseteq> Collect publishes_own"
  shows "\<exists>g. stable_inv g (sys_sched y) (pc_taken (sys_commit y))"
  using assms(1)
proof (induction rule: rtranclp_induct)
  case base
  then show ?case using stable_start [where g = "\<lambda>_. []"] by (auto simp: block_start_def sys_new_def)
next
  case (step y z)
  then show ?case using stable_step [OF step(2) assms(2) sched_inv_reachable [OF step(1) sched_inv_start]] by blast
qed

section \<open>Property\<close>

text \<open>\<^bold>\<open>C5\<close>. Finality is safe: with executors that publish on their own slots and report where, in every
  interleaving every read of a finalized transaction that still has its result is current, that is,
  the entry it read is still the latest one before the transaction, not an estimate and of the
  incarnation it recorded, and the beneficiary chain it saw is unchanged. Timestamps, rewinds and
  estimates together never let the finality thread pass a stale validation.\<close>

theorem final_reads_current:
  assumes "E \<subseteq> Collect publishes_own" and "(sched_step R A add E)\<^sup>*\<^sup>* (block_start txs ben anchor oc) y"
    and "t < finality_idx (scheduler_ctx (sys_sched y))" and "pc_taken (sys_commit y) \<le> t"
  shows "\<exists>r. tx_results (sys_sched y) ! t = Some r \<and>
    (\<forall>(l, v)\<in>set (read_set r). read_current (s_memory (sys_sched y)) (s_beneficiary (sys_sched y)) t l v)"
proof -
  obtain g where g: "stable_inv g (sys_sched y) (pc_taken (sys_commit y))" using stable_reachable [OF assms(2,1)] by blast
  have inv: "sched_inv y" by (rule sched_inv_reachable [OF assms(2) sched_inv_start])
  have t: "t < block_size (sys_sched y)" "status (tx_states (sys_sched y) ! t) = Finality" "validation_holds (scheduler_ctx (sys_sched y)) t"
    using inv assms(3) by (auto simp: sched_inv_def final_ok_def validation_holds_def)
  then have "map_option read_set (tx_results (sys_sched y) ! t) = Some (g t)" "reads_ok (g t) (sys_sched y) t"
    using g assms(4) by (auto simp: stable_inv_def stable_tx_def)
  then show ?thesis by (auto simp: reads_ok_def)
qed

lemma world_executor_own: "publishes_own (world_executor prog R w)"
  by (auto simp: publishes_own_def world_executor_def dest: execute_incarnation_own)

theorem final_reads_current_witness:
  "\<exists>y r. (sched_step sample_revm sample_status (\<lambda>_ t. t) (Collect publishes_own))\<^sup>*\<^sup>* sample_block y \<and>
    finality_idx (scheduler_ctx (sys_sched y)) = 1 \<and> tx_results (sys_sched y) ! 0 = Some r \<and> read_set r \<noteq> [] \<and>
    (\<forall>(l, v)\<in>set (read_set r). read_current (s_memory (sys_sched y)) (s_beneficiary (sys_sched y)) 0 l v)"
proof -
  have "case sched_run (\<lambda>_. sample_executor) (sample_cmds @ [DoWork (Validation (TxVersion 0 1)), DoFinality]) sample_block of None \<Rightarrow> False
      | Some y \<Rightarrow> finality_idx (scheduler_ctx (sys_sched y)) = 1 \<and> pc_taken (sys_commit y) = 0 \<and>
          (case tx_results (sys_sched y) ! 0 of None \<Rightarrow> False | Some r \<Rightarrow> read_set r \<noteq> [])"
    by code_simp
  from sched_run_reachable [OF this, of "Collect publishes_own"] obtain y
    where y: "(sched_step sample_revm sample_status (\<lambda>_ t. t) (Collect publishes_own))\<^sup>*\<^sup>* sample_block y"
      "finality_idx (scheduler_ctx (sys_sched y)) = 1" "pc_taken (sys_commit y) = 0"
      "case tx_results (sys_sched y) ! 0 of None \<Rightarrow> False | Some r \<Rightarrow> read_set r \<noteq> []"
    by (auto simp: sample_executor_def world_executor_own)
  then show ?thesis using final_reads_current [OF subset_refl y(1) [unfolded sample_block_def], of 0] by auto
qed

end
