(* ===== verification/Serial_World.thy ===== *)
theory Serial_World
  imports Executor
begin

text \<open>
  What running a block one transaction after another means on plain worlds, and how the multi-version
  memory, the beneficiary history and the backing database together present the plain world before
  a transaction. The first part shows that a validated incarnation computes what the transaction
  computes on that plain world, the second that its publication presents the next plain world.
\<close>

section \<open>What is relied on\<close>

text \<open>revm's documented account predicates: the empty code hash is one constant, an empty account has no
  balance, and the default account has no code.\<close>

definition revm_laws :: "revm_ops \<Rightarrow> bool" where
  "revm_laws R \<longleftrightarrow> (\<exists>h. \<forall>i. is_empty_code_hash R i \<longleftrightarrow> info_code_hash i = h) \<and>
    (\<forall>i. is_empty_info R i \<longrightarrow> info_balance i = 0) \<and> is_empty_code_hash R (default_info R)"

text \<open>Code is addressed by content: \<open>cd h\<close> is the code with hash \<open>h\<close>. An account in canonical form
  carries its code exactly when it has one.\<close>

definition canon :: "revm_ops \<Rightarrow> (b256 \<Rightarrow> bytecode) \<Rightarrow> account_info \<Rightarrow> account_info" where
  "canon R cd i = i\<lparr>info_code := (if is_empty_code_hash R i then None else Some (cd (info_code_hash i)))\<rparr>"

abbreviation canon_opt :: "revm_ops \<Rightarrow> (b256 \<Rightarrow> bytecode) \<Rightarrow> account_info option \<Rightarrow> account_info option" where
  "canon_opt R cd \<equiv> map_option (canon R cd)"

definition coded :: "revm_ops \<Rightarrow> (b256 \<Rightarrow> bytecode) \<Rightarrow> account_info \<Rightarrow> bool" where
  "coded R cd i \<longleftrightarrow> is_empty_code_hash R i \<or> info_code i = None \<or> info_code i = Some (cd (info_code_hash i))"

text \<open>A transaction treats an account without code the same whatever its code field holds, and never
  asks for code by hash, because accounts come with their code.\<close>

primrec code_blind :: "revm_ops \<Rightarrow> 'r evm \<Rightarrow> bool" where
  "code_blind R (EDone r) = True"
| "code_blind R (EBasic a k) =
    ((\<forall>i. is_empty_code_hash R i \<longrightarrow> k (Some i) = k (Some (i\<lparr>info_code := None\<rparr>))) \<and> (\<forall>v. code_blind R (k v)))"
| "code_blind R (ECodeByHash h k) = False"
| "code_blind R (EStorage a i k) = (\<forall>v. code_blind R (k v))"
| "code_blind R (EBlockHash n k) = (\<forall>v. code_blind R (k v))"

section \<open>Running a transaction on a plain world\<close>

primrec serial_run ::
  "revm_ops \<Rightarrow> (b256 \<Rightarrow> bytecode) \<Rightarrow> (u64 \<Rightarrow> b256) \<Rightarrow> plain_world \<Rightarrow> 'r evm \<Rightarrow> 'r" where
  "serial_run R cd bh w (EDone r) = r"
| "serial_run R cd bh w (EBasic a k) = serial_run R cd bh w (k (canon_opt R cd (pw_basic w a)))"
| "serial_run R cd bh w (ECodeByHash h k) = serial_run R cd bh w (k (cd h))"
| "serial_run R cd bh w (EStorage a i k) = serial_run R cd bh w (k (pw_slot w a i))"
| "serial_run R cd bh w (EBlockHash n k) = serial_run R cd bh w (k (bh n))"

text \<open>The world after a transaction; a failed one changes nothing.\<close>

definition serial_result ::
  "revm_ops \<Rightarrow> (b256 \<Rightarrow> bytecode) \<Rightarrow> (u64 \<Rightarrow> b256) \<Rightarrow> ('r, 'e) tx_program \<Rightarrow> plain_world \<Rightarrow> 'e evm_error + 'r speculative_result" where
  "serial_result R cd bh prog w = handler_result (Inr (serial_run R cd bh w prog))"

definition serial_world ::
  "revm_ops \<Rightarrow> address \<Rightarrow> 'e evm_error + 'r speculative_result \<Rightarrow> plain_world \<Rightarrow> plain_world" where
  "serial_world R ben x w = (case x of Inl e \<Rightarrow> w | Inr sr \<Rightarrow> world_apply R (rewarded_state R ben sr w) w)"

text \<open>The world before transaction \<open>t\<close> of the block.\<close>

fun serial_before ::
  "revm_ops \<Rightarrow> (b256 \<Rightarrow> bytecode) \<Rightarrow> (u64 \<Rightarrow> b256) \<Rightarrow> address \<Rightarrow> (nat \<Rightarrow> ('r, 'e) tx_program) \<Rightarrow> plain_world \<Rightarrow> nat \<Rightarrow> plain_world" where
  "serial_before R cd bh ben progs w0 0 = w0"
| "serial_before R cd bh ben progs w0 (Suc t) =
    (let w = serial_before R cd bh ben progs w0 t in serial_world R ben (serial_result R cd bh (progs t) w) w)"

section \<open>The plain world a transaction reads\<close>

text \<open>The memory's entries before \<open>t\<close> and the beneficiary history present \<open>w\<close>.\<close>

definition mv_view :: "revm_ops \<Rightarrow> (b256 \<Rightarrow> bytecode) \<Rightarrow> tx_id \<Rightarrow> mv_memory \<Rightarrow> beneficiary \<Rightarrow> plain_world \<Rightarrow> bool" where
  "mv_view R cd t m b w \<longleftrightarrow>
    (\<forall>a p e. \<not> beneficiary_matches b a \<and> prev_entry (m (LBasic a)) t = Some (p, e) \<longrightarrow>
       (\<exists>x. me_data e = MBasic x \<and> canon_opt R cd x = canon_opt R cd (pw_basic w a) \<and> (\<forall>i. x = Some i \<longrightarrow> info_code i = None))) \<and>
    (\<forall>a p e i. prev_entry (m (LCode a)) t = Some (p, e) \<and> pw_basic w a = Some i \<and> \<not> is_empty_code_hash R i \<longrightarrow>
       me_data e = MCode (cd (info_code_hash i))) \<and>
    (\<forall>a p e. prev_entry (m (LStorageReset a)) t = Some (p, e) \<longrightarrow> me_data e = MStorageReset) \<and>
    (\<forall>a k. case prev_entry (m (LStorage a k)) t of
         Some (q, e) \<Rightarrow> (\<exists>v. me_data e = MStorage v \<and>
           pw_slot w a k = (case prev_entry (m (LStorageReset a)) t of Some (p, _) \<Rightarrow> if p \<le> q then v else 0 | None \<Rightarrow> v))
       | None \<Rightarrow> prev_entry (m (LStorageReset a)) t \<noteq> None \<longrightarrow> pw_slot w a k = 0) \<and>
    (\<exists>read. resolve_before R b t = Some (Inr read) \<and> br_account read = pw_basic w (ben_address b)) \<and>
    (\<forall>a i. pw_basic w a = Some i \<longrightarrow> coded R cd i)"

lemma mv_viewD:
  assumes "mv_view R cd t m b w"
  shows "\<not> beneficiary_matches b a \<Longrightarrow> prev_entry (m (LBasic a)) t = Some (p, e) \<Longrightarrow>
      \<exists>x. me_data e = MBasic x \<and> canon_opt R cd x = canon_opt R cd (pw_basic w a) \<and> (\<forall>i. x = Some i \<longrightarrow> info_code i = None)"
    and "prev_entry (m (LCode a)) t = Some (p, e) \<Longrightarrow> pw_basic w a = Some i \<Longrightarrow> \<not> is_empty_code_hash R i \<Longrightarrow>
      me_data e = MCode (cd (info_code_hash i))"
    and "prev_entry (m (LStorageReset a)) t = Some (p, e) \<Longrightarrow> me_data e = MStorageReset"
    and "case prev_entry (m (LStorage a k)) t of
         Some (q, e) \<Rightarrow> (\<exists>v. me_data e = MStorage v \<and>
           pw_slot w a k = (case prev_entry (m (LStorageReset a)) t of Some (p, _) \<Rightarrow> if p \<le> q then v else 0 | None \<Rightarrow> v))
       | None \<Rightarrow> prev_entry (m (LStorageReset a)) t \<noteq> None \<longrightarrow> pw_slot w a k = 0"
    and "\<exists>read. resolve_before R b t = Some (Inr read) \<and> br_account read = pw_basic w (ben_address b)"
    and "pw_basic w a = Some i \<Longrightarrow> coded R cd i"
  using assms unfolding mv_view_def by blast+

text \<open>Where the memory has no entry the database presents \<open>w\<close>.\<close>

definition db_view ::
  "revm_ops \<Rightarrow> (b256 \<Rightarrow> bytecode) \<Rightarrow> (u64 \<Rightarrow> b256) \<Rightarrow> tx_id \<Rightarrow> mv_memory \<Rightarrow> beneficiary \<Rightarrow> plain_world \<Rightarrow> 'e database_ref \<Rightarrow> bool" where
  "db_view R cd bh t m b w d \<longleftrightarrow>
    (\<forall>a. \<not> beneficiary_matches b a \<and> prev_entry (m (LBasic a)) t = None \<longrightarrow>
       (\<exists>x. basic_ref d a = Inr x \<and> canon_opt R cd x = canon_opt R cd (pw_basic w a) \<and> (\<forall>i. x = Some i \<longrightarrow> coded R cd i))) \<and>
    (\<forall>a k. prev_entry (m (LStorageReset a)) t = None \<and> prev_entry (m (LStorage a k)) t = None \<longrightarrow>
       storage_ref d a k = Inr (pw_slot w a k)) \<and>
    (\<forall>a i. pw_basic w a = Some i \<and> \<not> is_empty_code_hash R i \<and> prev_entry (m (LCode a)) t = None \<longrightarrow>
       code_by_hash_ref d (info_code_hash i) = Inr (cd (info_code_hash i))) \<and>
    (\<forall>n. block_hash_ref d n = Inr (bh n))"

text \<open>A moment whose reads, when current in \<open>(m, b)\<close>, see \<open>w\<close>.\<close>

definition past_view ::
  "revm_ops \<Rightarrow> (b256 \<Rightarrow> bytecode) \<Rightarrow> (u64 \<Rightarrow> b256) \<Rightarrow> tx_id \<Rightarrow> mv_memory \<Rightarrow> beneficiary \<Rightarrow> plain_world \<Rightarrow> 'e world \<Rightarrow> bool" where
  "past_view R cd bh t m b w v \<longleftrightarrow>
    (\<forall>l u e e'. w_mv v l u = Some e \<and> m l u = Some e' \<and> me_incarnation e' = me_incarnation e \<longrightarrow> me_data e' = me_data e) \<and>
    ben_leads R (w_ben v) b \<and> db_view R cd bh t m b w (w_db v)"

lemma canon_eqD:
  assumes "canon R cd i = canon R cd j"
  shows "info_code_hash i = info_code_hash j" "info_balance i = info_balance j" "info_nonce i = info_nonce j"
  using assms by (cases i; cases j; simp add: canon_def)+

lemma empty_hash_cong:
  assumes "revm_laws R" and "info_code_hash i = info_code_hash j"
  shows "is_empty_code_hash R i = is_empty_code_hash R j"
  using assms by (auto simp: revm_laws_def)

lemma empty_hash_code [simp]: "revm_laws R \<Longrightarrow> is_empty_code_hash R (i\<lparr>info_code := c\<rparr>) = is_empty_code_hash R i"
  by (rule empty_hash_cong) simp_all

text \<open>The answer a transaction gets for an account, up to the code field of an account without code.\<close>

definition agrees :: "revm_ops \<Rightarrow> account_info option \<Rightarrow> account_info option \<Rightarrow> bool" where
  "agrees R v v' \<longleftrightarrow> v = v' \<or> (\<exists>i. v = Some i \<and> is_empty_code_hash R i \<and> v' = Some (i\<lparr>info_code := None\<rparr>))"

lemma agrees_canon:
  assumes "coded R cd i" and "info_code i \<noteq> None \<or> is_empty_code_hash R i"
  shows "agrees R (Some i) (Some (canon R cd i))"
  using assms by (cases i) (auto simp: agrees_def canon_def coded_def)

section \<open>One lookup\<close>

lemma mv_probe_past:
  assumes probe: "mv_probe W l sel db = (hit, ver, db1)" and past: "past_view R cd bh t m b w (W (now db))" and t: "t = idb_txid db"
    and cur: "read_current m b t l ver" and unblocked: "idb_blocking_txs db1 = {}"
  shows "case hit of None \<Rightarrow> prev_entry (m l) t = None
    | Some (p, x) \<Rightarrow> \<exists>e. prev_entry (m l) t = Some (p, e) \<and> sel (me_data e) = Some x"
proof (cases hit)
  case None
  then have "ver = RvStorage" using probe by (auto simp: mv_probe_def split: option.splits prod.splits)
  then show ?thesis using None cur by simp
next
  case (Some x)
  then obtain p y e where x: "x = (p, y)" and e: "prev_entry (w_mv (W (now db)) l) t = Some (p, e)"
    and y: "sel (me_data e) = Some y" and ver: "ver = RvMvMemory (TxVersion p (me_incarnation e))"
    using probe unblocked t by (auto simp: mv_probe_def split: option.splits prod.splits if_splits)
  obtain e' where e': "prev_entry (m l) t = Some (p, e')" and inc: "me_incarnation e' = me_incarnation e"
    using cur ver by auto
  have "me_data e' = me_data e"
    using past prev_entry_SomeD [OF e] prev_entry_SomeD [OF e'] inc unfolding past_view_def by blast
  then show ?thesis using Some x y e' by simp
qed

lemma code_by_address_past:
  assumes op: "code_by_address W a h db = (Inr c, db1)" and past: "\<And>n. past_view R cd bh t m b w (W n)" and t: "t = idb_txid db"
    and view: "mv_view R cd t m b w" and acc: "pw_basic w a = Some i" "\<not> is_empty_code_hash R i" "h = info_code_hash i"
    and cur: "read_current m b t (LCode a) (the (map_of (idb_read_set db1) (LCode a)))" and unblocked: "idb_blocking_txs db1 = {}"
  shows "c = cd h"
proof -
  obtain hit ver dbp where probe: "mv_probe W (LCode a) as_code db = (hit, ver, dbp)"
    by (cases "mv_probe W (LCode a) as_code db")
  have ver: "map_of (idb_read_set db1) (LCode a) = Some ver" and bp: "idb_blocking_txs dbp = {}"
    using op unblocked by (auto simp: code_by_address_def probe split: option.splits sum.splits)
  show ?thesis
  proof (cases hit)
    case None
    then have "prev_entry (m (LCode a)) t = None" using mv_probe_past [OF probe past t] cur ver bp by simp
    then have "code_by_hash_ref (w_db (W n)) h = Inr (cd h)" for n
      using past [of n] acc by (auto simp: past_view_def db_view_def)
    then show ?thesis using op None by (simp add: code_by_address_def probe)
  next
    case (Some x)
    then obtain p y e where "x = (p, y)" "prev_entry (m (LCode a)) t = Some (p, e)" "as_code (me_data e) = Some y"
      using mv_probe_past [OF probe past t] cur ver bp by (cases x) auto
    moreover have "me_data e = MCode (cd (info_code_hash i))"
      using view acc calculation(2) unfolding mv_view_def by blast
    ultimately show ?thesis using op Some acc by (simp add: code_by_address_def probe)
  qed
qed

section \<open>Requests\<close>

definition reads_valid :: "mv_memory \<Rightarrow> beneficiary \<Rightarrow> incarnation_db \<Rightarrow> bool" where
  "reads_valid m b db \<longleftrightarrow> (\<forall>l v. map_of (idb_read_set db) l = Some v \<longrightarrow> read_current m b (idb_txid db) l v)"

text \<open>The account snapshots are those of \<open>w\<close>.\<close>

definition snap_ok :: "revm_ops \<Rightarrow> plain_world \<Rightarrow> (address \<times> account_basic) list \<Rightarrow> bool" where
  "snap_ok R w ss \<longleftrightarrow> (\<forall>a x. map_of ss a = Some x \<longrightarrow> (\<exists>i. pw_basic w a = Some i \<and> x = account_basic_from R i))"

lemma snap_ok_update:
  assumes "snap_ok R w (account_snapshots db)" and "canon_opt R cd acc = canon_opt R cd (pw_basic w a)" and "revm_laws R"
  shows "snap_ok R w (account_snapshots (snapshot_account R a acc db))"
proof (cases acc)
  case None
  then show ?thesis using assms(1) by (simp add: snapshot_account_def)
next
  case (Some i)
  then obtain j where j: "pw_basic w a = Some j" "canon R cd i = canon R cd j" using assms(2) by (cases "pw_basic w a") auto
  have "account_basic_from R i = account_basic_from R j"
    using canon_eqD [OF j(2)] empty_hash_cong [OF assms(3), of i j] by (simp add: account_basic_from_def)
  then show ?thesis using assms(1) j(1) by (auto simp: snap_ok_def snapshot_account_def Some update_conv')
qed

lemma snapshot_fields [simp]:
  "account_snapshots (snapshot_account R a acc (record_read l v db)) = account_snapshots (snapshot_account R a acc db)"
  "account_snapshots (snapshot_account R a acc (tick db)) = account_snapshots (snapshot_account R a acc db)"
  by (simp_all add: snapshot_account_def record_read_def split: option.split)

lemma mv_probe_snapshots:
  "mv_probe W l sel db = (hit, ver, db1) \<Longrightarrow> account_snapshots db1 = account_snapshots db"
  by (auto simp: mv_probe_def split: option.splits prod.splits)

lemma snapshot_probe:
  "account_snapshots db1 = account_snapshots db \<Longrightarrow>
    account_snapshots (snapshot_account R a acc db1) = account_snapshots (snapshot_account R a acc db)"
  by (simp add: snapshot_account_def split: option.split)

lemma basic_account_past:
  assumes op: "basic_account R W a db = Some (Inr acc, db1)" and past: "\<And>n. past_view R cd bh t m b w (W n)" and t: "t = idb_txid db"
    and view: "mv_view R cd t m b w"
    and cur: "read_current m b t (LBasic a) (the (map_of (idb_read_set db1) (LBasic a)))" and unblocked: "idb_blocking_txs db1 = {}"
  shows "canon_opt R cd acc = canon_opt R cd (pw_basic w a) \<and> (\<forall>i. acc = Some i \<longrightarrow> coded R cd i) \<and>
    account_snapshots db1 = account_snapshots (snapshot_account R a acc db)"
proof (cases "beneficiary_matches b a")
  case True
  have same: "beneficiary_matches (w_ben (W (now db))) a"
    using past [of "now db"] True by (simp add: past_view_def ben_leads_def beneficiary_matches_def)
  from same op unblocked obtain read where read: "resolve_before R (w_ben (W (now db))) (idb_txid db) = Some (Inr read)"
    and acc: "acc = br_account read"
    and db1: "db1 = snapshot_account R a acc (record_read (LBasic a) (RvBeneficiary (br_version read)) (tick db))"
    by (rule basic_account_beneficiary)
  obtain v where v: "beneficiary_validate b t (br_version read) = Some v" "bv_valid v" using cur db1 by auto
  obtain h0 h1 where "torn_view R h0 h1 (ben_history (w_ben (W (now db))))" "(history_step R)\<^sup>*\<^sup>* h1 (ben_history b)"
    using past [of "now db"] by (auto simp: past_view_def ben_leads_def)
  then have "resolve_before R b t = Some (Inr read)"
    using validated_read_current read v t by (auto simp: resolve_before_def beneficiary_validate_def)
  then have "acc = pw_basic w a" using view True acc by (auto simp: mv_view_def beneficiary_matches_def)
  then show ?thesis using view db1 by (simp add: mv_view_def)
next
  case False
  have same: "\<not> beneficiary_matches (w_ben (W n)) a" for n
    using past [of n] False by (simp add: past_view_def ben_leads_def beneficiary_matches_def)
  obtain hit ver dbp where probe: "mv_probe W (LBasic a) as_basic db = (hit, ver, dbp)"
    by (cases "mv_probe W (LBasic a) as_basic db")
  have ver: "map_of (idb_read_set db1) (LBasic a) = Some ver" and bp: "idb_blocking_txs dbp = {}"
    and snaps: "account_snapshots db1 = account_snapshots (snapshot_account R a acc db)"
    using op same unblocked snapshot_probe [OF mv_probe_snapshots [OF probe], of R a acc]
    by (auto simp: basic_account_def probe split: option.splits sum.splits)
  show ?thesis
  proof (cases hit)
    case None
    then have none: "prev_entry (m (LBasic a)) t = None" using mv_probe_past [OF probe past t] cur ver bp by simp
    have "basic_ref (w_db (W (now dbp))) a = Inr acc"
      using op same None by (auto simp: basic_account_def probe split: sum.splits)
    then show ?thesis using past [of "now dbp"] none False snaps by (fastforce simp: past_view_def db_view_def)
  next
    case (Some x)
    then obtain p y e where x: "x = (p, y)" "prev_entry (m (LBasic a)) t = Some (p, e)" "as_basic (me_data e) = Some y"
      using mv_probe_past [OF probe past t] cur ver bp by (cases x) auto
    have y: "y = acc" using op same Some x(1) by (simp add: basic_account_def probe)
    obtain z where "me_data e = MBasic z" "canon_opt R cd z = canon_opt R cd (pw_basic w a)" "\<forall>i. z = Some i \<longrightarrow> info_code i = None"
      using view False x(2) unfolding mv_view_def by blast
    then show ?thesis using x(3) y snaps by (auto simp: coded_def)
  qed
qed

lemma code_by_address_frame:
  assumes "code_by_address W a h db = (r, db1)"
  shows "idb_version db1 = idb_version db" "account_snapshots db1 = account_snapshots db" "idb_blocking_txs db \<subseteq> idb_blocking_txs db1"
    "\<And>l. l \<noteq> LCode a \<Longrightarrow> map_of (idb_read_set db1) l = map_of (idb_read_set db) l"
    "\<And>c. r = Inr c \<Longrightarrow> map_of (idb_read_set db1) (LCode a) \<noteq> None"
proof -
  obtain hit ver dbp where probe: "mv_probe W (LCode a) as_code db = (hit, ver, dbp)"
    by (cases "mv_probe W (LCode a) as_code db")
  note f = mv_probe_fields [OF probe] mv_probe_snapshots [OF probe]
  show "idb_version db1 = idb_version db" "account_snapshots db1 = account_snapshots db" "idb_blocking_txs db \<subseteq> idb_blocking_txs db1"
    "\<And>l. l \<noteq> LCode a \<Longrightarrow> map_of (idb_read_set db1) l = map_of (idb_read_set db) l"
    "\<And>c. r = Inr c \<Longrightarrow> map_of (idb_read_set db1) (LCode a) \<noteq> None"
    using assms f by (auto simp: code_by_address_def probe split: option.splits sum.splits)
qed

lemma idb_basic_past:
  assumes laws: "revm_laws R" and op: "idb_basic R W a db = Some (Inr v, db1)"
    and past: "\<And>n. past_view R cd bh t m b w (W n)" and t: "t = idb_txid db" and view: "mv_view R cd t m b w"
    and valid: "reads_valid m b db1" and unblocked: "idb_blocking_txs db1 = {}" and snaps: "snap_ok R w (account_snapshots db)"
  shows "agrees R v (canon_opt R cd (pw_basic w a)) \<and> snap_ok R w (account_snapshots db1)"
  using op
proof (cases rule: idb_basic_cases)
  case 1
  have "read_current m b t (LBasic a) (the (map_of (idb_read_set db1) (LBasic a)))"
    using valid basic_account_read [OF 1(1) unblocked] basic_account_version [OF 1(1)] t by (auto simp: reads_valid_def)
  note acc = basic_account_past [OF 1(1) past t view this unblocked]
  have "agrees R v (canon_opt R cd (pw_basic w a))"
  proof (cases v)
    case None
    then show ?thesis using acc by (auto simp: agrees_def)
  next
    case (Some i)
    then show ?thesis using acc agrees_canon [of R cd i] 1(2) [OF Some] by auto
  qed
  then show ?thesis using acc snap_ok_update [OF snaps _ laws] by metis
next
  case (2 info c dba)
  note f = code_by_address_frame [OF 2(4)]
  have unb: "idb_blocking_txs dba = {}" using f(3) unblocked by auto
  have ta: "t = idb_txid dba" using t basic_account_version [OF 2(1)] by simp
  have "read_current m b t (LBasic a) (the (map_of (idb_read_set dba) (LBasic a)))"
    using valid basic_account_read [OF 2(1) unb] f(1) f(4) [of "LBasic a"] ta by (auto simp: reads_valid_def)
  note acc = basic_account_past [OF 2(1) past t view this unb]
  then obtain j where j: "pw_basic w a = Some j" "canon R cd info = canon R cd j" by (cases "pw_basic w a") auto
  note same = canon_eqD [OF j(2)]
  have ne: "\<not> is_empty_code_hash R j" using 2(2) empty_hash_cong [OF laws same(1)] by simp
  have "read_current m b t (LCode a) (the (map_of (idb_read_set db1) (LCode a)))"
    using valid f(1) f(5) [OF refl] ta by (auto simp: reads_valid_def)
  then have c: "c = cd (info_code_hash info)"
    by (rule code_by_address_past [OF 2(4) past ta view j(1) ne same(1) _ unblocked])
  have "v = Some (canon R cd info)" using 2(2,5) c by (simp add: canon_def)
  then show ?thesis using j snap_ok_update [OF snaps _ laws] acc f(2) by (metis agrees_def option.simps(9))
qed

lemma idb_storage_probes:
  assumes "idb_storage W a k db = (r, db1)"
  obtains reset rver dba wr sver dbb where "mv_probe W (LStorageReset a) as_reset db = (reset, rver, dba)"
    and "mv_probe W (LStorage a k) as_storage (record_read (LStorageReset a) rver dba) = (wr, sver, dbb)"
    and "idb_version db1 = idb_version db" "account_snapshots db1 = account_snapshots db"
    and "idb_blocking_txs dba \<subseteq> idb_blocking_txs db1" "idb_blocking_txs dbb = idb_blocking_txs db1" "idb_blocking_txs db \<subseteq> idb_blocking_txs db1"
    and "map_of (idb_read_set db1) = (map_of (idb_read_set db))(LStorageReset a \<mapsto> rver, LStorage a k \<mapsto> sver)"
    and "r = (case wr of Some (q, v) \<Rightarrow> Inr (case reset of None \<Rightarrow> v | Some (p, _) \<Rightarrow> if p \<le> q then v else 0)
      | None \<Rightarrow> if reset \<noteq> None then Inr 0 else storage_ref (w_db (W (now dbb))) a k)"
proof -
  obtain reset rver dba where p1: "mv_probe W (LStorageReset a) as_reset db = (reset, rver, dba)"
    by (cases "mv_probe W (LStorageReset a) as_reset db")
  let ?dba = "record_read (LStorageReset a) rver dba"
  obtain wr sver dbb where p2: "mv_probe W (LStorage a k) as_storage ?dba = (wr, sver, dbb)"
    by (cases "mv_probe W (LStorage a k) as_storage ?dba")
  note f = mv_probe_fields [OF p1] mv_probe_fields [OF p2] mv_probe_snapshots [OF p1] mv_probe_snapshots [OF p2]
  have fields: "idb_version db1 = idb_version dbb \<and> account_snapshots db1 = account_snapshots dbb \<and>
      idb_blocking_txs db1 = idb_blocking_txs dbb \<and> map_of (idb_read_set db1) = (map_of (idb_read_set dbb))(LStorage a k \<mapsto> sver)"
    using assms by (auto simp: idb_storage_def p1 p2 Let_def split: option.splits prod.splits if_splits)
  have r: "r = (case wr of Some (q, v) \<Rightarrow> Inr (case reset of None \<Rightarrow> v | Some (p, _) \<Rightarrow> if p \<le> q then v else 0)
      | None \<Rightarrow> if reset \<noteq> None then Inr 0 else storage_ref (w_db (W (now dbb))) a k)"
    using assms by (auto simp: idb_storage_def p1 p2 Let_def split: option.splits prod.splits if_splits)
  show thesis by (rule that [OF p1 p2 _ _ _ _ _ _ r]) (use fields f in auto)
qed

lemma idb_storage_past:
  assumes op: "idb_storage W a k db = (Inr v, db1)" and past: "\<And>n. past_view R cd bh t m b w (W n)" and t: "t = idb_txid db"
    and view: "mv_view R cd t m b w" and valid: "reads_valid m b db1" and unblocked: "idb_blocking_txs db1 = {}"
  shows "v = pw_slot w a k \<and> account_snapshots db1 = account_snapshots db"
proof -
  from op obtain reset rver dba wr sver dbb where p1: "mv_probe W (LStorageReset a) as_reset db = (reset, rver, dba)"
    and p2: "mv_probe W (LStorage a k) as_storage (record_read (LStorageReset a) rver dba) = (wr, sver, dbb)"
    and f: "idb_version db1 = idb_version db" "account_snapshots db1 = account_snapshots db"
      "idb_blocking_txs dba \<subseteq> idb_blocking_txs db1" "idb_blocking_txs dbb = idb_blocking_txs db1" "idb_blocking_txs db \<subseteq> idb_blocking_txs db1"
      "map_of (idb_read_set db1) = (map_of (idb_read_set db))(LStorageReset a \<mapsto> rver, LStorage a k \<mapsto> sver)"
    and r: "Inr v = (case wr of Some (q, v) \<Rightarrow> Inr (case reset of None \<Rightarrow> v | Some (p, _) \<Rightarrow> if p \<le> q then v else 0)
      | None \<Rightarrow> if reset \<noteq> None then Inr 0 else storage_ref (w_db (W (now dbb))) a k)"
    by (rule idb_storage_probes)
  have cur: "read_current m b t (LStorageReset a) rver" "read_current m b t (LStorage a k) sver"
    using valid f(1,6) t by (auto simp: reads_valid_def)
  have t2: "t = idb_txid (record_read (LStorageReset a) rver dba)" using t mv_probe_fields(1) [OF p1] by simp
  have h1: "case reset of None \<Rightarrow> prev_entry (m (LStorageReset a)) t = None
      | Some (p, x) \<Rightarrow> \<exists>e. prev_entry (m (LStorageReset a)) t = Some (p, e) \<and> as_reset (me_data e) = Some x"
    by (rule mv_probe_past [OF p1 past t cur(1)]) (use f(3) unblocked in auto)
  have h2: "case wr of None \<Rightarrow> prev_entry (m (LStorage a k)) t = None
      | Some (p, x) \<Rightarrow> \<exists>e. prev_entry (m (LStorage a k)) t = Some (p, e) \<and> as_storage (me_data e) = Some x"
    by (rule mv_probe_past [OF p2 past t2 cur(2)]) (use f(4) unblocked in auto)
  have slot: "case prev_entry (m (LStorage a k)) t of
      Some (q, e) \<Rightarrow> (\<exists>v. me_data e = MStorage v \<and>
        pw_slot w a k = (case prev_entry (m (LStorageReset a)) t of Some (p, _) \<Rightarrow> if p \<le> q then v else 0 | None \<Rightarrow> v))
    | None \<Rightarrow> prev_entry (m (LStorageReset a)) t \<noteq> None \<longrightarrow> pw_slot w a k = 0"
    using view unfolding mv_view_def by blast
  have "v = pw_slot w a k"
  proof (cases wr)
    case None
    then have none: "prev_entry (m (LStorage a k)) t = None" using h2 by simp
    show ?thesis
    proof (cases reset)
      case None
      then have "storage_ref (w_db (W (now dbb))) a k = Inr (pw_slot w a k)"
        using h1 none past [of "now dbb"] by (simp add: past_view_def db_view_def)
      then show ?thesis using r \<open>wr = None\<close> None by simp
    next
      case (Some x)
      then show ?thesis using h1 none slot r \<open>wr = None\<close> by (cases x) auto
    qed
  next
    case (Some x)
    then obtain q y e where x: "x = (q, y)" "prev_entry (m (LStorage a k)) t = Some (q, e)" "as_storage (me_data e) = Some y"
      using h2 by (cases x) auto
    obtain z where z: "me_data e = MStorage z"
      "pw_slot w a k = (case prev_entry (m (LStorageReset a)) t of Some (p, _) \<Rightarrow> if p \<le> q then z else 0 | None \<Rightarrow> z)"
      using slot x(2) by auto
    show ?thesis
    proof (cases reset)
      case None
      then show ?thesis using h1 z x r Some by simp
    next
      case (Some y)
      then show ?thesis using h1 z x r \<open>wr = Some x\<close> by (cases y) auto
    qed
  qed
  then show ?thesis using f(2) by simp
qed

section \<open>A validated run computes the serial result\<close>

lemma basic_account_blocking:
  assumes "basic_account R W a db = Some (r, db1)"
  shows "idb_blocking_txs db \<subseteq> idb_blocking_txs db1"
proof (cases "beneficiary_matches (w_ben (W (now db))) a")
  case True
  then obtain x where "resolve_before R (w_ben (W (now db))) (idb_txid db) = Some x"
    using assms by (auto simp: basic_account_def bind_eq_Some_conv)
  then show ?thesis using True assms by (cases x) (auto simp: basic_account_def)
next
  case False
  then show ?thesis using assms
    by (auto simp: basic_account_def dest!: mv_probe_fields(3) split: sum.splits option.splits prod.splits)
qed

lemma idb_basic_blocking:
  assumes "idb_basic R W a db = Some (Inr v, db1)"
  shows "idb_blocking_txs db \<subseteq> idb_blocking_txs db1"
  using assms
  by (cases rule: idb_basic_cases) (auto dest!: basic_account_blocking code_by_address_frame(3))

lemma run_frame:
  assumes "run R W prog db = Some (Inr r, dbF)" and "reads_kept R W prog db"
  shows "map_of (idb_read_set db) \<subseteq>\<^sub>m map_of (idb_read_set dbF) \<and> idb_blocking_txs db \<subseteq> idb_blocking_txs dbF"
  using assms
proof (induction prog arbitrary: db)
  case (EBasic a k)
  then obtain x db1 where op: "idb_basic R W a db = Some (x, db1)" by (auto simp: bind_eq_Some_conv)
  then obtain v where v: "x = Inr v" "run R W (k v) db1 = Some (Inr r, dbF)" "reads_kept R W (k v) db1"
    "map_of (idb_read_set db) \<subseteq>\<^sub>m map_of (idb_read_set db1)"
    using EBasic.prems by (cases x) (auto simp: continue_def kept_def)
  then show ?case using EBasic.IH [OF rangeI v(2,3)] idb_basic_blocking [of R W a db v db1] op by (auto intro: map_le_trans)
next
  case (EStorage a i k)
  obtain x db1 where op: "idb_storage W a i db = (x, db1)" by fastforce
  then obtain v where v: "x = Inr v" "run R W (k v) db1 = Some (Inr r, dbF)" "reads_kept R W (k v) db1"
    "map_of (idb_read_set db) \<subseteq>\<^sub>m map_of (idb_read_set db1)"
    using EStorage.prems by (cases x) (auto simp: continue_def kept_def)
  have "idb_blocking_txs db \<subseteq> idb_blocking_txs db1" by (rule idb_storage_probes [OF op]) simp
  then show ?case using EStorage.IH [OF rangeI v(2,3)] v(4) by (auto intro: map_le_trans)
next
  case (ECodeByHash h k)
  then obtain v where v: "run R W (k v) (tick db) = Some (Inr r, dbF)" "reads_kept R W (k v) (tick db)"
    by (auto simp: continue_def kept_def idb_code_by_hash_def split: sum.splits)
  show ?case using ECodeByHash.IH [OF rangeI v] by simp
next
  case (EBlockHash n k)
  then obtain v where v: "run R W (k v) (tick db) = Some (Inr r, dbF)" "reads_kept R W (k v) (tick db)"
    by (auto simp: continue_def kept_def idb_block_hash_def split: sum.splits)
  show ?case using EBlockHash.IH [OF rangeI v] by simp
qed simp

lemma reads_valid_le:
  "reads_valid m b db2 \<Longrightarrow> map_of (idb_read_set db1) \<subseteq>\<^sub>m map_of (idb_read_set db2) \<Longrightarrow>
    idb_version db2 = idb_version db1 \<Longrightarrow> reads_valid m b db1"
  by (auto simp: reads_valid_def map_le_def dom_def)

lemma run_past:
  assumes laws: "revm_laws R" and past: "\<And>n. past_view R cd bh t m b w (W n)" and view: "mv_view R cd t m b w"
    and "run R W prog db = Some (Inr r, dbF)" and "reads_kept R W prog db" and "t = idb_txid db" and "code_blind R prog"
    and "reads_valid m b dbF" and "idb_blocking_txs dbF = {}" and "snap_ok R w (account_snapshots db)"
  shows "r = serial_run R cd bh w prog \<and> snap_ok R w (account_snapshots dbF)"
  using assms(4-)
proof (induction prog arbitrary: db)
  case (EBasic a k)
  then obtain x db1 where op: "idb_basic R W a db = Some (x, db1)" by (auto simp: bind_eq_Some_conv)
  then obtain v where v: "x = Inr v" "run R W (k v) db1 = Some (Inr r, dbF)" "reads_kept R W (k v) db1"
    using EBasic.prems(1,2) by (cases x) (auto simp: continue_def kept_def)
  note frame = run_frame [OF v(2,3)] and ver = run_version [OF v(2)]
  have valid: "reads_valid m b db1" using reads_valid_le [OF EBasic.prems(5)] frame ver by blast
  have unb: "idb_blocking_txs db1 = {}" using frame EBasic.prems(6) by auto
  have one: "agrees R v (canon_opt R cd (pw_basic w a)) \<and> snap_ok R w (account_snapshots db1)"
    by (rule idb_basic_past [OF laws op [unfolded v(1)] past EBasic.prems(3) view valid unb EBasic.prems(7)])
  have k: "k v = k (canon_opt R cd (pw_basic w a))" using one EBasic.prems(4) by (auto simp: agrees_def)
  have "r = serial_run R cd bh w (k v) \<and> snap_ok R w (account_snapshots dbF)"
    by (rule EBasic.IH [OF rangeI v(2,3) _ _ EBasic.prems(5,6)])
      (use EBasic.prems(3,4) idb_basic_version [of R W a db v db1] op v(1) one in auto)
  then show ?case using k by simp
next
  case (EStorage a i k)
  obtain x db1 where op: "idb_storage W a i db = (x, db1)" by fastforce
  then obtain v where v: "x = Inr v" "run R W (k v) db1 = Some (Inr r, dbF)" "reads_kept R W (k v) db1"
    using EStorage.prems(1,2) by (cases x) (auto simp: continue_def kept_def)
  note frame = run_frame [OF v(2,3)] and ver = run_version [OF v(2)]
  have valid: "reads_valid m b db1" using reads_valid_le [OF EStorage.prems(5)] frame ver by blast
  have unb: "idb_blocking_txs db1 = {}" using frame EStorage.prems(6) by auto
  have one: "v = pw_slot w a i \<and> account_snapshots db1 = account_snapshots db"
    by (rule idb_storage_past [OF op [unfolded v(1)] past EStorage.prems(3) view valid unb])
  have "r = serial_run R cd bh w (k v) \<and> snap_ok R w (account_snapshots dbF)"
    by (rule EStorage.IH [OF rangeI v(2,3) _ _ EStorage.prems(5,6)])
      (use EStorage.prems(3,4,7) idb_storage_version [OF op] one in auto)
  then show ?case using one by simp
next
  case (EBlockHash n k)
  have "block_hash_ref (w_db (W (now db))) n = Inr (bh n)" using past by (simp add: past_view_def db_view_def)
  then have v: "run R W (k (bh n)) (tick db) = Some (Inr r, dbF)" "reads_kept R W (k (bh n)) (tick db)"
    using EBlockHash.prems(1,2) by (auto simp: continue_def kept_def idb_block_hash_def)
  show ?case using EBlockHash.IH [OF rangeI v _ _ EBlockHash.prems(5,6)] EBlockHash.prems(3,4,7) by simp
qed simp_all

section \<open>What a publication contains\<close>

fun loc_address :: "location \<Rightarrow> address" where
  "loc_address (LBasic a) = a"
| "loc_address (LStorage a k) = a"
| "loc_address (LStorageReset a) = a"
| "loc_address (LCode a) = a"

text \<open>The values an account of the finalized state publishes.\<close>

definition basic_changed :: "revm_ops \<Rightarrow> account_basic option \<Rightarrow> account_info \<Rightarrow> bool" where
  "basic_changed R snapshot info \<longleftrightarrow> code_changed R snapshot info \<or>
    (case snapshot of None \<Rightarrow> True | Some s \<Rightarrow> ab_nonce s \<noteq> info_nonce info \<or> ab_balance s \<noteq> info_balance info)"

definition live_data ::
  "revm_ops \<Rightarrow> beneficiary \<Rightarrow> (address \<times> account_basic) list \<Rightarrow> address \<Rightarrow> account \<Rightarrow> account_info \<Rightarrow> bool \<Rightarrow> location \<Rightarrow> memory_value option" where
  "live_data R b ss a acc info created l =
    (if loc_address l \<noteq> a then None
     else case l of
       LStorageReset _ \<Rightarrow> if created then Some MStorageReset else None
     | LCode _ \<Rightarrow> if code_changed R (map_of ss a) info then Some (MCode (the (info_code info))) else None
     | LBasic _ \<Rightarrow> if \<not> beneficiary_matches b a \<and> basic_changed R (map_of ss a) info
         then Some (MBasic (Some (info\<lparr>info_code := None\<rparr>))) else None
     | LStorage _ k \<Rightarrow> map_option MStorage (map_of (changed_values R acc) k))"

definition account_data ::
  "revm_ops \<Rightarrow> beneficiary \<Rightarrow> (address \<times> account_basic) list \<Rightarrow> address \<Rightarrow> account \<Rightarrow> location \<Rightarrow> memory_value option" where
  "account_data R b ss a acc l =
    (case finalized_account_from R acc of
       Unchanged \<Rightarrow> None
     | Deleted \<Rightarrow> if l = LStorageReset a then Some MStorageReset
         else if l = LBasic a \<and> \<not> beneficiary_matches b a then Some (MBasic None) else None
     | Created info \<Rightarrow> live_data R b ss a acc info True l
     | Updated info \<Rightarrow> live_data R b ss a acc info False l)"

definition state_data ::
  "revm_ops \<Rightarrow> beneficiary \<Rightarrow> (address \<times> account_basic) list \<Rightarrow> evm_state \<Rightarrow> location \<Rightarrow> memory_value option" where
  "state_data R b ss st l =
    (case map_of st (loc_address l) of None \<Rightarrow> None | Some acc \<Rightarrow> account_data R b ss (loc_address l) acc l)"

text \<open>\<open>puts v est f st st'\<close>: the publications from \<open>st\<close> to \<open>st'\<close> are the values of \<open>f\<close>.\<close>

definition puts ::
  "tx_version \<Rightarrow> bool \<Rightarrow> (location \<rightharpoonup> memory_value) \<Rightarrow> mv_memory \<times> location set \<Rightarrow> mv_memory \<times> location set \<Rightarrow> bool" where
  "puts v est f st st' \<longleftrightarrow>
    (\<forall>l. fst st' l (v_txid v) =
       (case f l of Some d \<Rightarrow> Some (memory_entry_new (v_incarnation v) d est) | None \<Rightarrow> fst st l (v_txid v))) \<and>
    snd st' = snd st \<union> dom f"

lemma puts_none: "puts v est Map.empty st st"
  by (simp add: puts_def)

lemma puts_trans: "puts v est f st st' \<Longrightarrow> puts v est g st' st'' \<Longrightarrow> puts v est (f ++ g) st st''"
  by (auto simp: puts_def map_add_def split: option.splits)

lemma puts_value: "puts v est [l \<mapsto> d] st (publish_value v est l d st)"
  by (cases st) (auto simp: puts_def publish_value_def)

lemma puts_if: "puts v est (if c then [l \<mapsto> d] else Map.empty) st (if c then publish_value v est l d st else st)"
  by (simp add: puts_value puts_none)

definition slot_data :: "address \<Rightarrow> (u256 \<times> storage_slot) list \<Rightarrow> location \<Rightarrow> memory_value option" where
  "slot_data a xs l =
    (case l of LStorage b k \<Rightarrow> if b = a then map_option (\<lambda>s. MStorage (present_value s)) (map_of xs k) else None | _ \<Rightarrow> None)"

lemma puts_slots:
  assumes "distinct (map fst xs)"
  shows "puts v est (slot_data a xs) st (fold (\<lambda>(k, s). publish_value v est (LStorage a k) (MStorage (present_value s))) xs st)"
  using assms
proof (induction xs arbitrary: st)
  case Nil
  have "slot_data a [] = Map.empty" by (auto simp: slot_data_def fun_eq_iff split: location.split)
  then show ?case by (simp only: fold_simps puts_none)
next
  case (Cons x xs)
  obtain k s where x: "x = (k, s)" by (cases x)
  have new: "map_of xs k = None" using Cons.prems x by (simp add: map_of_eq_None_iff)
  have eq: "slot_data a (x # xs) = [LStorage a k \<mapsto> MStorage (present_value s)] ++ slot_data a xs"
    using new by (auto simp: x slot_data_def fun_eq_iff map_add_def split: location.split option.split)
  have "puts v est (slot_data a xs) (publish_value v est (LStorage a k) (MStorage (present_value s)) st)
      (fold (\<lambda>(k, s). publish_value v est (LStorage a k) (MStorage (present_value s))) xs (publish_value v est (LStorage a k) (MStorage (present_value s)) st))"
    using Cons by simp
  from puts_trans [OF puts_value this] show ?case unfolding eq by (simp add: x)
qed

lemma map_of_changed_values:
  "map_of (changed_values R acc) k = map_option present_value (map_of (changed_storage_slots R acc) k)"
  by (simp add: changed_values_def changed_storage_slots_def present_values_def map_of_map)

lemma puts_live:
  assumes "distinct (map fst (acct_storage acc))"
  shows "puts v est (live_data R b ss a acc info created) st
    (fold (\<lambda>(k, s). publish_value v est (LStorage a k) (MStorage (present_value s))) (changed_storage_slots R acc)
      (if \<not> beneficiary_matches b a \<and> basic_changed R (map_of ss a) info
       then publish_value v est (LBasic a) (MBasic (Some (info\<lparr>info_code := None\<rparr>)))
         (if code_changed R (map_of ss a) info then publish_value v est (LCode a) (MCode (the (info_code info)))
            (if created then publish_storage_reset v est a st else st)
          else if created then publish_storage_reset v est a st else st)
       else (if code_changed R (map_of ss a) info then publish_value v est (LCode a) (MCode (the (info_code info)))
            (if created then publish_storage_reset v est a st else st)
          else if created then publish_storage_reset v est a st else st)))"
proof -
  let ?f1 = "if created then [LStorageReset a \<mapsto> MStorageReset] else Map.empty"
  let ?f2 = "if code_changed R (map_of ss a) info then [LCode a \<mapsto> MCode (the (info_code info))] else Map.empty"
  let ?f3 = "if \<not> beneficiary_matches b a \<and> basic_changed R (map_of ss a) info then [LBasic a \<mapsto> MBasic (Some (info\<lparr>info_code := None\<rparr>))] else Map.empty"
  let ?f4 = "slot_data a (changed_storage_slots R acc)"
  have "distinct (map fst (changed_storage_slots R acc))"
    using assms by (simp add: changed_storage_slots_def distinct_map_filter)
  note p4 = puts_slots [OF this]
  have eq: "live_data R b ss a acc info created = ?f1 ++ ?f2 ++ ?f3 ++ ?f4"
    by (rule ext) (auto simp: live_data_def slot_data_def map_add_def map_of_changed_values option.map_comp comp_def
        split: location.split option.split)
  show ?thesis unfolding eq publish_storage_reset_def
    by (rule puts_trans [OF puts_trans [OF puts_trans [OF puts_if puts_if] puts_if] p4])
qed

lemma puts_account:
  assumes "distinct (map fst (acct_storage acc))"
  shows "puts (idb_version db) est (account_data R b (account_snapshots db) a acc) st (publish_account R b db est (a, acc) st)"
proof (cases "finalized_account_from R acc")
  case Unchanged
  have "account_data R b (account_snapshots db) a acc = Map.empty" by (simp add: account_data_def Unchanged fun_eq_iff)
  then show ?thesis using Unchanged by (simp add: publish_account_def puts_none)
next
  case Deleted
  let ?f1 = "if \<not> beneficiary_matches b a then [LBasic a \<mapsto> MBasic None] else Map.empty"
  have eq: "account_data R b (account_snapshots db) a acc = ?f1 ++ [LStorageReset a \<mapsto> MStorageReset]"
    by (rule ext) (auto simp: account_data_def Deleted)
  show ?thesis unfolding eq using puts_trans [OF puts_if puts_value] Deleted
    by (simp add: publish_account_def publish_storage_reset_def Let_def)
next
  case (Created i)
  have eq: "account_data R b (account_snapshots db) a acc = live_data R b (account_snapshots db) a acc i True"
    by (rule ext) (simp add: account_data_def Created)
  show ?thesis unfolding eq using puts_live [OF assms, of "idb_version db" est R b "account_snapshots db" a i True st] Created
    by (simp add: publish_account_def Let_def basic_changed_def)
next
  case (Updated i)
  have eq: "account_data R b (account_snapshots db) a acc = live_data R b (account_snapshots db) a acc i False"
    by (rule ext) (simp add: account_data_def Updated)
  show ?thesis unfolding eq using puts_live [OF assms, of "idb_version db" est R b "account_snapshots db" a i False st] Updated
    by (simp add: publish_account_def Let_def basic_changed_def)
qed

lemma account_data_address: "account_data R b ss a acc l \<noteq> None \<Longrightarrow> loc_address l = a"
  by (auto simp: account_data_def live_data_def split: finalized_account.splits if_splits)

lemma puts_state:
  assumes "distinct (map fst st)" and "\<forall>(a, acc)\<in>set st. distinct (map fst (acct_storage acc))"
  shows "puts (idb_version db) est (state_data R b (account_snapshots db) st) x (fold (publish_account R b db est) st x)"
  using assms
proof (induction st arbitrary: x)
  case Nil
  have "state_data R b (account_snapshots db) [] = Map.empty" by (simp add: state_data_def fun_eq_iff)
  then show ?case by (simp add: puts_none)
next
  case (Cons y st)
  obtain a acc where y: "y = (a, acc)" by (cases y)
  have new: "map_of st a = None" using Cons.prems y by (simp add: map_of_eq_None_iff)
  have eq: "state_data R b (account_snapshots db) (y # st) = account_data R b (account_snapshots db) a acc ++ state_data R b (account_snapshots db) st"
  proof (rule ext)
    fix l
    show "state_data R b (account_snapshots db) (y # st) l =
        (account_data R b (account_snapshots db) a acc ++ state_data R b (account_snapshots db) st) l"
    proof (cases "loc_address l = a")
      case True
      then show ?thesis using new by (simp add: state_data_def y map_add_def)
    next
      case False
      then have "account_data R b (account_snapshots db) a acc l = None" using account_data_address by blast
      then show ?thesis using False by (simp add: state_data_def y map_add_def split: option.split)
    qed
  qed
  have "puts (idb_version db) est (account_data R b (account_snapshots db) a acc) x (publish_account R b db est y x)"
    using Cons.prems puts_account y by auto
  moreover have "puts (idb_version db) est (state_data R b (account_snapshots db) st) (publish_account R b db est y x)
      (fold (publish_account R b db est) st (publish_account R b db est y x))"
    using Cons by simp
  ultimately show ?case unfolding eq by (simp add: puts_trans)
qed

section \<open>The next plain world\<close>

text \<open>What is relied on of a transaction's output on \<open>w\<close>: it lists each account and slot once, an
  account with code carries it, an account loses its code only with a nonce or balance change, a
  deferred reward is not zero and does not accompany a beneficiary write.\<close>

definition output_ok :: "revm_ops \<Rightarrow> (b256 \<Rightarrow> bytecode) \<Rightarrow> address \<Rightarrow> plain_world \<Rightarrow> 'r speculative_result \<Rightarrow> bool" where
  "output_ok R cd ben w sr \<longleftrightarrow> distinct (map fst (sr_state sr)) \<and>
    (\<forall>a acc. map_of (sr_state sr) a = Some acc \<longrightarrow> account_ready acc \<and>
       (\<forall>i. finalized_account_from R acc = Created i \<or> finalized_account_from R acc = Updated i \<longrightarrow>
          (\<not> is_empty_code_hash R i \<longrightarrow> info_code i = Some (cd (info_code_hash i))) \<and>
          (\<forall>j. pw_basic w a = Some j \<and> info_nonce i = info_nonce j \<and> info_balance i = info_balance j \<and>
             is_empty_code_hash R i \<longrightarrow> is_empty_code_hash R j))) \<and>
    (\<forall>r. deferred_reward sr = Some (DeferredBeneficiaryReward r) \<longrightarrow> r \<noteq> 0) \<and>
    (deferred_reward sr \<noteq> None \<longrightarrow> map_of (sr_state sr) ben = None)"

lemma output_okD:
  assumes "output_ok R cd ben w sr"
  shows "distinct (map fst (sr_state sr))" and "map_of (sr_state sr) a = Some acc \<Longrightarrow> account_ready acc"
    and "deferred_reward sr \<noteq> None \<Longrightarrow> map_of (sr_state sr) ben = None"
  using assms unfolding output_ok_def by blast+

lemma output_ok_live:
  assumes "output_ok R cd ben w sr" and "map_of (sr_state sr) a = Some acc"
    and "finalized_account_from R acc = Created i \<or> finalized_account_from R acc = Updated i"
  shows "\<not> is_empty_code_hash R i \<Longrightarrow> info_code i = Some (cd (info_code_hash i))"
    and "pw_basic w a = Some j \<Longrightarrow> info_nonce i = info_nonce j \<Longrightarrow> info_balance i = info_balance j \<Longrightarrow>
      is_empty_code_hash R i \<Longrightarrow> is_empty_code_hash R j"
  using assms unfolding output_ok_def by blast+

definition basic_after :: "revm_ops \<Rightarrow> account option \<Rightarrow> account_info option \<Rightarrow> account_info option" where
  "basic_after R acc x =
    (case acc of None \<Rightarrow> x
     | Some c \<Rightarrow> (case finalized_account_from R c of Unchanged \<Rightarrow> x | Deleted \<Rightarrow> None | Created i \<Rightarrow> Some i | Updated i \<Rightarrow> Some i))"

definition slot_after :: "revm_ops \<Rightarrow> account option \<Rightarrow> u256 \<Rightarrow> u256 \<Rightarrow> u256" where
  "slot_after R acc k x =
    (case acc of None \<Rightarrow> x
     | Some c \<Rightarrow> (case finalized_account_from R c of Unchanged \<Rightarrow> x | Deleted \<Rightarrow> 0
         | Created i \<Rightarrow> (case map_of (changed_values R c) k of Some v \<Rightarrow> v | None \<Rightarrow> 0)
         | Updated i \<Rightarrow> (case map_of (changed_values R c) k of Some v \<Rightarrow> v | None \<Rightarrow> x)))"

lemma world_account_at:
  "pw_basic (world_account R a acc w) c = (if c = a then basic_after R (Some acc) (pw_basic w a) else pw_basic w c)"
  "pw_slot (world_account R a acc w) c k = (if c = a then slot_after R (Some acc) k (pw_slot w a k) else pw_slot w c k)"
  by (simp_all add: world_account_def basic_after_def slot_after_def split: finalized_account.split)

lemma world_apply_at:
  assumes "distinct (map fst st)"
  shows "pw_basic (world_apply R st w) a = basic_after R (map_of st a) (pw_basic w a)"
    and "pw_slot (world_apply R st w) a k = slot_after R (map_of st a) k (pw_slot w a k)"
proof -
  have "pw_basic (world_apply R st w) a = basic_after R (map_of st a) (pw_basic w a) \<and>
    pw_slot (world_apply R st w) a k = slot_after R (map_of st a) k (pw_slot w a k)"
    using assms
  proof (induction st arbitrary: w)
    case Nil
    then show ?case by (simp add: world_apply_def basic_after_def slot_after_def)
  next
    case (Cons x st)
    obtain c acc where x: "x = (c, acc)" by (cases x)
    have new: "map_of st c = None" using Cons.prems x by (simp add: map_of_eq_None_iff)
    have "world_apply R (x # st) w = world_apply R st (world_account R c acc w)" by (simp add: x world_apply_def)
    then show ?case using Cons new by (auto simp: x world_account_at basic_after_def [of R None] slot_after_def [of R None])
  qed
  then show "pw_basic (world_apply R st w) a = basic_after R (map_of st a) (pw_basic w a)"
    "pw_slot (world_apply R st w) a k = slot_after R (map_of st a) k (pw_slot w a k)" by simp_all
qed

lemma apply_to_balance:
  assumes "r \<noteq> 0"
  shows "info_balance (apply_to R (DeferredBeneficiaryReward r) acc) \<noteq> 0"
proof -
  let ?i = "case acc of None \<Rightarrow> default_info R | Some i \<Rightarrow> i"
  have r: "0 < unat r" using assms by (simp add: unat_gt_0)
  show ?thesis
  proof (cases "checked_add (info_balance ?i) r")
    case None
    have "unat r < 2 ^ LENGTH(256)" by (rule unsigned_less)
    then have "info_balance ?i \<noteq> 0" using None by (auto simp: checked_add_None_iff)
    then show ?thesis using None by (simp add: Let_def)
  next
    case (Some b)
    then have "b \<noteq> 0" using unat_checked_add [OF Some] r by auto
    then show ?thesis using Some by (simp add: Let_def)
  qed
qed

lemma apply_to_code:
  "info_code (apply_to R x acc) = info_code (case acc of None \<Rightarrow> default_info R | Some i \<Rightarrow> i)"
  "info_code_hash (apply_to R x acc) = info_code_hash (case acc of None \<Rightarrow> default_info R | Some i \<Rightarrow> i)"
  by (cases x; auto simp: Let_def split: option.splits)+

lemma rewarded_account:
  assumes "revm_laws R" and "r \<noteq> 0"
  shows "basic_after R (Some (touched_account (apply_to R (DeferredBeneficiaryReward r) acc))) x =
      Some (apply_to R (DeferredBeneficiaryReward r) acc)"
    and "slot_after R (Some (touched_account (apply_to R (DeferredBeneficiaryReward r) acc))) k v = v"
proof -
  let ?i = "apply_to R (DeferredBeneficiaryReward r) acc"
  have "\<not> is_empty_info R ?i" using assms(1) apply_to_balance [OF assms(2), of R acc] unfolding revm_laws_def by blast
  then have "finalized_account_from R (touched_account ?i) = Updated ?i"
    by (simp add: finalized_account_from_def touched_account_def)
  then show "basic_after R (Some (touched_account ?i)) x = Some ?i" "slot_after R (Some (touched_account ?i)) k v = v"
    by (simp_all add: basic_after_def slot_after_def changed_values_def present_values_def touched_account_def)
qed

lemma next_world_at:
  assumes ok: "output_ok R cd ben w sr" and laws: "revm_laws R"
  shows "pw_basic (world_apply R (rewarded_state R ben sr w) w) a =
      (case deferred_reward sr of
         Some r \<Rightarrow> if a = ben then Some (apply_to R r (pw_basic w ben)) else basic_after R (map_of (sr_state sr) a) (pw_basic w a)
       | None \<Rightarrow> basic_after R (map_of (sr_state sr) a) (pw_basic w a))"
    and "pw_slot (world_apply R (rewarded_state R ben sr w) w) a k = slot_after R (map_of (sr_state sr) a) k (pw_slot w a k)"
proof -
  let ?st = "rewarded_state R ben sr w"
  have "pw_basic (world_apply R ?st w) a =
      (case deferred_reward sr of
         Some r \<Rightarrow> if a = ben then Some (apply_to R r (pw_basic w ben)) else basic_after R (map_of (sr_state sr) a) (pw_basic w a)
       | None \<Rightarrow> basic_after R (map_of (sr_state sr) a) (pw_basic w a)) \<and>
    pw_slot (world_apply R ?st w) a k = slot_after R (map_of (sr_state sr) a) k (pw_slot w a k)"
  proof (cases "deferred_reward sr")
    case None
    then show ?thesis using ok by (simp add: rewarded_state_def world_apply_at output_ok_def)
  next
    case (Some x)
    obtain r where x: "x = DeferredBeneficiaryReward r" by (cases x)
    have r: "r \<noteq> 0" and out: "map_of (sr_state sr) ben = None" and d: "distinct (map fst (sr_state sr))"
      using ok Some x by (auto simp: output_ok_def)
    have st: "?st = sr_state sr @ [(ben, touched_account (apply_to R x (pw_basic w ben)))]" by (simp add: rewarded_state_def Some)
    have d': "distinct (map fst ?st)" using d out by (simp add: st map_of_eq_None_iff)
    have m: "map_of ?st a = (if a = ben then Some (touched_account (apply_to R x (pw_basic w ben))) else map_of (sr_state sr) a)"
      using out by (auto simp: st map_add_def split: option.split)
    note rew = rewarded_account [OF laws r]
    show ?thesis unfolding world_apply_at(1) [OF d'] world_apply_at(2) [OF d'] m x Some
      by (simp del: apply_to.simps add: rew out slot_after_def [of R None])
  qed
  then show "pw_basic (world_apply R ?st w) a =
      (case deferred_reward sr of
         Some r \<Rightarrow> if a = ben then Some (apply_to R r (pw_basic w ben)) else basic_after R (map_of (sr_state sr) a) (pw_basic w a)
       | None \<Rightarrow> basic_after R (map_of (sr_state sr) a) (pw_basic w a))"
    "pw_slot (world_apply R ?st w) a k = slot_after R (map_of (sr_state sr) a) k (pw_slot w a k)" by blast+
qed

text \<open>What the publication says about the next world, location by location.\<close>

lemma canon_strip: "revm_laws R \<Longrightarrow> canon R cd (i\<lparr>info_code := c\<rparr>) = canon R cd i"
  by (simp add: canon_def)

lemma step_basic:
  assumes ok: "output_ok R cd ben w sr" and laws: "revm_laws R" and snaps: "snap_ok R w ss" and a: "a \<noteq> ben" and b: "ben_address b = ben"
  defines "w' \<equiv> world_apply R (rewarded_state R ben sr w) w"
  shows "case state_data R b ss (sr_state sr) (LBasic a) of
      Some d \<Rightarrow> \<exists>x. d = MBasic x \<and> canon_opt R cd x = canon_opt R cd (pw_basic w' a) \<and> (\<forall>i. x = Some i \<longrightarrow> info_code i = None)
    | None \<Rightarrow> canon_opt R cd (pw_basic w' a) = canon_opt R cd (pw_basic w a)"
proof -
  have w': "pw_basic w' a = basic_after R (map_of (sr_state sr) a) (pw_basic w a)"
    using next_world_at(1) [OF ok laws, of a] a by (simp add: w'_def split: option.split)
  have nb: "\<not> beneficiary_matches b a" using a b by (simp add: beneficiary_matches_def)
  show ?thesis
  proof (cases "map_of (sr_state sr) a")
    case None
    then show ?thesis using w' by (simp add: state_data_def basic_after_def)
  next
    case (Some acc)
    have live: "case (if basic_changed R (map_of ss a) i then Some (MBasic (Some (i\<lparr>info_code := None\<rparr>))) else None) of
        Some d \<Rightarrow> \<exists>x. d = MBasic x \<and> canon_opt R cd x = canon_opt R cd (Some i) \<and> (\<forall>i. x = Some i \<longrightarrow> info_code i = None)
      | None \<Rightarrow> canon_opt R cd (Some i) = canon_opt R cd (pw_basic w a)"
      if fin: "finalized_account_from R acc = Created i \<or> finalized_account_from R acc = Updated i" for i
    proof (cases "basic_changed R (map_of ss a) i")
      case True
      then show ?thesis using canon_strip [OF laws, where cd = cd and i = i and c = None] by simp
    next
      case False
      then obtain x where x: "map_of ss a = Some x" "ab_nonce x = info_nonce i" "ab_balance x = info_balance i"
        and cc: "\<not> code_changed R (map_of ss a) i" by (auto simp: basic_changed_def split: option.splits)
      obtain j where j: "pw_basic w a = Some j" "x = account_basic_from R j" using snaps x(1) by (auto simp: snap_ok_def)
      have code: "\<not> is_empty_code_hash R i \<Longrightarrow> info_code i = Some (cd (info_code_hash i))"
        and cleared: "is_empty_code_hash R i \<Longrightarrow> is_empty_code_hash R j"
        using output_ok_live(1) [OF ok Some fin] output_ok_live(2) [OF ok Some fin j(1)] j(2) x(2,3) by (simp_all add: account_basic_from_def)
      have "info_code_hash i = info_code_hash j \<and> is_empty_code_hash R i = is_empty_code_hash R j"
      proof (cases "is_empty_code_hash R i")
        case True
        then show ?thesis using cleared laws unfolding revm_laws_def by metis
      next
        case False
        then show ?thesis using cc code x(1) j(2) empty_hash_cong [OF laws, of i j]
          by (auto simp: code_changed_def account_basic_from_def split: if_splits)
      qed
      then have "canon R cd i = canon R cd j" using x j(2) by (cases i; cases j) (simp add: canon_def account_basic_from_def)
      then show ?thesis using False j(1) by simp
    qed
    show ?thesis
    proof (cases "finalized_account_from R acc")
      case (Created i)
      then show ?thesis using live [of i] w' Some nb
        by (simp add: state_data_def account_data_def live_data_def basic_after_def split: if_splits)
    next
      case (Updated i)
      then show ?thesis using live [of i] w' Some nb
        by (simp add: state_data_def account_data_def live_data_def basic_after_def split: if_splits)
    qed (use w' Some nb in \<open>simp_all add: state_data_def account_data_def basic_after_def\<close>)
  qed
qed

lemma step_code:
  assumes ok: "output_ok R cd ben w sr" and laws: "revm_laws R" and snaps: "snap_ok R w ss"
  defines "w' \<equiv> world_apply R (rewarded_state R ben sr w) w"
  assumes i: "pw_basic w' a = Some i" "\<not> is_empty_code_hash R i"
  shows "case state_data R b ss (sr_state sr) (LCode a) of
      Some d \<Rightarrow> d = MCode (cd (info_code_hash i))
    | None \<Rightarrow> \<exists>j. pw_basic w a = Some j \<and> info_code_hash j = info_code_hash i"
proof (cases "map_of (sr_state sr) a")
  case None
  have "\<exists>j. pw_basic w a = Some j \<and> info_code_hash j = info_code_hash i"
  proof (cases "a = ben \<and> deferred_reward sr \<noteq> None")
    case True
    then obtain x where x: "i = apply_to R x (pw_basic w a)" using next_world_at(1) [OF ok laws, of a] i(1) by (auto simp: w'_def)
    show ?thesis
    proof (cases "pw_basic w a")
      case None
      then have "info_code_hash i = info_code_hash (default_info R)" using x by (simp add: apply_to_code)
      then show ?thesis using i(2) laws empty_hash_cong [OF laws, of i "default_info R"] by (auto simp: revm_laws_def)
    next
      case (Some j)
      then show ?thesis using x by (simp add: apply_to_code)
    qed
  next
    case False
    then show ?thesis using next_world_at(1) [OF ok laws, of a] i(1) None by (auto simp: w'_def basic_after_def split: option.splits)
  qed
  then show ?thesis using None by (simp add: state_data_def)
next
  case (Some acc)
  have "\<not> (a = ben \<and> deferred_reward sr \<noteq> None)" using output_okD(3) [OF ok] Some by force
  then have w': "pw_basic w' a = basic_after R (Some acc) (pw_basic w a)"
    using next_world_at(1) [OF ok laws, of a] Some by (auto simp: w'_def split: option.splits)
  have live: "case (if code_changed R (map_of ss a) i then Some (MCode (the (info_code i))) else None) of
        Some d \<Rightarrow> d = MCode (cd (info_code_hash i)) | None \<Rightarrow> \<exists>j. pw_basic w a = Some j \<and> info_code_hash j = info_code_hash i"
    if fin: "finalized_account_from R acc = Created i \<or> finalized_account_from R acc = Updated i"
  proof -
    have code: "info_code i = Some (cd (info_code_hash i))" using output_ok_live(1) [OF ok Some fin i(2)] .
    show ?thesis
    proof (cases "code_changed R (map_of ss a) i")
      case False
      then obtain x where x: "map_of ss a = Some x" "ab_code_hash x = Some (info_code_hash i)"
        using code i(2) by (auto simp: code_changed_def split: option.splits)
      then obtain j where "pw_basic w a = Some j" "x = account_basic_from R j" using snaps unfolding snap_ok_def by blast
      then show ?thesis using False x(2) by (auto simp: account_basic_from_def split: if_splits)
    qed (simp add: code)
  qed
  show ?thesis
  proof (cases "finalized_account_from R acc")
    case (Created x)
    then show ?thesis using live w' Some i(1)
      by (simp add: state_data_def account_data_def live_data_def basic_after_def split: if_splits)
  next
    case (Updated x)
    then show ?thesis using live w' Some i(1)
      by (simp add: state_data_def account_data_def live_data_def basic_after_def split: if_splits)
  qed (use w' [unfolded i(1), symmetric] Some i(2) in \<open>simp_all add: state_data_def account_data_def basic_after_def\<close>)
qed

lemma step_slot:
  assumes ok: "output_ok R cd ben w sr" and laws: "revm_laws R"
  defines "w' \<equiv> world_apply R (rewarded_state R ben sr w) w"
  shows "state_data R b ss (sr_state sr) (LStorageReset a) = None \<or> state_data R b ss (sr_state sr) (LStorageReset a) = Some MStorageReset"
    and "case state_data R b ss (sr_state sr) (LStorage a k) of
      Some d \<Rightarrow> d = MStorage (pw_slot w' a k)
    | None \<Rightarrow> pw_slot w' a k = (if state_data R b ss (sr_state sr) (LStorageReset a) = None then pw_slot w a k else 0)"
proof -
  have w': "pw_slot w' a k = slot_after R (map_of (sr_state sr) a) k (pw_slot w a k)"
    using next_world_at(2) [OF ok laws] by (simp add: w'_def)
  show "state_data R b ss (sr_state sr) (LStorageReset a) = None \<or> state_data R b ss (sr_state sr) (LStorageReset a) = Some MStorageReset"
    by (auto simp: state_data_def account_data_def live_data_def split: option.split finalized_account.split)
  show "case state_data R b ss (sr_state sr) (LStorage a k) of
      Some d \<Rightarrow> d = MStorage (pw_slot w' a k)
    | None \<Rightarrow> pw_slot w' a k = (if state_data R b ss (sr_state sr) (LStorageReset a) = None then pw_slot w a k else 0)"
    unfolding w' by (auto simp: state_data_def account_data_def live_data_def slot_after_def split: option.split finalized_account.split)
qed

lemma step_beneficiary:
  assumes ok: "output_ok R cd ben w sr" and laws: "revm_laws R"
    and eff: "effect_from_execution R (deferred_reward sr) (map_of (sr_state sr) ben) = Some e"
  shows "pw_basic (world_apply R (rewarded_state R ben sr w) w) ben = effect_apply R e (pw_basic w ben)"
  using next_world_at(1) [OF ok laws, of ben] eff
  by (auto simp: effect_from_execution_def basic_after_def split: option.splits if_splits finalized_account.splits)

lemma step_coded:
  assumes ok: "output_ok R cd ben w sr" and laws: "revm_laws R" and coded: "\<And>a i. pw_basic w a = Some i \<Longrightarrow> coded R cd i"
    and i: "pw_basic (world_apply R (rewarded_state R ben sr w) w) a = Some i"
  shows "coded R cd i"
proof (cases "a = ben \<and> deferred_reward sr \<noteq> None")
  case True
  then obtain x where x: "i = apply_to R x (pw_basic w ben)" using next_world_at(1) [OF ok laws, of a] i by auto
  let ?j = "case pw_basic w ben of None \<Rightarrow> default_info R | Some j \<Rightarrow> j"
  have "coded R cd ?j" using coded laws by (auto simp: coded_def revm_laws_def split: option.split)
  then show ?thesis using x apply_to_code [of R x "pw_basic w ben"] empty_hash_cong [OF laws, of i ?j] by (simp add: coded_def)
next
  case False
  then have "basic_after R (map_of (sr_state sr) a) (pw_basic w a) = Some i"
    using next_world_at(1) [OF ok laws, of a] i by (auto split: option.splits)
  then consider "pw_basic w a = Some i" | acc where "map_of (sr_state sr) a = Some acc"
      "finalized_account_from R acc = Created i \<or> finalized_account_from R acc = Updated i"
    by (auto simp: basic_after_def split: option.splits finalized_account.splits)
  then show ?thesis
  proof cases
    case 1 then show ?thesis by (rule coded)
  next
    case 2 then show ?thesis using output_ok_live(1) [OF ok 2] by (auto simp: coded_def)
  qed
qed

section \<open>A publication presents the next world\<close>

lemma scan_loop_offset:
  assumes "scan_loop h t os rs = Inr s"
  shows "\<exists>s2 x. scan_loop h t os2 rs2 = Inr s2 \<and> scan_base s2 = scan_base s \<and>
    rewards_newest_first s = rs @ x \<and> rewards_newest_first s2 = rs2 @ x"
  using assms
proof (induction t arbitrary: os rs os2 rs2)
  case 0
  then show ?case by auto
next
  case (Suc w)
  obtain e where e: "es_value (entries h ! w) = Exact e"
    using Suc.prems by (auto simp: Let_def split: entry_value.splits)
  show ?case
  proof (cases e)
    case EffUnchanged
    then show ?thesis using Suc.prems e Suc.IH by (simp add: Let_def)
  next
    case (EffReward r)
    then have "scan_loop h w (os @ [TxVersion w (es_incarnation (entries h ! w))]) (rs @ [r]) = Inr s"
      using Suc.prems e by (simp add: Let_def)
    from Suc.IH [OF this, of "os2 @ [TxVersion w (es_incarnation (entries h ! w))]" "rs2 @ [r]"]
    show ?thesis using e EffReward by (auto simp: Let_def)
  next
    case (EffSnapshot acc)
    then show ?thesis using Suc.prems e by (auto simp: Let_def)
  qed
qed

lemma resolve_before_Suc:
  assumes "resolve_before R b t = Some (Inr read)" and "t < length (entries (ben_history b))"
    and "es_value (entries (ben_history b) ! t) = Exact e"
  shows "\<exists>read'. resolve_before R b (Suc t) = Some (Inr read') \<and> br_account read' = effect_apply R e (br_account read)"
proof -
  let ?h = "ben_history b" and ?os = "[TxVersion t (es_incarnation (entries (ben_history b) ! t))]"
  obtain s where s: "scan_loop ?h t [] [] = Inr s" "read = scan_resolve R s"
    using assms(1) by (cases "scan_loop ?h t [] []")
      (auto simp: resolve_before_def history_resolve_before_def scan_before_def split: if_splits)
  have next_scan: "\<exists>s2. scan_loop ?h t ?os rs = Inr s2 \<and> scan_base s2 = scan_base s \<and> rewards_newest_first s2 = rs @ rewards_newest_first s" for rs
    using scan_loop_offset [OF s(1), of ?os rs] by auto
  have "\<exists>s2. scan_loop ?h (Suc t) [] [] = Inr s2 \<and> br_account (scan_resolve R s2) = effect_apply R e (br_account read)"
  proof (cases e)
    case EffUnchanged
    then show ?thesis using next_scan [of "[]"] assms(3) s(2) by (auto simp: Let_def scan_resolve_def)
  next
    case (EffReward r)
    then show ?thesis using next_scan [of "[r]"] assms(3) s(2) by (auto simp: Let_def scan_resolve_def)
  next
    case (EffSnapshot acc)
    then show ?thesis using assms(3) by (simp add: Let_def scan_resolve_def)
  qed
  then show ?thesis using assms(2) by (auto simp: resolve_before_def history_resolve_before_def scan_before_def)
qed

text \<open>Transaction \<open>t\<close> has published what it computed on \<open>w\<close>.\<close>

definition presents ::
  "revm_ops \<Rightarrow> (b256 \<Rightarrow> bytecode) \<Rightarrow> tx_id \<Rightarrow> mv_memory \<Rightarrow> beneficiary \<Rightarrow> plain_world \<Rightarrow> 'r speculative_result \<Rightarrow> bool" where
  "presents R cd t m b w sr \<longleftrightarrow>
    (\<exists>ss e. snap_ok R w ss \<and> (\<forall>l. map_option me_data (m l t) = state_data R b ss (sr_state sr) l) \<and>
       t < length (entries (ben_history b)) \<and> es_value (entries (ben_history b) ! t) = Exact e \<and>
       effect_from_execution R (deferred_reward sr) (map_of (sr_state sr) (ben_address b)) = Some e \<and>
       output_ok R cd (ben_address b) w sr)"

lemma prev_entry_step:
  "prev_entry m (Suc t) = Some (p, e) \<Longrightarrow> p = t \<and> m t = Some e \<or> m t = None \<and> prev_entry m t = Some (p, e)"
  "prev_entry m (Suc t) = None \<Longrightarrow> m t = None \<and> prev_entry m t = None"
  by (auto split: option.splits)

lemma prev_entry_now: "m t = Some e \<Longrightarrow> prev_entry m (Suc t) = Some (t, e)"
  by simp

lemma mv_view_step:
  assumes laws: "revm_laws R" and view: "mv_view R cd t m b w" and pres: "presents R cd t m b w sr"
  shows "mv_view R cd (Suc t) m b (world_apply R (rewarded_state R (ben_address b) sr w) w)"
proof -
  let ?ben = "ben_address b" and ?st = "sr_state sr"
  let ?w = "world_apply R (rewarded_state R (ben_address b) sr w) w"
  obtain ss e where snaps: "snap_ok R w ss" and data: "\<And>l. map_option me_data (m l t) = state_data R b ss ?st l"
    and hist: "t < length (entries (ben_history b))" "es_value (entries (ben_history b) ! t) = Exact e"
    and eff: "effect_from_execution R (deferred_reward sr) (map_of ?st ?ben) = Some e" and ok: "output_ok R cd ?ben w sr"
    using pres by (auto simp: presents_def)
  have hit: "state_data R b ss ?st l = Some (me_data x)" if "m l t = Some x" for l x using data [of l] that by simp
  have miss: "state_data R b ss ?st l = None" if "m l t = None" for l using data [of l] that by simp
  show ?thesis unfolding mv_view_def
  proof (intro conjI allI impI)
    fix a p x
    assume a: "\<not> beneficiary_matches b a \<and> prev_entry (m (LBasic a)) (Suc t) = Some (p, x)"
    then have ne: "a \<noteq> ?ben" by (auto simp: beneficiary_matches_def)
    note one = step_basic [OF ok laws snaps ne refl]
    show "\<exists>y. me_data x = MBasic y \<and> canon_opt R cd y = canon_opt R cd (pw_basic ?w a) \<and> (\<forall>i. y = Some i \<longrightarrow> info_code i = None)"
      using prev_entry_step(1) [OF conjunct2 [OF a]]
    proof (elim disjE conjE)
      assume "m (LBasic a) t = Some x"
      from hit [OF this] one show ?thesis by simp
    next
      assume none: "m (LBasic a) t = None" and prev: "prev_entry (m (LBasic a)) t = Some (p, x)"
      have "canon_opt R cd (pw_basic ?w a) = canon_opt R cd (pw_basic w a)" using one miss [OF none] by simp
      then show ?thesis using mv_viewD(1) [OF view _ prev] a by simp
    qed
  next
    fix a p x i
    assume a: "prev_entry (m (LCode a)) (Suc t) = Some (p, x) \<and> pw_basic ?w a = Some i \<and> \<not> is_empty_code_hash R i"
    have one: "case state_data R b ss ?st (LCode a) of Some d \<Rightarrow> d = MCode (cd (info_code_hash i))
        | None \<Rightarrow> \<exists>j. pw_basic w a = Some j \<and> info_code_hash j = info_code_hash i"
      by (rule step_code [OF ok laws snaps]) (use a in auto)
    show "me_data x = MCode (cd (info_code_hash i))"
      using prev_entry_step(1) [OF conjunct1 [OF a]]
    proof (elim disjE conjE)
      assume "m (LCode a) t = Some x"
      from hit [OF this] one a show ?thesis by simp
    next
      assume none: "m (LCode a) t = None" and prev: "prev_entry (m (LCode a)) t = Some (p, x)"
      obtain j where j: "pw_basic w a = Some j" "info_code_hash j = info_code_hash i" using one a miss [OF none] by auto
      have "\<not> is_empty_code_hash R j" using a empty_hash_cong [OF laws j(2)] by simp
      then show ?thesis using mv_viewD(2) [OF view prev j(1)] j(2) by simp
    qed
  next
    fix a p x
    assume "prev_entry (m (LStorageReset a)) (Suc t) = Some (p, x)"
    from prev_entry_step(1) [OF this] show "me_data x = MStorageReset"
      using hit [of "LStorageReset a" x] step_slot(1) [OF ok laws, where b = b and ss = ss and a = a] mv_viewD(3) [OF view] by (elim disjE conjE) auto
  next
    fix a k
    note one = step_slot(2) [OF ok laws, where b = b and ss = ss and a = a and k = k]
    have old: "case prev_entry (m (LStorage a k)) t of
         Some (q, e) \<Rightarrow> (\<exists>v. me_data e = MStorage v \<and>
           pw_slot w a k = (case prev_entry (m (LStorageReset a)) t of Some (p, _) \<Rightarrow> if p \<le> q then v else 0 | None \<Rightarrow> v))
       | None \<Rightarrow> prev_entry (m (LStorageReset a)) t \<noteq> None \<longrightarrow> pw_slot w a k = 0" by (rule mv_viewD(4) [OF view])
    show "case prev_entry (m (LStorage a k)) (Suc t) of
         Some (q, e) \<Rightarrow> (\<exists>v. me_data e = MStorage v \<and>
           pw_slot ?w a k = (case prev_entry (m (LStorageReset a)) (Suc t) of Some (p, _) \<Rightarrow> if p \<le> q then v else 0 | None \<Rightarrow> v))
       | None \<Rightarrow> prev_entry (m (LStorageReset a)) (Suc t) \<noteq> None \<longrightarrow> pw_slot ?w a k = 0"
    proof (cases "m (LStorage a k) t")
      case (Some x)
      have "me_data x = MStorage (pw_slot ?w a k)" using one hit [OF Some] by simp
      moreover have "p \<le> t" if "prev_entry (m (LStorageReset a)) (Suc t) = Some (p, y)" for p y
        using prev_entry_SomeD [OF that] by simp
      ultimately show ?thesis using Some by (auto simp del: prev_entry.simps(2) simp: prev_entry_now split: option.split)
    next
      case None
      note slot = one [unfolded miss [OF None], simplified]
      show ?thesis
      proof (cases "m (LStorageReset a) t")
        case (Some y)
        have zero: "pw_slot ?w a k = 0" using slot hit [OF Some] by simp
        have "\<not> t \<le> q" if "prev_entry (m (LStorage a k)) t = Some (q, x)" for q x using prev_entry_SomeD [OF that] by simp
        then show ?thesis using None Some old zero by (auto split: option.splits)
      next
        case none: None
        have same: "prev_entry (m (LStorage a k)) (Suc t) = prev_entry (m (LStorage a k)) t"
          "prev_entry (m (LStorageReset a)) (Suc t) = prev_entry (m (LStorageReset a)) t" "pw_slot ?w a k = pw_slot w a k"
          using None none slot miss [OF none] by simp_all
        show ?thesis using old unfolding same .
      qed
    qed
  next
    obtain read where "resolve_before R b t = Some (Inr read)" "br_account read = pw_basic w ?ben" using mv_viewD(5) [OF view] by blast
    from resolve_before_Suc [OF this(1) hist] this(2)
    show "\<exists>read. resolve_before R b (Suc t) = Some (Inr read) \<and> br_account read = pw_basic ?w ?ben"
      using step_beneficiary [OF ok laws eff] by auto
  next
    fix a i
    assume i: "pw_basic ?w a = Some i"
    show "coded R cd i" by (rule step_coded [OF ok laws _ i]) (rule mv_viewD(6) [OF view])
  qed
qed

section \<open>A prefix of the block\<close>

text \<open>The transactions before \<open>t\<close> have published what they computed one after another.\<close>

definition chain ::
  "revm_ops \<Rightarrow> (b256 \<Rightarrow> bytecode) \<Rightarrow> tx_id \<Rightarrow> mv_memory \<Rightarrow> beneficiary \<Rightarrow> (nat \<Rightarrow> plain_world) \<Rightarrow> (nat \<Rightarrow> 'r speculative_result) \<Rightarrow> bool" where
  "chain R cd t m b ws sr \<longleftrightarrow>
    (\<forall>k<t. presents R cd k m b (ws k) (sr k) \<and> ws (Suc k) = world_apply R (rewarded_state R (ben_address b) (sr k) (ws k)) (ws k))"

definition start_ok :: "revm_ops \<Rightarrow> (b256 \<Rightarrow> bytecode) \<Rightarrow> beneficiary \<Rightarrow> plain_world \<Rightarrow> bool" where
  "start_ok R cd b w \<longleftrightarrow> block_anchor (ben_history b) = pw_basic w (ben_address b) \<and> (\<forall>a i. pw_basic w a = Some i \<longrightarrow> coded R cd i)"

lemma chain_view:
  assumes laws: "revm_laws R" and chain: "chain R cd t m b ws sr" and start: "start_ok R cd b (ws 0)"
  shows "mv_view R cd t m b (ws t)"
  using chain
proof (induction t)
  case 0
  have "resolve_before R b 0 = Some (Inr \<lparr>br_account = block_anchor (ben_history b), br_version = BeneficiaryReadVersion []\<rparr>)"
    by (simp add: resolve_before_def history_resolve_before_def scan_before_def scan_resolve_def)
  then show ?case using start by (auto simp: mv_view_def start_ok_def)
next
  case (Suc t)
  then have "mv_view R cd t m b (ws t)" "presents R cd t m b (ws t) (sr t)"
    "ws (Suc t) = world_apply R (rewarded_state R (ben_address b) (sr t) (ws t)) (ws t)"
    by (simp_all add: chain_def)
  then show ?case using mv_view_step [OF laws] by simp
qed

lemma presents_step:
  assumes laws: "revm_laws R" and pres: "presents R cd k m b w sr" and w': "w' = world_apply R (rewarded_state R (ben_address b) sr w) w"
  shows "a \<noteq> ben_address b \<Longrightarrow> m (LBasic a) k = None \<Longrightarrow> canon_opt R cd (pw_basic w' a) = canon_opt R cd (pw_basic w a)"
    and "m (LStorageReset a) k = None \<Longrightarrow> m (LStorage a x) k = None \<Longrightarrow> pw_slot w' a x = pw_slot w a x"
    and "m (LCode a) k = None \<Longrightarrow> pw_basic w' a = Some i \<Longrightarrow> \<not> is_empty_code_hash R i \<Longrightarrow>
      \<exists>j. pw_basic w a = Some j \<and> info_code_hash j = info_code_hash i"
proof -
  obtain ss where snaps: "snap_ok R w ss" and data: "\<And>l. map_option me_data (m l k) = state_data R b ss (sr_state sr) l"
    and ok: "output_ok R cd (ben_address b) w sr"
    using pres by (auto simp: presents_def)
  have miss: "state_data R b ss (sr_state sr) l = None" if "m l k = None" for l using data [of l] that by simp
  show "canon_opt R cd (pw_basic w' a) = canon_opt R cd (pw_basic w a)" if "a \<noteq> ben_address b" "m (LBasic a) k = None"
    using step_basic [OF ok laws snaps that(1) refl] miss [OF that(2)] by (simp add: w')
  show "pw_slot w' a x = pw_slot w a x" if "m (LStorageReset a) k = None" "m (LStorage a x) k = None"
    using step_slot(2) [OF ok laws, where b = b and ss = ss and a = a and k = x] miss [OF that(1)] miss [OF that(2)] by (simp add: w')
  show "\<exists>j. pw_basic w a = Some j \<and> info_code_hash j = info_code_hash i"
    if "m (LCode a) k = None" "pw_basic w' a = Some i" "\<not> is_empty_code_hash R i"
    using step_code [OF ok laws snaps that(2) [unfolded w'] that(3), of b] miss [OF that(1)] by simp
qed

lemma chain_unwritten:
  assumes laws: "revm_laws R" and chain: "chain R cd t m b ws sr" and c: "c \<le> t"
  shows "a \<noteq> ben_address b \<Longrightarrow> prev_entry (m (LBasic a)) t = None \<Longrightarrow> canon_opt R cd (pw_basic (ws t) a) = canon_opt R cd (pw_basic (ws c) a)"
    and "prev_entry (m (LStorageReset a)) t = None \<Longrightarrow> prev_entry (m (LStorage a x)) t = None \<Longrightarrow> pw_slot (ws t) a x = pw_slot (ws c) a x"
    and "prev_entry (m (LCode a)) t = None \<Longrightarrow> pw_basic (ws t) a = Some i \<Longrightarrow> \<not> is_empty_code_hash R i \<Longrightarrow>
      \<exists>j. pw_basic (ws c) a = Some j \<and> info_code_hash j = info_code_hash i"
proof -
  have "(a \<noteq> ben_address b \<and> (\<forall>j<t. m (LBasic a) j = None) \<longrightarrow> canon_opt R cd (pw_basic (ws t) a) = canon_opt R cd (pw_basic (ws c) a)) \<and>
    ((\<forall>j<t. m (LStorageReset a) j = None) \<and> (\<forall>j<t. m (LStorage a x) j = None) \<longrightarrow> pw_slot (ws t) a x = pw_slot (ws c) a x) \<and>
    (\<forall>i. (\<forall>j<t. m (LCode a) j = None) \<and> pw_basic (ws t) a = Some i \<and> \<not> is_empty_code_hash R i \<longrightarrow>
      (\<exists>j. pw_basic (ws c) a = Some j \<and> info_code_hash j = info_code_hash i))"
    using c chain
  proof (induction t rule: dec_induct)
    case base
    then show ?case by auto
  next
    case (step t)
    then have "chain R cd t m b ws sr" by (simp add: chain_def)
    note IH = step.IH [OF this]
    have pres: "presents R cd t m b (ws t) (sr t)" "ws (Suc t) = world_apply R (rewarded_state R (ben_address b) (sr t) (ws t)) (ws t)"
      using step.prems by (simp_all add: chain_def)
    note one = presents_step [OF laws pres]
    show ?case
    proof (intro conjI allI impI)
      assume "a \<noteq> ben_address b \<and> (\<forall>j<Suc t. m (LBasic a) j = None)"
      then show "canon_opt R cd (pw_basic (ws (Suc t)) a) = canon_opt R cd (pw_basic (ws c) a)"
        using IH one(1) [of a] by simp
    next
      assume "(\<forall>j<Suc t. m (LStorageReset a) j = None) \<and> (\<forall>j<Suc t. m (LStorage a x) j = None)"
      then show "pw_slot (ws (Suc t)) a x = pw_slot (ws c) a x" using IH one(2) [of a x] by simp
    next
      fix i
      assume i: "(\<forall>j<Suc t. m (LCode a) j = None) \<and> pw_basic (ws (Suc t)) a = Some i \<and> \<not> is_empty_code_hash R i"
      then obtain j where j: "pw_basic (ws t) a = Some j" "info_code_hash j = info_code_hash i" using one(3) [of a i] by auto
      then show "\<exists>j. pw_basic (ws c) a = Some j \<and> info_code_hash j = info_code_hash i"
        using IH i empty_hash_cong [OF laws j(2)] by auto
    qed
  qed
  then show "a \<noteq> ben_address b \<Longrightarrow> prev_entry (m (LBasic a)) t = None \<Longrightarrow> canon_opt R cd (pw_basic (ws t) a) = canon_opt R cd (pw_basic (ws c) a)"
    "prev_entry (m (LStorageReset a)) t = None \<Longrightarrow> prev_entry (m (LStorage a x)) t = None \<Longrightarrow> pw_slot (ws t) a x = pw_slot (ws c) a x"
    "prev_entry (m (LCode a)) t = None \<Longrightarrow> pw_basic (ws t) a = Some i \<Longrightarrow> \<not> is_empty_code_hash R i \<Longrightarrow>
      \<exists>j. pw_basic (ws c) a = Some j \<and> info_code_hash j = info_code_hash i"
    by (simp_all add: prev_entry_None_iff)
qed

text \<open>A database that presents an earlier world and knows the code of the accounts of the first one.\<close>

definition db_presents ::
  "revm_ops \<Rightarrow> (b256 \<Rightarrow> bytecode) \<Rightarrow> (u64 \<Rightarrow> b256) \<Rightarrow> plain_world \<Rightarrow> plain_world \<Rightarrow> 'e database_ref \<Rightarrow> bool" where
  "db_presents R cd bh w0 w d \<longleftrightarrow> (\<forall>a. basic_ref d a = Inr (pw_basic w a)) \<and> (\<forall>a k. storage_ref d a k = Inr (pw_slot w a k)) \<and>
    (\<forall>n. block_hash_ref d n = Inr (bh n)) \<and>
    (\<forall>a i. pw_basic w0 a = Some i \<and> \<not> is_empty_code_hash R i \<longrightarrow> code_by_hash_ref d (info_code_hash i) = Inr (cd (info_code_hash i)))"

lemma chain_db_view:
  assumes laws: "revm_laws R" and chain: "chain R cd t m b ws sr" and start: "start_ok R cd b (ws 0)" and c: "c \<le> t"
    and d: "db_presents R cd bh (ws 0) (ws c) d"
  shows "db_view R cd bh t m b (ws t) d"
proof -
  have chain_c: "chain R cd c m b ws sr" using chain c by (simp add: chain_def)
  have view: "mv_view R cd c m b (ws c)" by (rule chain_view [OF laws chain_c start])
  note un = chain_unwritten [OF laws chain c] and un0 = chain_unwritten [OF laws chain, of 0]
  have basic: "\<exists>x. basic_ref d a = Inr x \<and> canon_opt R cd x = canon_opt R cd (pw_basic (ws t) a) \<and> (\<forall>i. x = Some i \<longrightarrow> coded R cd i)"
    if "\<not> beneficiary_matches b a" "prev_entry (m (LBasic a)) t = None" for a
    using un(1) [of a] that d mv_viewD(6) [OF view, of a] by (auto simp: db_presents_def beneficiary_matches_def)
  have slot: "storage_ref d a k = Inr (pw_slot (ws t) a k)"
    if "prev_entry (m (LStorageReset a)) t = None" "prev_entry (m (LStorage a k)) t = None" for a k
    using un(2) [OF that] d by (simp add: db_presents_def)
  have code: "code_by_hash_ref d (info_code_hash i) = Inr (cd (info_code_hash i))"
    if i: "pw_basic (ws t) a = Some i" "\<not> is_empty_code_hash R i" "prev_entry (m (LCode a)) t = None" for a i
  proof -
    obtain j where j: "pw_basic (ws 0) a = Some j" "info_code_hash j = info_code_hash i" using un0(3) [OF _ i(3,1,2)] by auto
    then have "code_by_hash_ref d (info_code_hash j) = Inr (cd (info_code_hash j))"
      using d i(2) empty_hash_cong [OF laws j(2)] unfolding db_presents_def by blast
    then show ?thesis using j(2) by simp
  qed
  have "\<forall>n. block_hash_ref d n = Inr (bh n)" using d by (simp add: db_presents_def)
  then show ?thesis using basic slot code unfolding db_view_def by blast
qed

end
