(* ===== verification/Committed_World.thy ===== *)
theory Committed_World
  imports Serial_World
begin

text \<open>
  The committed state as the database the incarnations read: it presents the plain world of the
  committed prefix, knows the code of every account of the block's start, and a commit that returns
  moves it to the next plain world.
\<close>

section \<open>The state seen by readers\<close>

definition state_view :: "revm_ops \<Rightarrow> status_ops \<Rightarrow> ('e, 't, 'b) parallel_state \<Rightarrow> 'e database_ref" where
  "state_view R A ps =
    \<lparr>basic_ref = view_basic R ps, code_by_hash_ref = view_code ps, storage_ref = (\<lambda>a k. view_slot A ps (a, k)),
     block_hash_ref = view_block_hash ps\<rparr>"

definition committed_ok ::
  "revm_ops \<Rightarrow> status_ops \<Rightarrow> (b256 \<Rightarrow> bytecode) \<Rightarrow> (u64 \<Rightarrow> b256) \<Rightarrow> plain_world \<Rightarrow> ('e, 't, 'b) ordered_committer \<Rightarrow> plain_world \<Rightarrow> bool" where
  "committed_ok R A cd bh w0 oc w \<longleftrightarrow> committer_ok R A oc w \<and>
    (\<forall>a i. pw_basic w0 a = Some i \<and> \<not> is_empty_code_hash R i \<longrightarrow> view_code (oc_state oc) (info_code_hash i) = Inr (cd (info_code_hash i))) \<and>
    (\<forall>n. view_block_hash (oc_state oc) n = Inr (bh n))"

lemma committed_presents: "committed_ok R A cd bh w0 oc w \<Longrightarrow> db_presents R cd bh w0 w (state_view R A (oc_state oc))"
  by (auto simp: committed_ok_def committer_ok_def represents_def db_presents_def state_view_def)

section \<open>Loads\<close>

text \<open>The four reads a worker may perform, each with its effect on the caches.\<close>

inductive state_load :: "revm_ops \<Rightarrow> status_ops \<Rightarrow> ('e, 't, 'b) parallel_state \<Rightarrow> ('e, 't, 'b) parallel_state \<Rightarrow> bool" for R A ps where
  load_account: "state_load R A ps (snd (db_basic R a ps))"
| load_slot: "state_load R A ps (snd (db_storage A a k ps))"
| load_code: "state_load R A ps (snd (db_code_by_hash h ps))"
| load_hash: "state_load R A ps (snd (db_block_hash n ps))"

lemma db_basic_other_views:
  "view_code (snd (db_basic R a ps)) = view_code ps" "view_block_hash (snd (db_basic R a ps)) = view_block_hash ps"
  by (auto simp: db_basic_def view_code_def view_block_hash_def account_entry_def put_account_def fun_eq_iff split: option.splits sum.splits)

lemma committed_load_basic:
  assumes "committed_ok R A cd bh w0 oc w"
  shows "committed_ok R A cd bh w0 (oc\<lparr>oc_state := snd (db_basic R a (oc_state oc))\<rparr>) w"
proof -
  have "committer_ok R A oc w" using assms by (simp add: committed_ok_def)
  then obtain ps where "db_basic R a (oc_state oc) = (Inr (pw_basic w a), ps)" "committer_ok R A (oc\<lparr>oc_state := ps\<rparr>) w"
    by (rule committer_load)
  then show ?thesis using assms db_basic_other_views [of R a "oc_state oc"] by (auto simp: committed_ok_def)
qed

lemma db_storage_frame:
  "ps_accounts (snd (db_storage A a k ps)) = ps_accounts ps" "ps_database (snd (db_storage A a k ps)) = ps_database ps"
  "view_code (snd (db_storage A a k ps)) = view_code ps" "view_block_hash (snd (db_storage A a k ps)) = view_block_hash ps"
  by (auto simp: db_storage_def slot_entry_def update_storage_slot_def view_code_def view_block_hash_def Let_def fun_eq_iff
      split: option.splits sum.splits)

lemma db_code_frame:
  "ps_accounts (snd (db_code_by_hash h ps)) = ps_accounts ps" "ps_database (snd (db_code_by_hash h ps)) = ps_database ps"
  "cs_storage (ps_cache (snd (db_code_by_hash h ps))) = cs_storage (ps_cache ps)"
  "view_block_hash (snd (db_code_by_hash h ps)) = view_block_hash ps"
  by (auto simp: db_code_by_hash_def code_entry_def view_block_hash_def fun_eq_iff split: option.splits sum.splits)

lemma db_block_hash_frame:
  "ps_cache (snd (db_block_hash n ps)) = ps_cache ps" "ps_database (snd (db_block_hash n ps)) = ps_database ps"
  by (auto simp: db_block_hash_def split: option.splits sum.splits)

lemma view_basic_frame:
  "ps_accounts ps' = ps_accounts ps \<Longrightarrow> ps_database ps' = ps_database ps \<Longrightarrow> view_basic R ps' = view_basic R ps"
  by (rule ext) (simp add: view_basic_def split: option.split)

lemma view_slot_frame:
  "ps_accounts ps' = ps_accounts ps \<Longrightarrow> cs_storage (ps_cache ps') = cs_storage (ps_cache ps) \<Longrightarrow> ps_database ps' = ps_database ps \<Longrightarrow>
    view_slot A ps' = view_slot A ps"
  by (rule ext) (simp add: view_slot_def cached_slot_def fetch_slot_def storage_known_def split: option.split)

lemma committed_load:
  assumes "state_load R A (oc_state oc) ps" and ok: "committed_ok R A cd bh w0 oc w"
  shows "committed_ok R A cd bh w0 (oc\<lparr>oc_state := ps\<rparr>) w"
  using assms(1)
proof cases
  case (load_account a)
  then show ?thesis using committed_load_basic [OF ok] by simp
next
  case (load_slot a k)
  note f = db_storage_frame [of A a k "oc_state oc"]
  have "view_basic R ps = view_basic R (oc_state oc)" using view_basic_frame [OF f(1,2)] load_slot by simp
  moreover have "view_slot A ps = view_slot A (oc_state oc)" using db_storage_view load_slot by simp
  ultimately show ?thesis using ok f load_slot by (auto simp: committed_ok_def committer_ok_def represents_def cache_ok_def)
next
  case (load_code h)
  note f = db_code_frame [of h "oc_state oc"]
  have "view_basic R ps = view_basic R (oc_state oc)" using view_basic_frame [OF f(1,2)] load_code by simp
  moreover have "view_slot A ps = view_slot A (oc_state oc)" using view_slot_frame [OF f(1,3,2)] load_code by simp
  moreover have "view_code ps = view_code (oc_state oc)" using db_code_by_hash_view load_code by simp
  ultimately show ?thesis using ok f load_code by (auto simp: committed_ok_def committer_ok_def represents_def cache_ok_def)
next
  case (load_hash n)
  note f = db_block_hash_frame [of n "oc_state oc"]
  have "view_basic R ps = view_basic R (oc_state oc)" "view_slot A ps = view_slot A (oc_state oc)"
    "view_code ps = view_code (oc_state oc)"
    using view_basic_frame [of ps "oc_state oc" R] view_slot_frame [of ps "oc_state oc" A] f load_hash
    by (simp_all add: view_code_def fun_eq_iff split: option.split)
  moreover have "view_block_hash ps = view_block_hash (oc_state oc)" using db_block_hash_view load_hash by simp
  ultimately show ?thesis using ok f load_hash by (auto simp: committed_ok_def committer_ok_def represents_def cache_ok_def)
qed

section \<open>A commit that returns\<close>

lemma apply_account_frame:
  assumes "apply_account_state R A a acc cs = Some (t, cs')"
  shows "is_touched acc \<longrightarrow> a \<in> dom (cs_accounts cs)" and "dom (cs_accounts cs') = dom (cs_accounts cs)"
    and "cs_contracts cs' h = cs_contracts cs h \<or> cs_contracts cs h = None \<and> is_touched acc \<and> \<not> is_selfdestructed acc \<and> is_created acc \<and>
      h = info_code_hash (acct_info acc) \<and> cs_contracts cs' h = info_code (acct_info acc)"
proof -
  have upd: "cs_accounts (update_changed_slots a xs c) = cs_accounts c" "cs_contracts (update_changed_slots a xs c) = cs_contracts c" for xs c
    by (simp_all add: update_changed_slots_def update_storage_slot_def)
  have "(is_touched acc \<longrightarrow> a \<in> dom (cs_accounts cs)) \<and> dom (cs_accounts cs') = dom (cs_accounts cs) \<and>
    (cs_contracts cs' h = cs_contracts cs h \<or> cs_contracts cs h = None \<and> is_touched acc \<and> \<not> is_selfdestructed acc \<and> is_created acc \<and>
      h = info_code_hash (acct_info acc) \<and> cs_contracts cs' h = info_code (acct_info acc))"
  proof (cases "is_touched acc \<and> \<not> is_selfdestructed acc \<and> is_created acc")
    case True
    let ?changed = "filter (\<lambda>(_, s). slot_is_changed R s) (acct_storage acc)"
    obtain c where c: "cs_accounts cs a = Some c"
      using assms True by (auto simp: apply_account_state_def get_account_mut_def remove_storage_def Let_def bind_eq_Some_conv)
    obtain t1 slots c' where new: "newly_created A (acct_info acc) ?changed c = ((t1, slots), c')" by (metis surj_pair)
    obtain cs2 where ins: "insert_contract (acct_info acc) (put_account a c' (remove_storage a cs)) = Some cs2"
      and cs': "cs' = update_changed_slots a slots cs2"
      using assms True c new by (auto simp: apply_account_state_def get_account_mut_def remove_storage_def Let_def bind_eq_Some_conv)
    have "cs_contracts cs2 h = cs_contracts cs h \<or>
        cs_contracts cs h = None \<and> h = info_code_hash (acct_info acc) \<and> cs_contracts cs2 h = info_code (acct_info acc)"
      using ins by (cases "h = info_code_hash (acct_info acc)")
        (auto simp: insert_contract_def put_account_def remove_storage_def bind_eq_Some_conv split: option.splits)
    then show ?thesis using True c cs' insert_contract_frame(1) [OF ins] by (auto simp: upd put_account_def remove_storage_def)
  next
    case False
    consider "\<not> is_touched acc" | "is_touched acc" "is_selfdestructed acc"
      | "is_touched acc" "\<not> is_selfdestructed acc" "\<not> is_created acc" "is_empty_info R (acct_info acc)"
      | "is_touched acc" "\<not> is_selfdestructed acc" "\<not> is_created acc" "\<not> is_empty_info R (acct_info acc)"
      using False by blast
    then show ?thesis
    proof cases
      case 4
      let ?changed = "filter (\<lambda>(_, s). slot_is_changed R s) (acct_storage acc)"
      obtain c where c: "cs_accounts cs a = Some c"
        using assms 4 by (auto simp: apply_account_state_def get_account_mut_def Let_def bind_eq_Some_conv)
      obtain t1 slots c' where "change_account A (acct_info acc) ?changed c = ((t1, slots), c')" by (metis surj_pair)
      then have "cs' = update_changed_slots a slots (put_account a c' cs)"
        using assms 4 c by (simp add: apply_account_state_def get_account_mut_def Let_def)
      then show ?thesis using c by (auto simp: upd put_account_def)
    qed (use assms in \<open>auto simp: apply_account_state_def get_account_mut_def put_account_def remove_storage_def Let_def
        case_prod_beta bind_eq_Some_conv split: if_splits\<close>)
  qed
  then show "is_touched acc \<longrightarrow> a \<in> dom (cs_accounts cs)" "dom (cs_accounts cs') = dom (cs_accounts cs)"
    "cs_contracts cs' h = cs_contracts cs h \<or> cs_contracts cs h = None \<and> is_touched acc \<and> \<not> is_selfdestructed acc \<and> is_created acc \<and>
      h = info_code_hash (acct_info acc) \<and> cs_contracts cs' h = info_code (acct_info acc)"
    by blast+
qed

lemma apply_evm_state_frame:
  assumes "apply_evm_state R A st cs = Some (ts, cs')"
  shows "(\<forall>(a, acc)\<in>set st. is_touched acc \<longrightarrow> a \<in> dom (cs_accounts cs)) \<and>
    (cs_contracts cs' h = cs_contracts cs h \<or> cs_contracts cs h = None \<and>
      (\<exists>(a, acc)\<in>set st. finalized_account_from R acc = Created (acct_info acc) \<and> h = info_code_hash (acct_info acc) \<and>
        cs_contracts cs' h = info_code (acct_info acc)))"
  using assms
proof (induction st arbitrary: cs ts)
  case (Cons x st)
  obtain a acc where x: "x = (a, acc)" by (cases x)
  obtain t cs1 ts1 where one: "apply_account_state R A a acc cs = Some (t, cs1)" and rest: "apply_evm_state R A st cs1 = Some (ts1, cs')"
    using Cons.prems by (auto simp: x bind_eq_Some_conv)
  note f = apply_account_frame(1,2) [OF one] apply_account_frame(3) [OF one, of h] and IH = Cons.IH [OF rest]
  have cached: "\<forall>(a, acc)\<in>set (x # st). is_touched acc \<longrightarrow> a \<in> dom (cs_accounts cs)" using IH f(1,2) by (auto simp: x)
  have created: "is_touched acc \<and> \<not> is_selfdestructed acc \<and> is_created acc \<Longrightarrow> finalized_account_from R acc = Created (acct_info acc)"
    by (simp add: finalized_account_from_def)
  show ?case using IH f(3) created cached by (force simp: x)
qed simp

text \<open>The state of the committed world after a commit that did not panic.\<close>

lemma commit_state_returns:
  assumes ok: "committed_ok R A cd bh w0 oc w" and com: "commit_state R A add r st out oc = Some (outcome, out1, oc1)"
    and ready: "\<forall>(a, acc)\<in>set st. account_ready acc" and laws: "revm_laws R"
    and code: "\<forall>(a, acc)\<in>set st. finalized_account_from R acc = Created (acct_info acc) \<and> \<not> is_empty_code_hash R (acct_info acc) \<longrightarrow>
      info_code (acct_info acc) = Some (cd (info_code_hash (acct_info acc)))"
  shows "outcome = Inr (Committed (Suc (length out))) \<and> out1 = out @ [OExecuted r] \<and> committed_ok R A cd bh w0 oc1 (world_apply R st w) \<and>
    oc_beneficiary oc1 = oc_beneficiary oc \<and> disable_nonce_check oc1 = disable_nonce_check oc"
proof -
  obtain ts cs where ap: "apply_evm_state R A st (ps_cache (oc_state oc)) = Some (ts, cs)"
    and oc1: "oc1 = oc\<lparr>oc_state := apply_transition add ts ((oc_state oc)\<lparr>ps_cache := cs\<rparr>)\<rparr>"
    using com by (auto simp: commit_state_def ps_commit_def output_push_def Let_def bind_eq_Some_conv)
  note f = apply_evm_state_frame [OF ap]
  have "committer_ok R A oc w" using ok by (simp add: committed_ok_def)
  then have com': "outcome = Inr (Committed (Suc (length out))) \<and> out1 = out @ [OExecuted r] \<and> committer_ok R A oc1 (world_apply R st w) \<and>
      oc_beneficiary oc1 = oc_beneficiary oc \<and> disable_nonce_check oc1 = disable_nonce_check oc"
    using commit_state_refines [OF _ conjunct1 [OF f] ready, of R A w add r out] com by auto
  have "view_code (oc_state oc1) (info_code_hash i) = Inr (cd (info_code_hash i))"
    if i: "pw_basic w0 a = Some i" "\<not> is_empty_code_hash R i" for a i
  proof -
    let ?h = "info_code_hash i"
    have old: "view_code (oc_state oc) ?h = Inr (cd ?h)" using ok i unfolding committed_ok_def by blast
    from f [of ?h] consider "cs_contracts cs ?h = cs_contracts (ps_cache (oc_state oc)) ?h"
      | c acc where "(c, acc) \<in> set st" "finalized_account_from R acc = Created (acct_info acc)" "?h = info_code_hash (acct_info acc)"
        "cs_contracts cs ?h = info_code (acct_info acc)"
      by blast
    then show ?thesis
    proof cases
      case 1
      then show ?thesis using old by (simp add: oc1 apply_transition_def view_code_def split: option.splits)
    next
      case 2
      have "\<not> is_empty_code_hash R (acct_info acc)" using i(2) empty_hash_cong [OF laws 2(3)] by simp
      then have "info_code (acct_info acc) = Some (cd ?h)" using code 2 by auto
      then show ?thesis using 2(4) by (simp add: oc1 apply_transition_def view_code_def)
    qed
  qed
  moreover have "view_block_hash (oc_state oc1) n = view_block_hash (oc_state oc) n" for n
    by (simp add: oc1 apply_transition_def view_block_hash_def split: option.split)
  ultimately show ?thesis using com' ok by (auto simp: committed_ok_def)
qed

text \<open>An output that satisfies its contract is ready, and so is the rewarded state.\<close>

lemma output_ok_ready:
  assumes ok: "output_ok R cd ben w sr" and laws: "revm_laws R"
  shows "\<forall>(a, acc)\<in>set (rewarded_state R ben sr w). account_ready acc"
    and "\<forall>(a, acc)\<in>set (rewarded_state R ben sr w). finalized_account_from R acc = Created (acct_info acc) \<and> \<not> is_empty_code_hash R (acct_info acc) \<longrightarrow>
      info_code (acct_info acc) = Some (cd (info_code_hash (acct_info acc)))"
proof -
  have own: "account_ready acc \<and> (finalized_account_from R acc = Created (acct_info acc) \<and> \<not> is_empty_code_hash R (acct_info acc) \<longrightarrow>
      info_code (acct_info acc) = Some (cd (info_code_hash (acct_info acc))))" if "(a, acc) \<in> set (sr_state sr)" for a acc
  proof -
    have "map_of (sr_state sr) a = Some acc" using that output_okD(1) [OF ok] by (rule map_of_is_SomeI [rotated])
    then show ?thesis using output_okD(2) [OF ok] output_ok_live(1) [OF ok] by blast
  qed
  have rew: "account_ready (touched_account i) \<and> finalized_account_from R (touched_account i) \<noteq> Created j" for i j
    using touched_account_ready [of i] by (simp add: finalized_account_from_def touched_account_def)
  show "\<forall>(a, acc)\<in>set (rewarded_state R ben sr w). account_ready acc"
    "\<forall>(a, acc)\<in>set (rewarded_state R ben sr w). finalized_account_from R acc = Created (acct_info acc) \<and> \<not> is_empty_code_hash R (acct_info acc) \<longrightarrow>
      info_code (acct_info acc) = Some (cd (info_code_hash (acct_info acc)))"
    using own rew unfolding rewarded_state_def by (auto split: option.splits)
qed

lemma committed_state_load:
  assumes "committed_ok R A cd bh w0 oc w"
  obtains ps where "db_basic R a (oc_state oc) = (Inr (pw_basic w a), ps)" and "committed_ok R A cd bh w0 (oc\<lparr>oc_state := ps\<rparr>) w"
proof -
  have "fst (db_basic R a (oc_state oc)) = Inr (pw_basic w a)"
    using assms by (simp add: db_basic_value committed_ok_def committer_ok_def represents_def)
  then show thesis using that committed_load_basic [OF assms, of a] by (metis prod.collapse)
qed

lemma oc_commit_returns:
  assumes ok: "committed_ok R A cd bh w0 oc w" and out: "output_ok R cd (oc_beneficiary oc) w sr" and laws: "revm_laws R"
    and com: "oc_commit R A add i tx sr outs oc = Some (outcome, outs1, oc1)"
  shows "oc_beneficiary oc1 = oc_beneficiary oc \<and> disable_nonce_check oc1 = disable_nonce_check oc \<and>
    (if world_nonce_ok (disable_nonce_check oc) tx w
     then outcome = Inr (Committed (Suc (length outs))) \<and> outs1 = outs @ [OExecuted (sr_result sr)] \<and>
       committed_ok R A cd bh w0 oc1 (world_apply R (rewarded_state R (oc_beneficiary oc) sr w) w)
     else outcome = Inr NeedsSequentialFallback \<and> outs1 = outs \<and> committed_ok R A cd bh w0 oc1 w)"
proof -
  have reward: "outcome = Inr (Committed (Suc (length outs))) \<and> outs1 = outs @ [OExecuted (sr_result sr)] \<and>
      committed_ok R A cd bh w0 oc1 (world_apply R (rewarded_state R (oc_beneficiary oc) sr w) w) \<and>
      oc_beneficiary oc1 = oc_beneficiary oc \<and> disable_nonce_check oc1 = disable_nonce_check oc"
    if run: "commit_reward R A add i (sr_result sr) (sr_state sr) (deferred_reward sr) outs oc2 = Some (outcome, outs1, oc1)"
      and ok2: "committed_ok R A cd bh w0 oc2 w" "oc_beneficiary oc2 = oc_beneficiary oc" "disable_nonce_check oc2 = disable_nonce_check oc" for oc2
  proof -
    note ready = output_ok_ready [OF out laws]
    show ?thesis
    proof (cases "deferred_reward sr")
      case None
      then have "commit_state R A add (sr_result sr) (rewarded_state R (oc_beneficiary oc) sr w) outs oc2 = Some (outcome, outs1, oc1)"
        using run by (simp add: commit_reward_def rewarded_state_def)
      from commit_state_returns [OF ok2(1) this ready(1) laws ready(2)] show ?thesis using ok2 by simp
    next
      case (Some rw)
      obtain ps where ps: "db_basic R (oc_beneficiary oc2) (oc_state oc2) = (Inr (pw_basic w (oc_beneficiary oc2)), ps)"
        "committed_ok R A cd bh w0 (oc2\<lparr>oc_state := ps\<rparr>) w" by (rule committed_state_load [OF ok2(1)])
      have "commit_state R A add (sr_result sr) (rewarded_state R (oc_beneficiary oc) sr w) outs (oc2\<lparr>oc_state := ps\<rparr>) = Some (outcome, outs1, oc1)"
        using run Some ps(1) ok2(2) by (simp add: commit_reward_def rewarded_state_def split: if_splits)
      from commit_state_returns [OF ps(2) this ready(1) laws ready(2)] show ?thesis using ok2 by simp
    qed
  qed
  show ?thesis
  proof (cases "disable_nonce_check oc")
    case True
    then show ?thesis using com reward [of oc] ok by (simp add: oc_commit_def into_commit_parts_def world_nonce_ok_def)
  next
    case False
    obtain ps where ps: "db_basic R (caller tx) (oc_state oc) = (Inr (pw_basic w (caller tx)), ps)"
      "committed_ok R A cd bh w0 (oc\<lparr>oc_state := ps\<rparr>) w" by (rule committed_state_load [OF ok])
    then show ?thesis using com False reward [of "oc\<lparr>oc_state := ps\<rparr>"]
      by (auto simp: oc_commit_def into_commit_parts_def world_nonce_ok_def nonce_rejects_iff split: if_splits)
  qed
qed

section \<open>The cache is transparent\<close>

text \<open>Loads of any kind leave every presented value alone.\<close>

lemma view_slot_basic:
  assumes "status_laws A" and "db_consistent R A (ps_database ps)"
  shows "view_slot A (snd (db_basic R a ps)) = view_slot A ps"
proof (cases "ps_accounts ps a")
  case (Some c)
  then show ?thesis by (simp add: db_basic_def)
next
  case None
  show ?thesis
  proof (cases "basic_ref (ps_database ps) a")
    case (Inl e)
    then show ?thesis using None by (simp add: db_basic_def)
  next
    case (Inr info)
    then show ?thesis using view_slot_load [OF assms None] None by (simp add: db_basic_def account_entry_new)
  qed
qed

lemma state_view_load:
  assumes "state_load R A ps ps'" and "status_laws A" and "db_consistent R A (ps_database ps)"
  shows "state_view R A ps' = state_view R A ps \<and> ps_database ps' = ps_database ps"
  using assms(1)
proof cases
  case (load_account a)
  have "ps_database (snd (db_basic R a ps)) = ps_database ps"
    by (simp add: db_basic_def account_entry_def split: option.split sum.split)
  then show ?thesis using load_account view_slot_basic [OF assms(2,3)] acc.get_view [of R a ps] db_basic_other_views [of R a ps]
    by (simp add: state_view_def)
next
  case (load_slot a k)
  note f = db_storage_frame [of A a k ps]
  show ?thesis using load_slot f view_basic_frame [OF f(1,2), of R] slt.get_view [of A "(a, k)" ps] by (simp add: state_view_def)
next
  case (load_code h)
  note f = db_code_frame [of h ps]
  show ?thesis using load_code f view_basic_frame [OF f(1,2), of R] view_slot_frame [OF f(1,3,2), of A] cod.get_view [of h ps]
    by (simp add: state_view_def)
next
  case (load_hash n)
  note f = db_block_hash_frame [of n ps]
  have "view_basic R ps' = view_basic R ps" "view_slot A ps' = view_slot A ps" "view_code ps' = view_code ps"
    using view_basic_frame [of ps' ps R] view_slot_frame [of ps' ps A] f load_hash
    by (simp_all add: view_code_def fun_eq_iff split: option.split)
  then show ?thesis using load_hash f bhs.get_view [of n ps] by (simp add: state_view_def)
qed

lemma state_view_loads:
  assumes "(state_load R A)\<^sup>*\<^sup>* ps ps'" and "status_laws A" and "db_consistent R A (ps_database ps)"
  shows "state_view R A ps' = state_view R A ps \<and> ps_database ps' = ps_database ps"
  using assms(1)
proof (induction rule: rtranclp_induct)
  case (step ps1 ps2)
  then show ?case using state_view_load [OF step(2) assms(2)] assms(3) by simp
qed simp

text \<open>What the cache makes of an account of the database: an empty one becomes the default account.\<close>

definition loaded_info :: "revm_ops \<Rightarrow> account_info option \<Rightarrow> account_info option" where
  "loaded_info R info = map_option (\<lambda>i. if is_empty_info R i then default_info R else i) info"

text \<open>\<^bold>\<open>C33\<close>. The caches are transparent: from a new state over a database in which absent and empty accounts,
  and accounts with neither code nor nonce, have no storage, after any sequence of reads of accounts,
  slots, contracts and block hashes in any order, each read returns what the database says, an error
  of the database included; an empty account reads as the default account.\<close>

theorem cached_reads_transparent:
  assumes "status_laws A" and "db_consistent R A db"
    and "(state_load R A)\<^sup>*\<^sup>* (parallel_state_new db with_bundle t0 b0) ps"
  shows "fst (db_basic R a ps) = map_sum id (loaded_info R) (basic_ref db a) \<and>
    fst (db_storage A a k ps) = storage_ref db a k \<and> fst (db_code_by_hash h ps) = code_by_hash_ref db h \<and>
    fst (db_block_hash n ps) = block_hash_ref db n"
proof -
  let ?ps = "parallel_state_new db with_bundle t0 b0"
  have view: "state_view R A ps = state_view R A ?ps"
    using state_view_loads [OF assms(3,1)] assms(2) by (simp add: parallel_state_new_def)
  have new: "view_basic R ?ps a = map_sum id (loaded_info R) (basic_ref db a)" "view_slot A ?ps (a, k) = storage_ref db a k"
    "view_code ?ps h = code_by_hash_ref db h" "view_block_hash ?ps n = block_hash_ref db n"
    by (cases "basic_ref db a"; auto simp: parallel_state_new_def cache_state_new_def view_defs cached_slot_def fetch_slot_def storage_known_def
        fetched_account_def loaded_account_def cache_account_new_def loaded_info_def split: option.split)+
  show ?thesis using view new acc.get_value [of R a ps] slt.get_value [of A "(a, k)" ps] cod.get_value [of h ps] bhs.get_value [of n ps]
    unfolding state_view_def database_ref.ext_inject by (simp add: fun_eq_iff)
qed

theorem cached_reads_transparent_witness:
  "fst (db_storage sample_status 7 0 (snd (db_basic sample_revm 3 (snd (db_storage sample_status 3 1 sample_ps))))) = Inr 5 \<and>
    fst (db_storage sample_status 3 1 (snd (db_basic sample_revm 3 (snd (db_storage sample_status 3 1 sample_ps))))) = Inr 0"
proof -
  let ?ps = "snd (db_basic sample_revm 3 (snd (db_storage sample_status 3 1 sample_ps)))"
  have "(state_load sample_revm sample_status)\<^sup>*\<^sup>* sample_ps ?ps"
    by (meson load_account load_slot rtranclp.rtrancl_refl rtranclp.rtrancl_into_rtrancl)
  then have "fst (db_storage sample_status a k ?ps) = storage_ref sample_state_db a k" for a k
    using cached_reads_transparent [OF sample_state(1) sample_state(2) [unfolded sample_ps_def], of True "()" "()" ?ps a k]
    by (simp add: sample_ps_def parallel_state_new_def)
  then show ?thesis by (simp add: sample_state_db_def)
qed

end
