(* ===== verification/Serializability.thy ===== *)
theory Serializability
  imports Stability Committed_World
begin

text \<open>
  Block execution is serializable. The machine is the scheduler's, with the executor of
  \<open>executor.rs\<close> and the committed state as its database: a worker's reads see the shared stores as they
  were at earlier moments, a different moment for each access, and its publication is one step.
  In every reachable state the committed output and the committed state are those of running the
  committed prefix one transaction after another on the block's starting state.
\<close>

section \<open>The block\<close>

record ('r, 'e) block_env =
  be_revm :: revm_ops
  be_status :: status_ops
  be_code :: "b256 \<Rightarrow> bytecode"
  be_hash :: "u64 \<Rightarrow> b256"
  be_prog :: "tx_id \<Rightarrow> tx_env \<Rightarrow> ('r, 'e) tx_program"
  be_txs :: "tx_env list"
  be_ben :: address
  be_start :: plain_world
  be_free_nonce :: bool

text \<open>The world before transaction \<open>t\<close>, and the transaction's result on it.\<close>

definition block_world :: "('r, 'e) block_env \<Rightarrow> nat \<Rightarrow> plain_world" where
  "block_world K = serial_before (be_revm K) (be_code K) (be_hash K) (be_ben K) (\<lambda>t. be_prog K t (be_txs K ! t)) (be_start K)"

definition block_result :: "('r, 'e) block_env \<Rightarrow> nat \<Rightarrow> 'e evm_error + 'r speculative_result" where
  "block_result K t = serial_result (be_revm K) (be_code K) (be_hash K) (be_prog K t (be_txs K ! t)) (block_world K t)"

lemma block_world_simps [simp]:
  "block_world K 0 = be_start K"
  "block_world K (Suc t) = serial_world (be_revm K) (be_ben K) (block_result K t) (block_world K t)"
  by (simp_all add: block_world_def block_result_def Let_def)

text \<open>What is relied on of revm and of the transactions.\<close>

definition env_ok :: "('r, 'e) block_env \<Rightarrow> bool" where
  "env_ok K \<longleftrightarrow> revm_laws (be_revm K) \<and> (\<forall>a i. pw_basic (be_start K) a = Some i \<longrightarrow> coded (be_revm K) (be_code K) i) \<and>
    (\<forall>t<length (be_txs K). code_blind (be_revm K) (be_prog K t (be_txs K ! t)) \<and>
      (\<forall>w sr. serial_result (be_revm K) (be_code K) (be_hash K) (be_prog K t (be_txs K ! t)) w = Inr sr \<longrightarrow>
         output_ok (be_revm K) (be_code K) (be_ben K) w sr))"

section \<open>The machine\<close>

definition world_now :: "('r, 'e) block_env \<Rightarrow> ('r, 'e) scheduler \<Rightarrow> ('e, 't, 'b) ordered_committer \<Rightarrow> 'e world" where
  "world_now K s oc = \<lparr>w_mv = s_memory s, w_ben = s_beneficiary s, w_db = state_view (be_revm K) (be_status K) (oc_state oc)\<rparr>"

text \<open>What one access of a worker can see: the memory of one earlier moment, the database of another,
  and each entry of the beneficiary history at a moment of its own.\<close>

definition seen :: "'e world set \<Rightarrow> 'e world \<Rightarrow> bool" where
  "seen P v \<longleftrightarrow> (\<exists>p\<in>P. w_mv v = w_mv p) \<and> (\<exists>p\<in>P. w_db v = w_db p) \<and>
    (\<exists>p\<in>P. ben_address (w_ben v) = ben_address (w_ben p) \<and> block_anchor (ben_history (w_ben v)) = block_anchor (ben_history (w_ben p)) \<and>
      length (entries (ben_history (w_ben v))) = length (entries (ben_history (w_ben p)))) \<and>
    (\<forall>i<length (entries (ben_history (w_ben v))). \<exists>p\<in>P. entries (ben_history (w_ben v)) ! i = entries (ben_history (w_ben p)) ! i)"

lemma seen_mono: "seen P v \<Longrightarrow> P \<subseteq> Q \<Longrightarrow> seen Q v"
  unfolding seen_def by blast

text \<open>The workers' executors: the incarnation reads what it can see, and no later read of it replaces the
  version an earlier read recorded.\<close>

definition block_executors :: "('r, 'e) block_env \<Rightarrow> 'e world set \<Rightarrow> ('r, 'e) executor set" where
  "block_executors K P = {executor. \<forall>v tx s ie m. executor v tx s = Some (ie, m) \<longrightarrow>
    (\<exists>W db db'. (\<forall>n. seen P (W n)) \<and> reads_kept (be_revm K) W (be_prog K (v_txid v) tx) (begin_incarnation v db) \<and>
      execute_incarnation (be_revm K) W (be_prog K) (s_beneficiary s) v tx db (s_memory s) = Some (ie, db', m))}"

inductive block_step ::
  "('r, 'e) block_env \<Rightarrow> ((address \<times> transition_account) list \<Rightarrow> 't \<Rightarrow> 't) \<Rightarrow>
    ('r, 'e, 't, 'b) sched_sys \<times> 'e world set \<Rightarrow> ('r, 'e, 't, 'b) sched_sys \<times> 'e world set \<Rightarrow> bool" for K add where
  threads: "Q = insert (world_now K (sys_sched y) (sys_oc y)) P \<Longrightarrow>
    sched_step (be_revm K) (be_status K) add (block_executors K Q) y y' \<Longrightarrow> block_step K add (y, P) (y', Q)"
| load: "Q = insert (world_now K (sys_sched y) (sys_oc y)) P \<Longrightarrow>
    state_load (be_revm K) (be_status K) (oc_state (sys_oc y)) ps \<Longrightarrow>
    block_step K add (y, P) (y\<lparr>sys_oc := (sys_oc y)\<lparr>oc_state := ps\<rparr>\<rparr>, Q)"

section \<open>The invariant\<close>

definition first_history :: "('r, 'e) block_env \<Rightarrow> beneficiary_history" where
  "first_history K = history_new (pw_basic (be_start K) (be_ben K)) (length (be_txs K))"

text \<open>A moment of the past: its versions still mean the same, its history has become the current one, and
  its database presents a committed prefix.\<close>

definition past_ok :: "('r, 'e) block_env \<Rightarrow> ('r, 'e) scheduler \<Rightarrow> nat \<Rightarrow> 'e world \<Rightarrow> bool" where
  "past_ok K s idx p \<longleftrightarrow>
    (\<forall>l u e. w_mv p l u = Some e \<longrightarrow> me_incarnation e \<le> published_incarnation s u \<and>
       (\<forall>e'. s_memory s l u = Some e' \<and> me_incarnation e' = me_incarnation e \<longrightarrow> me_data e' = me_data e)) \<and>
    ben_address (w_ben p) = be_ben K \<and> (history_step (be_revm K))\<^sup>*\<^sup>* (first_history K) (ben_history (w_ben p)) \<and>
    (history_step (be_revm K))\<^sup>*\<^sup>* (ben_history (w_ben p)) (ben_history (s_beneficiary s)) \<and>
    (\<exists>c\<le>idx. db_presents (be_revm K) (be_code K) (be_hash K) (be_start K) (block_world K c) (w_db p))"

lemma past_ok_entry:
  assumes "past_ok K s idx p" and "w_mv p l u = Some e"
  shows "me_incarnation e \<le> published_incarnation s u"
    and "s_memory s l u = Some e' \<Longrightarrow> me_incarnation e' = me_incarnation e \<Longrightarrow> me_data e' = me_data e"
  using assms unfolding past_ok_def by (elim conjE allE, blast)+

text \<open>The last incarnation of a settled transaction: \<open>dbF\<close> is its database adapter at the end, \<open>sr\<close> its
  result. Its entries are its publication.\<close>

definition reader :: "('r, 'e) block_env \<Rightarrow> 'e world set \<Rightarrow> tx_id \<Rightarrow> 'e world \<Rightarrow> bool" where
  "reader K P t v \<longleftrightarrow> seen P v \<and>
    (\<exists>c\<le>t. db_presents (be_revm K) (be_code K) (be_hash K) (be_start K) (block_world K c) (w_db v))"

definition exec_run ::
  "('r, 'e) block_env \<Rightarrow> 'e world set \<Rightarrow> tx_id \<Rightarrow> nat \<Rightarrow> incarnation_db \<Rightarrow> 'r speculative_result \<Rightarrow> bool" where
  "exec_run K P t inc dbF sr \<longleftrightarrow>
    (\<exists>W db out st. (\<forall>n. reader K P t (W n)) \<and>
       reads_kept (be_revm K) W (be_prog K t (be_txs K ! t)) (begin_incarnation (TxVersion t inc) db) \<and>
       run (be_revm K) W (be_prog K t (be_txs K ! t)) (begin_incarnation (TxVersion t inc) db) = Some (Inr (Inr (out, st)), dbF) \<and>
       sr = into_speculative out st \<and> idb_blocking_txs dbF = {})"

definition own_slots :: "('r, 'e) block_env \<Rightarrow> tx_id \<Rightarrow> ('r, 'e) scheduler \<Rightarrow> incarnation_db \<Rightarrow> 'r speculative_result \<Rightarrow> bool" where
  "own_slots K t s dbF sr \<longleftrightarrow>
    (\<forall>l. s_memory s l t = fst (publish_writes (be_revm K) (beneficiary_new (be_ben K) None 0) dbF (sr_state sr) False (\<lambda>_. Map.empty)) l t) \<and>
    (\<exists>e. es_value (entries (ben_history (s_beneficiary s)) ! t) = Exact e \<and>
       effect_from_execution (be_revm K) (deferred_reward sr) (map_of (sr_state sr) (be_ben K)) = Some e)"

definition exec_ok ::
  "('r, 'e) block_env \<Rightarrow> 'e world set \<Rightarrow> ('r, 'e) scheduler \<Rightarrow> usize \<Rightarrow> (location \<times> read_version) list \<Rightarrow>
    incarnation_db \<times> 'r speculative_result \<Rightarrow> tx_id \<Rightarrow> bool" where
  "exec_ok K P s taken rs x t \<longleftrightarrow> exec_run K P t (incarnation (tx_states s ! t)) (fst x) (snd x) \<and> rs = idb_read_set (fst x) \<and>
    own_slots K t s (fst x) (snd x) \<and> (taken \<le> t \<longrightarrow> (\<exists>r. tx_results s ! t = Some r \<and> execute_result r = Inr (snd x)))"

definition output_serial :: "('r, 'e) block_env \<Rightarrow> 'r ordered_commit_output \<Rightarrow> bool" where
  "output_serial K out \<longleftrightarrow> (\<forall>k<length out. \<exists>sr. block_result K k = Inr sr \<and> out ! k = OExecuted (sr_result sr) \<and>
     world_nonce_ok (be_free_nonce K) (be_txs K ! k) (block_world K k))"

definition core ::
  "('r, 'e) block_env \<Rightarrow> 'e world set \<Rightarrow> ('r, 'e) scheduler \<Rightarrow> ('e, 't, 'b) ordered_committer \<Rightarrow> usize \<Rightarrow> usize \<Rightarrow>
    (tx_id \<Rightarrow> (location \<times> read_version) list) \<Rightarrow> (tx_id \<Rightarrow> incarnation_db \<times> 'r speculative_result) \<Rightarrow> bool" where
  "core K P s oc taken idx g x \<longleftrightarrow> s_txs s = be_txs K \<and> ben_address (s_beneficiary s) = be_ben K \<and>
    stable_inv g s taken \<and> (\<forall>t<block_size s. \<not> unsettled (tx_states s ! t) \<longrightarrow> exec_ok K P s taken (g t) (x t) t) \<and>
    (\<forall>p\<in>insert (world_now K s oc) P. past_ok K s idx p) \<and>
    committed_ok (be_revm K) (be_status K) (be_code K) (be_hash K) (be_start K) oc (block_world K idx) \<and>
    oc_beneficiary oc = be_ben K \<and> disable_nonce_check oc = be_free_nonce K"

lemma coreD:
  assumes "core K P s oc taken idx g x"
  shows "s_txs s = be_txs K" "ben_address (s_beneficiary s) = be_ben K" "stable_inv g s taken"
    "t < block_size s \<Longrightarrow> \<not> unsettled (tx_states s ! t) \<Longrightarrow> exec_ok K P s taken (g t) (x t) t"
    "past_ok K s idx (world_now K s oc)" "p \<in> P \<Longrightarrow> past_ok K s idx p"
    "committed_ok (be_revm K) (be_status K) (be_code K) (be_hash K) (be_start K) oc (block_world K idx)"
    "oc_beneficiary oc = be_ben K" "disable_nonce_check oc = be_free_nonce K"
  using assms unfolding core_def by blast+

lemma coreI:
  assumes "s_txs s = be_txs K" "ben_address (s_beneficiary s) = be_ben K" "stable_inv g s taken"
    "\<And>t. t < block_size s \<Longrightarrow> \<not> unsettled (tx_states s ! t) \<Longrightarrow> exec_ok K P s taken (g t) (x t) t"
    "past_ok K s idx (world_now K s oc)" "\<And>p. p \<in> P \<Longrightarrow> past_ok K s idx p"
    "committed_ok (be_revm K) (be_status K) (be_code K) (be_hash K) (be_start K) oc (block_world K idx)"
    "oc_beneficiary oc = be_ben K" "disable_nonce_check oc = be_free_nonce K"
  shows "core K P s oc taken idx g x"
  using assms unfolding core_def by blast

lemma exec_run_mono:
  assumes "exec_run K P t inc dbF sr" and "P \<subseteq> Q"
  shows "exec_run K Q t inc dbF sr"
proof -
  have "reader K P t v \<Longrightarrow> reader K Q t v" for v
    using seen_mono [OF _ assms(2)] by (auto simp: reader_def)
  then show ?thesis using assms(1) unfolding exec_run_def by blast
qed

lemma core_grow:
  assumes core: "core K P s oc taken idx g x"
  shows "core K (insert (world_now K s oc) P) s oc taken idx g x"
proof (rule coreI)
  show "exec_ok K (insert (world_now K s oc) P) s taken (g t) (x t) t" if "t < block_size s" "\<not> unsettled (tx_states s ! t)" for t
    using coreD(4) [OF core that] exec_run_mono [of K P _ _ _ _ "insert (world_now K s oc) P"] by (simp add: exec_ok_def subset_insertI)
  show "past_ok K s idx p" if "p \<in> insert (world_now K s oc) P" for p using coreD(5,6) [OF core] that by blast
qed (fact coreD [OF core])+

text \<open>Which parts of the state a record looks at.\<close>

lemma exec_ok_same:
  assumes "exec_ok K P s taken rs x t" and "incarnation (tx_states s' ! t) = incarnation (tx_states s ! t)"
    and "tx_results s' ! t = tx_results s ! t" and "\<And>l. s_memory s' l t = s_memory s l t"
    and "entries (ben_history (s_beneficiary s')) ! t = entries (ben_history (s_beneficiary s)) ! t"
  shows "exec_ok K P s' taken rs x t"
  using assms by (simp add: exec_ok_def own_slots_def)

lemma world_now_same:
  "s_memory s' = s_memory s \<Longrightarrow> s_beneficiary s' = s_beneficiary s \<Longrightarrow> world_now K s' oc = world_now K s oc"
  by (simp add: world_now_def)

lemma past_ok_same:
  "s_memory s' = s_memory s \<Longrightarrow> s_beneficiary s' = s_beneficiary s \<Longrightarrow> past_ok K s' idx p = past_ok K s idx p"
  by (simp add: past_ok_def)

section \<open>Claims, finality and loads keep it\<close>

lemma core_claims:
  assumes core: "core K P s oc taken idx g x" and cl: "claims s s'"
  shows "core K P s' oc taken idx g x"
proof (rule coreI)
  note c = coreD [OF core]
  have f: "s_txs s' = s_txs s" "s_memory s' = s_memory s" "s_beneficiary s' = s_beneficiary s" "tx_results s' = tx_results s"
    using cl by (simp_all add: claims_def)
  show "s_txs s' = be_txs K" "ben_address (s_beneficiary s') = be_ben K" using c f by simp_all
  show "stable_inv g s' taken" by (rule stable_claims [OF c(3) cl])
  show "past_ok K s' idx (world_now K s' oc)" "\<And>p. p \<in> P \<Longrightarrow> past_ok K s' idx p"
    using c(5,6) f past_ok_same [of s' s] world_now_same [of s' s K oc] by simp_all
  show "exec_ok K P s' taken (g t) (x t) t" if "t < block_size s'" "\<not> unsettled (tx_states s' ! t)" for t
  proof -
    have "claimed (tx_states s ! t) (tx_states s' ! t)" using cl by (simp add: claims_def)
    then have "\<not> unsettled (tx_states s ! t)" "incarnation (tx_states s' ! t) = incarnation (tx_states s ! t)"
      using that(2) unfolding claimed_def by (elim disjE conjE; simp)+
    then show ?thesis using exec_ok_same [OF c(4) [of t]] that(1) f by simp
  qed
qed (fact coreD [OF core])+

lemma core_finality:
  assumes core: "core K P s oc taken idx g x" and cand: "lock_finality_candidate f l s = Some (Some (tx, l'))"
  shows "core K P (finalize_candidate b f tx s) oc taken idx g x"
proof (rule coreI)
  let ?s = "finalize_candidate b f tx s"
  note c = coreD [OF core] and d = lock_finality_candidateD [OF cand]
  have m: "s_memory ?s = s_memory s" by (simp add: finalize_candidate_def Let_def)
  show "s_txs ?s = be_txs K" "ben_address (s_beneficiary ?s) = be_ben K" using c by simp_all
  show "stable_inv g ?s taken" by (rule stable_finality [OF c(3) cand])
  show "past_ok K ?s idx (world_now K ?s oc)" "\<And>p. p \<in> P \<Longrightarrow> past_ok K ?s idx p"
    using c(5,6) m past_ok_same [of ?s s] world_now_same [of ?s s K oc] by simp_all
  show "exec_ok K P ?s taken (g t) (x t) t" if "t < block_size ?s" "\<not> unsettled (tx_states ?s ! t)" for t
  proof (rule exec_ok_same)
    show "exec_ok K P s taken (g t) (x t) t"
      using c(4) [of t] that d by (cases "t = f") auto
    show "incarnation (tx_states ?s ! t) = incarnation (tx_states s ! t)"
      using d by (cases "t = f") auto
  qed (use m in simp_all)
qed (fact coreD [OF core])+

lemma core_load:
  assumes core: "core K P s oc taken idx g x" and load: "state_load (be_revm K) (be_status K) (oc_state oc) ps"
  shows "core K P s (oc\<lparr>oc_state := ps\<rparr>) taken idx g x"
proof (rule coreI)
  note c = coreD [OF core]
  show ok: "committed_ok (be_revm K) (be_status K) (be_code K) (be_hash K) (be_start K) (oc\<lparr>oc_state := ps\<rparr>) (block_world K idx)"
    by (rule committed_load [OF load c(7)])
  show "past_ok K s idx (world_now K s (oc\<lparr>oc_state := ps\<rparr>))"
    using c(5) committed_presents [OF ok] by (auto simp: past_ok_def world_now_def)
qed (use coreD [OF core] in simp_all)

section \<open>What an incarnation publishes\<close>

text \<open>An operation on a publication in progress that sets entries of its own version, whatever is there.\<close>

definition putter :: "tx_version \<Rightarrow> bool \<Rightarrow> (mv_memory \<times> location set \<Rightarrow> mv_memory \<times> location set) \<Rightarrow> bool" where
  "putter v est F \<longleftrightarrow> (\<exists>f. \<forall>x. puts v est f x (F x))"

lemma putter_id: "putter v est (\<lambda>x. x)"
  unfolding putter_def using puts_none by blast

lemma putter_value: "putter v est (publish_value v est l d)"
  unfolding putter_def using puts_value by blast

lemma putter_comp: "putter v est F \<Longrightarrow> putter v est G \<Longrightarrow> putter v est (\<lambda>x. G (F x))"
  unfolding putter_def using puts_trans by metis

interpretation putters: publication_contract v est "putter v est"
  by unfold_locales (simp_all only: putter_id putter_value putter_comp)

lemma publish_account_ben: "ben_address b = ben_address b' \<Longrightarrow> publish_account R b db est = publish_account R b' db est"
  unfolding publish_account_def beneficiary_matches_def by (simp only:)

lemma publish_fresh:
  assumes "publish_writes R b db st est m = (m', ws)" and "ben_address b = ben_address b'"
  shows "fst (publish_writes R b' db st est (\<lambda>_. Map.empty)) l (idb_txid db) = (if l \<in> ws then m' l (idb_txid db) else None)"
proof -
  obtain f where f: "\<And>x. puts (idb_version db) est f x (fold (publish_account R b db est) st x)"
    using putters.all_accounts [OF refl] unfolding putter_def by blast
  have "ws = dom f" "m' l (idb_txid db) = (case f l of Some d \<Rightarrow> Some (memory_entry_new (v_incarnation (idb_version db)) d est) | None \<Rightarrow> m l (idb_txid db))"
    using f [of "(m, {})"] assms(1) by (auto simp: puts_def publish_writes_def split: option.split)
  moreover have "fst (publish_writes R b' db st est (\<lambda>_. Map.empty)) l (idb_txid db) =
      (case f l of Some d \<Rightarrow> Some (memory_entry_new (v_incarnation (idb_version db)) d est) | None \<Rightarrow> None)"
    using f [of "(\<lambda>_. Map.empty, {})"] publish_account_ben [OF assms(2), of R db est] by (auto simp: puts_def publish_writes_def split: option.split)
  ultimately show ?thesis by (auto split: option.split)
qed

text \<open>The record of a successful incarnation.\<close>

lemma exec_record:
  assumes ex: "execute_incarnation R W prog b v tx db m = Some (ie, db', m')" and ok: "\<not> exec_conflict ie"
  obtains out st dbF ws where "run R W (prog (v_txid v) tx) (begin_incarnation v db) = Some (Inr (Inr (out, st)), dbF)"
    and "ie_result ie = Inr (into_speculative out st)" and "ia_read_set (ie_accesses ie) = idb_read_set dbF"
    and "idb_blocking_txs dbF = {}" and "publish_writes R b dbF st False m = (m', ia_write_set (ie_accesses ie))" and "idb_version dbF = v"
proof -
  obtain x dbF where x: "run R W (prog (v_txid v) tx) (begin_incarnation v db) = Some (x, dbF)"
    using ex by (auto simp: execute_incarnation_def bind_eq_Some_conv)
  obtain sr where sr: "handler_result x = Inr sr"
    using ex ok x by (cases "handler_result x") (auto simp: execute_incarnation_def exec_conflict_def discard_incarnation_def)
  then obtain out st where os: "x = Inr (Inr (out, st))" "sr = into_speculative out st"
    by (auto simp: handler_result_def split: sum.splits prod.splits)
  have st: "sr_state (into_speculative out st) = st"
    by (cases "ho_deferred_reward out") (simp_all add: into_speculative_def settled_def deferred_def)
  obtain m1 ws where p: "publish_writes R b dbF st (idb_blocking_txs dbF \<noteq> {}) m = (m1, ws)" by fastforce
  have ie: "ie_result ie = Inr sr" "ia_read_set (ie_accesses ie) = idb_read_set dbF" "ia_write_set (ie_accesses ie) = ws" "m1 = m'"
    "ia_blocking_txs (ie_accesses ie) = idb_blocking_txs dbF"
    using ex x sr os p st by (auto simp: execute_incarnation_def finish_incarnation_def)
  have blk: "idb_blocking_txs dbF = {}" using ok ie by (simp add: exec_conflict_def is_blocked_def)
  have "idb_version dbF = v" using run_version x os by (fastforce simp: begin_incarnation_def)
  then show thesis using that x os ie blk p by auto
qed

section \<open>Executions and validations keep it\<close>

lemma past_change:
  assumes past: "past_ok K s idx p" and step: "(history_step (be_revm K))\<^sup>*\<^sup>* (ben_history (s_beneficiary s)) (ben_history (s_beneficiary s'))"
    and other: "\<And>l u. u \<noteq> t \<Longrightarrow> s_memory s' l u = s_memory s l u"
    and own: "\<And>l e. s_memory s' l t = Some e \<Longrightarrow>
      (\<exists>e0. s_memory s l t = Some e0 \<and> me_incarnation e0 = me_incarnation e \<and> me_data e0 = me_data e) \<or> published_incarnation s t < me_incarnation e"
    and clock: "\<And>u. published_incarnation s u \<le> published_incarnation s' u"
  shows "past_ok K s' idx p"
proof -
  have "me_incarnation e \<le> published_incarnation s' u \<and>
      (\<forall>e'. s_memory s' l u = Some e' \<and> me_incarnation e' = me_incarnation e \<longrightarrow> me_data e' = me_data e)" if e: "w_mv p l u = Some e" for l u e
  proof -
    have old: "me_incarnation e \<le> published_incarnation s u"
      "\<And>e'. s_memory s l u = Some e' \<Longrightarrow> me_incarnation e' = me_incarnation e \<Longrightarrow> me_data e' = me_data e"
      by (fact past_ok_entry [OF past e])+
    have "me_data e' = me_data e" if e': "s_memory s' l u = Some e'" "me_incarnation e' = me_incarnation e" for e'
    proof (cases "u = t")
      case True
      then obtain e0 where "s_memory s l u = Some e0" "me_incarnation e0 = me_incarnation e'" "me_data e0 = me_data e'"
        using own [of l e'] e' old(1) by auto
      then show ?thesis using old(2) [of e0] e'(2) by simp
    qed (use old(2) [of e'] other [of u l] e' in simp)
    then show ?thesis using order_trans [OF old(1) clock [of u]] by blast
  qed
  moreover have "(history_step (be_revm K))\<^sup>*\<^sup>* (ben_history (w_ben p)) (ben_history (s_beneficiary s'))"
    by (rule rtranclp_trans [OF _ step]) (use past in \<open>simp add: past_ok_def\<close>)
  ultimately show ?thesis using past unfolding past_ok_def by blast
qed

lemma now_change:
  assumes past: "past_ok K s idx (world_now K s oc)" and step: "(history_step (be_revm K))\<^sup>*\<^sup>* (ben_history (s_beneficiary s)) (ben_history (s_beneficiary s'))"
    and other: "\<And>l u. u \<noteq> t \<Longrightarrow> s_memory s' l u = s_memory s l u" and own: "\<And>l e. s_memory s' l t = Some e \<Longrightarrow> me_incarnation e \<le> published_incarnation s' t"
    and clock: "\<And>u. published_incarnation s u \<le> published_incarnation s' u" and addr: "ben_address (s_beneficiary s') = be_ben K"
  shows "past_ok K s' idx (world_now K s' oc)"
proof -
  have "me_incarnation e \<le> published_incarnation s' u" if e: "s_memory s' l u = Some e" for l u e
  proof (cases "u = t")
    case False
    then have "me_incarnation e \<le> published_incarnation s u" using past e other [of u l] by (simp add: past_ok_def world_now_def)
    then show ?thesis using clock [of u] by simp
  qed (use own e in simp)
  then show ?thesis using past step addr unfolding past_ok_def world_now_def by (auto intro: rtranclp_trans)
qed

text \<open>A change of transaction \<open>t\<close>.\<close>

lemma core_change:
  assumes core: "core K P s oc taken idx g x" and stable: "stable_inv g' s' taken" and t: "t < block_size s"
    and txs: "s_txs s' = s_txs s" and addr: "ben_address (s_beneficiary s') = be_ben K"
    and step: "(history_step (be_revm K))\<^sup>*\<^sup>* (ben_history (s_beneficiary s)) (ben_history (s_beneficiary s'))"
    and diff: "differ_at t (s_memory s, s_beneficiary s) (s_memory s', s_beneficiary s')"
    and same: "\<And>u. u \<noteq> t \<Longrightarrow> tx_states s' ! u = tx_states s ! u \<and> tx_results s' ! u = tx_results s ! u \<and> g' u = g u \<and> x' u = x u"
    and own: "\<And>l e. s_memory s' l t = Some e \<Longrightarrow>
      (\<exists>e0. s_memory s l t = Some e0 \<and> me_incarnation e0 = me_incarnation e \<and> me_data e0 = me_data e) \<or>
      published_incarnation s t < me_incarnation e \<and> me_incarnation e \<le> published_incarnation s' t"
    and clock: "published_incarnation s t \<le> published_incarnation s' t"
    and exec: "\<not> unsettled (tx_states s' ! t) \<Longrightarrow> exec_ok K P s' taken (g' t) (x' t) t"
  shows "core K P s' oc taken idx g' x'"
proof (rule coreI)
  note c = coreD [OF core]
  have other: "\<And>l u. u \<noteq> t \<Longrightarrow> s_memory s' l u = s_memory s l u"
    "\<And>u. u \<noteq> t \<Longrightarrow> entries (ben_history (s_beneficiary s')) ! u = entries (ben_history (s_beneficiary s)) ! u"
    using diff by (simp_all add: differ_at_def)
  have clock': "published_incarnation s u \<le> published_incarnation s' u" for u using clock other(2) [of u] by (cases "u = t") simp_all
  show "past_ok K s' idx p" if "p \<in> P" for p
    using past_change [OF c(6) [OF that] step other(1) _ clock'] own by blast
  have now: "me_incarnation e \<le> published_incarnation s t" if "s_memory s l t = Some e" for l e
    using c(5) that by (simp add: past_ok_def world_now_def)
  have "me_incarnation e \<le> published_incarnation s' t" if e: "s_memory s' l t = Some e" for l e
    using own [OF e] now clock by (metis order_trans)
  from now_change [OF c(5) step other(1) this clock' addr] show "past_ok K s' idx (world_now K s' oc)" .
  show "exec_ok K P s' taken (g' u) (x' u) u" if u: "u < block_size s'" "\<not> unsettled (tx_states s' ! u)" for u
  proof (cases "u = t")
    case False
    note f = same [OF False]
    have "exec_ok K P s taken (g u) (x u) u" using c(4) [of u] u f txs by simp
    then show ?thesis using exec_ok_same [of K P s taken "g u" "x u" u s'] f other [OF False] by simp
  qed (use exec u in simp)
  show "s_txs s' = be_txs K" using txs c(1) by simp
qed (fact stable addr coreD [OF core])+

lemma exec_history_clock:
  assumes "exec_history R v ie b = Some (True, b')" and "es_incarnation (entries (ben_history b) ! v_txid v) < v_incarnation v"
  shows "es_incarnation (entries (ben_history b') ! v_txid v) = v_incarnation v"
  using assms publish_history_at [of R v _ _ b True b'] record_at [of v b True b' R]
  by (auto simp: exec_history_def split: sum.splits)

text \<open>An entry after the execution is one of its own version or an old one, marked.\<close>

lemma exec_memory_entry:
  assumes pub: "own_publication v ie m0 m" and t: "t = v_txid v"
    and dom: "\<And>l. m0 l t \<noteq> None \<longleftrightarrow> l \<in> last_write_set old" and e: "exec_memory t ie old m l t = Some z"
  shows "(\<exists>e0. m0 l t = Some e0 \<and> me_incarnation e0 = me_incarnation z \<and> me_data e0 = me_data z) \<or> me_incarnation z = v_incarnation v"
proof (cases "ie_result ie")
  case (Inl x)
  then have "mark_mv_estimate t (last_write_set old) m0 l t = Some z"
    using pub e by (simp add: own_publication_def exec_memory_def)
  then show ?thesis by (auto simp: mark_mv_estimate_def split: if_splits option.splits)
next
  case (Inr sr)
  let ?ws = "ia_write_set (ie_accesses ie)"
  have "l \<notin> ?ws \<Longrightarrow> m l t = m0 l t" "l \<in> ?ws \<Longrightarrow> \<exists>d. m l t = Some (memory_entry_new (v_incarnation v) d (is_blocked (ie_accesses ie)))"
    using pub by (simp_all add: own_publication_def Inr published_def t)
  then show ?thesis using e
    by (cases "l \<in> ?ws"; cases "m0 l t") (auto simp: exec_memory_def Inr remove_stale_writes_def memory_entry_new_def split: if_splits)
qed

lemma exec_memory_own:
  assumes pw: "publish_writes R b dbF st False m0 = (m, ia_write_set (ie_accesses ie))" and v: "idb_version dbF = v"
    and ie: "ie_result ie = Inr sr" and dom: "\<And>l. m0 l (v_txid v) \<noteq> None \<longleftrightarrow> l \<in> last_write_set old" and b: "ben_address b = ben_address b'"
  shows "exec_memory (v_txid v) ie old m l (v_txid v) = fst (publish_writes R b' dbF st False (\<lambda>_. Map.empty)) l (v_txid v)"
proof -
  let ?ws = "ia_write_set (ie_accesses ie)"
  have "l \<notin> ?ws \<Longrightarrow> m l (v_txid v) = m0 l (v_txid v)" using published_writes [OF pw] v by (simp add: published_def)
  then have "exec_memory (v_txid v) ie old m l (v_txid v) = (if l \<in> ?ws then m l (v_txid v) else None)"
    using dom [of l] by (auto simp: exec_memory_def ie remove_stale_writes_def)
  then show ?thesis using publish_fresh [OF pw b, of l] v by simp
qed

lemma core_exec:
  assumes inv: "sched_inv y" and held: "Execution v \<in># sys_tasks y" and eff: "exec_effect (be_revm K) v ie m (sys_sched y) s1 rw"
    and ex: "execute_incarnation (be_revm K) W (be_prog K) (s_beneficiary (sys_sched y)) v (be_txs K ! v_txid v) db (s_memory (sys_sched y)) = Some (ie, db', m)"
    and kept: "reads_kept (be_revm K) W (be_prog K (v_txid v) (be_txs K ! v_txid v)) (begin_incarnation v db)" and seen: "\<And>n. reader K P (v_txid v) (W n)"
    and core: "core K P (sys_sched y) oc (pc_taken (sys_commit y)) idx g x"
  shows "\<exists>g' x'. core K P s1 oc (pc_taken (sys_commit y)) idx g' x'"
proof -
  let ?s = "sys_sched y" and ?t = "v_txid v" and ?taken = "pc_taken (sys_commit y)"
  let ?old = "tx_results ?s ! ?t"
  note c = coreD [OF core] and h = held_execution [OF inv held] and shape = sched_inv_shape [OF inv]
  note pub = execute_incarnation_own [OF ex]
  have e: "s_txs s1 = s_txs ?s" "s_memory s1 = exec_memory ?t ie ?old m" "tx_results s1 = (tx_results ?s)[?t := Some (exec_result ie ?old)]"
    "exec_history (be_revm K) v ie (s_beneficiary ?s) = Some (True, s_beneficiary s1)"
    "tx_states s1 = (tx_states ?s)[?t := (tx_states ?s ! ?t)\<lparr>status := if exec_conflict ie then Conflict else if rw then Executed else Validating\<rparr>]"
    using eff by (simp_all add: exec_effect_def Let_def)
  have dom: "\<And>l. s_memory ?s l ?t \<noteq> None \<longleftrightarrow> l \<in> last_write_set ?old"
    using c(3) h(1) sched_inv_taken [OF inv h(1)] h(2) by (simp add: stable_inv_def stable_tx_def slots_ok_def)
  note mem = exec_memory_slots [OF pub refl dom] and hist = exec_history_step [OF e(4)]
  have new: "published_incarnation s1 ?t = v_incarnation v" by (rule exec_history_clock [OF e(4) h(4)])
  obtain z where z: "\<not> exec_conflict ie \<Longrightarrow> exec_ok K P s1 ?taken (read_set (exec_result ie ?old)) z ?t"
  proof (cases "exec_conflict ie")
    case False
    from ex False obtain out st dbF where r: "run (be_revm K) W (be_prog K ?t (be_txs K ! ?t)) (begin_incarnation v db) = Some (Inr (Inr (out, st)), dbF)"
      "ie_result ie = Inr (into_speculative out st)" "ia_read_set (ie_accesses ie) = idb_read_set dbF" "idb_blocking_txs dbF = {}"
      "publish_writes (be_revm K) (s_beneficiary ?s) dbF st False (s_memory ?s) = (m, ia_write_set (ie_accesses ie))" "idb_version dbF = v"
      by (rule exec_record)
    let ?sr = "into_speculative out st"
    have st: "sr_state ?sr = st" by (cases "ho_deferred_reward out") (simp_all add: into_speculative_def settled_def deferred_def)
    have "exec_run K P ?t (v_incarnation v) dbF ?sr" using r(1,4) kept seen unfolding exec_run_def by auto
    moreover have "own_slots K ?t s1 dbF ?sr"
    proof -
      have "record_execution (be_revm K) v ?sr (s_beneficiary ?s) = Some (True, s_beneficiary s1)"
        using e(4) False r(2) by (simp add: exec_history_def publish_history_def exec_conflict_def)
      then obtain eff where "effect_from_execution (be_revm K) (deferred_reward ?sr) (map_of (sr_state ?sr) (be_ben K)) = Some eff"
        "es_value (entries (ben_history (s_beneficiary s1)) ! ?t) = Exact eff"
        by (rule record_execution_history) (use c(2) in auto)
      moreover have "s_memory s1 l ?t = fst (publish_writes (be_revm K) (beneficiary_new (be_ben K) None 0) dbF (sr_state ?sr) False (\<lambda>_. Map.empty)) l ?t" for l
        using exec_memory_own [OF r(5,6,2) dom, of "beneficiary_new (be_ben K) None 0"] c(2) by (simp add: e(2) st beneficiary_new_def)
      ultimately show ?thesis unfolding own_slots_def by blast
    qed
    ultimately have "exec_ok K P s1 ?taken (read_set (exec_result ie ?old)) (dbF, ?sr) ?t"
      using r(2,3) h(1,3) shape by (simp add: exec_ok_def e(3,5) exec_result_def)
    then show thesis by (rule that)
  qed (use that in simp)
  have "core K P s1 oc ?taken idx (g(?t := read_set (exec_result ie ?old))) (x(?t := z))"
  proof (rule core_change [OF core stable_exec [OF inv held eff pub c(3)] h(1) e(1)])
    show "ben_address (s_beneficiary s1) = be_ben K" using hist c(2) by simp
    show "(history_step (be_revm K))\<^sup>*\<^sup>* (ben_history (s_beneficiary ?s)) (ben_history (s_beneficiary s1))" using hist by blast
    show "differ_at ?t (s_memory ?s, s_beneficiary ?s) (s_memory s1, s_beneficiary s1)"
      using exec_history_differ(1) [OF e(4)] mem(1) by (simp add: differ_at_def e(2))
    show "(\<exists>e0. s_memory ?s l ?t = Some e0 \<and> me_incarnation e0 = me_incarnation w \<and> me_data e0 = me_data w) \<or>
      published_incarnation ?s ?t < me_incarnation w \<and> me_incarnation w \<le> published_incarnation s1 ?t" if "s_memory s1 l ?t = Some w" for l w
      using exec_memory_entry [OF pub refl dom, of l w] that h(4) new by (auto simp: e(2))
    show "published_incarnation ?s ?t \<le> published_incarnation s1 ?t" using new h(4) by simp
    show "exec_ok K P s1 ?taken ((g(?t := read_set (exec_result ie ?old))) ?t) ((x(?t := z)) ?t) ?t" if "\<not> unsettled (tx_states s1 ! ?t)"
      using that z h(1) shape(1) by (auto simp: e(5) split: if_splits)
  qed (simp add: e)
  then show ?thesis by blast
qed

lemma core_val:
  assumes inv: "sched_inv y" and held: "Validation v \<in># sys_tasks y" and eff: "val_effect v r c dep (sys_sched y) s'"
    and core: "core K P (sys_sched y) oc (pc_taken (sys_commit y)) idx g x"
  shows "core K P s' oc (pc_taken (sys_commit y)) idx g x"
proof -
  let ?s = "sys_sched y" and ?t = "v_txid v" and ?taken = "pc_taken (sys_commit y)"
  note d = coreD [OF core] and h = held_validation [OF inv held] and shape = sched_inv_shape [OF inv]
  have e: "s_txs s' = s_txs ?s" "tx_results s' = tx_results ?s"
    "s_memory s' = (if c then mark_mv_estimate ?t (write_set r) (s_memory ?s) else s_memory ?s)"
    "if c then invalidate v (s_beneficiary ?s) = Some (True, s_beneficiary s') else s_beneficiary s' = s_beneficiary ?s"
    "tx_states s' = (tx_states ?s)[?t := (tx_states ?s ! ?t)\<lparr>status := if c then Conflict else Unconfirmed, dependency := dep\<rparr>]"
    using eff by (simp_all add: val_effect_def Let_def)
  have hist: "ben_address (s_beneficiary s') = ben_address (s_beneficiary ?s)" "published_incarnation s' u = published_incarnation ?s u"
    "u \<noteq> ?t \<Longrightarrow> entries (ben_history (s_beneficiary s')) ! u = entries (ben_history (s_beneficiary ?s)) ! u"
    "block_anchor (ben_history (s_beneficiary s')) = block_anchor (ben_history (s_beneficiary ?s))"
    "length (entries (ben_history (s_beneficiary s'))) = length (entries (ben_history (s_beneficiary ?s)))" for u
    using e(4) invalidate_history [of v "s_beneficiary ?s" "s_beneficiary s'"]
    by (cases "u = ?t"; cases c; simp add: nth_list_update)+
  have mark: "s_memory s' l u = (if c \<and> u = ?t \<and> l \<in> write_set r then map_option (\<lambda>z. z\<lparr>me_estimate := True\<rparr>) (s_memory ?s l u) else s_memory ?s l u)" for l u
    by (auto simp: e(3) mark_mv_estimate_def split: option.split)
  show ?thesis
  proof (rule core_change [OF core stable_val [OF inv held eff d(3)] h(1) e(1)])
    show "ben_address (s_beneficiary s') = be_ben K" using hist(1) d(2) by simp
    show "(history_step (be_revm K))\<^sup>*\<^sup>* (ben_history (s_beneficiary ?s)) (ben_history (s_beneficiary s'))"
      using e(4) invalidate_step [of v "s_beneficiary ?s" "s_beneficiary s'"] by (cases c) auto
    show "differ_at ?t (s_memory ?s, s_beneficiary ?s) (s_memory s', s_beneficiary s')"
      using hist mark by (simp add: differ_at_def)
    show "(\<exists>e0. s_memory ?s l ?t = Some e0 \<and> me_incarnation e0 = me_incarnation w \<and> me_data e0 = me_data w) \<or>
      published_incarnation ?s ?t < me_incarnation w \<and> me_incarnation w \<le> published_incarnation s' ?t" if "s_memory s' l ?t = Some w" for l w
      using that mark [of l ?t] by (auto split: if_splits)
    show "published_incarnation ?s ?t \<le> published_incarnation s' ?t" using hist(2) [of ?t] by simp
    show "exec_ok K P s' ?taken (g ?t) (x ?t) ?t" if st: "\<not> unsettled (tx_states s' ! ?t)"
    proof (rule exec_ok_same)
      have "\<not> c" using st h(1) shape(1) by (auto simp: e(5))
      then show "\<And>l. s_memory s' l ?t = s_memory ?s l ?t"
        "entries (ben_history (s_beneficiary s')) ! ?t = entries (ben_history (s_beneficiary ?s)) ! ?t" using e(3,4) by simp_all
      show "exec_ok K P ?s ?taken (g ?t) (x ?t) ?t" by (rule d(4) [OF h(1)]) (simp add: h(2))
      show "incarnation (tx_states s' ! ?t) = incarnation (tx_states ?s ! ?t)" using h(1) shape(1) by (simp add: e(5))
    qed (simp add: e(2))
  qed (simp add: e)
qed

section \<open>The final prefix is the serial one\<close>

lemma reader_view:
  assumes core: "core K P s oc taken idx g x" and laws: "revm_laws (be_revm K)"
    and chain: "chain (be_revm K) (be_code K) t (s_memory s) (s_beneficiary s) (block_world K) sr"
    and start: "start_ok (be_revm K) (be_code K) (s_beneficiary s) (be_start K)" and v: "reader K P t v"
  shows "past_view (be_revm K) (be_code K) (be_hash K) t (s_memory s) (s_beneficiary s) (block_world K t) v"
proof -
  let ?steps = "(history_step (be_revm K))\<^sup>*\<^sup>*" and ?h = "ben_history (w_ben v)"
  note c = coreD [OF core]
  obtain p where p: "p \<in> P" "w_mv v = w_mv p" using v by (auto simp: reader_def seen_def)
  obtain q where q: "q \<in> P" "ben_address (w_ben v) = ben_address (w_ben q)" "block_anchor ?h = block_anchor (ben_history (w_ben q))"
      "length (entries ?h) = length (entries (ben_history (w_ben q)))" using v by (auto simp: reader_def seen_def)
  have hist: "?steps (first_history K) (ben_history (w_ben z)) \<and> ?steps (ben_history (w_ben z)) (ben_history (s_beneficiary s))" if "z \<in> P" for z
    using c(6) [OF that] by (simp add: past_ok_def)
  note frame = history_steps_frame [OF conjunct1 [OF hist [OF q(1)]]]
  have torn: "\<exists>h. ?steps (first_history K) h \<and> ?steps h (ben_history (s_beneficiary s)) \<and> entries ?h ! w = entries h ! w" if w: "w < length (entries (first_history K))" for w
  proof -
    have "w < length (entries ?h)" using w q(4) frame by simp
    then obtain z where "z \<in> P" "entries ?h ! w = entries (ben_history (w_ben z)) ! w" using v unfolding reader_def seen_def by blast
    then show ?thesis using hist by blast
  qed
  have "?steps (first_history K) (ben_history (s_beneficiary s))" using hist [OF q(1)] by (blast intro: rtranclp_trans)
  then have "torn_view (be_revm K) (first_history K) (ben_history (s_beneficiary s)) ?h"
    unfolding torn_view_def using torn q(3,4) frame by metis
  moreover have "ben_address (s_beneficiary s) = ben_address (w_ben v)" using c(2) c(6) [OF q(1)] q(2) by (simp add: past_ok_def)
  ultimately have "ben_leads (be_revm K) (w_ben v) (s_beneficiary s)" unfolding ben_leads_def by blast
  moreover have "me_data e' = me_data e" if "w_mv v l u = Some e" "s_memory s l u = Some e'" "me_incarnation e' = me_incarnation e" for l u e e'
    using past_ok_entry(2) [OF c(6) [OF p(1)], of l u e e'] p(2) that by simp
  moreover obtain d where "d \<le> t" "db_presents (be_revm K) (be_code K) (be_hash K) (be_start K) (block_world K d) (w_db v)"
    using v by (auto simp: reader_def)
  then have "db_view (be_revm K) (be_code K) (be_hash K) t (s_memory s) (s_beneficiary s) (block_world K t) (w_db v)"
    using chain_db_view [OF laws chain] start by simp
  ultimately show ?thesis unfolding past_view_def by blast
qed

lemma own_slots_present:
  assumes slots: "own_slots K t s dbF sr" and out: "output_ok (be_revm K) (be_code K) (be_ben K) w sr" and snaps: "snap_ok (be_revm K) w (account_snapshots dbF)"
    and ben: "ben_address (s_beneficiary s) = be_ben K" and t: "idb_txid dbF = t" "t < length (entries (ben_history (s_beneficiary s)))"
  shows "presents (be_revm K) (be_code K) t (s_memory s) (s_beneficiary s) w sr"
proof -
  let ?b = "beneficiary_new (be_ben K) None 0"
  have "distinct (map fst (acct_storage acc))" if "(a, acc) \<in> set (sr_state sr)" for a acc
    using output_okD(2) [OF out map_of_is_SomeI [OF output_okD(1) [OF out] that]] by (simp add: account_ready_def)
  then have all: "\<forall>(a, acc)\<in>set (sr_state sr). distinct (map fst (acct_storage acc))" by blast
  have same: "publish_account (be_revm K) ?b dbF False = publish_account (be_revm K) (s_beneficiary s) dbF False"
    by (rule publish_account_ben) (simp add: ben beneficiary_new_def)
  let ?x = "(\<lambda>_. Map.empty, {}) :: mv_memory \<times> location set"
  have p: "puts (idb_version dbF) False (state_data (be_revm K) (s_beneficiary s) (account_snapshots dbF) (sr_state sr)) ?x
      (fold (publish_account (be_revm K) ?b dbF False) (sr_state sr) ?x)"
    unfolding same by (rule puts_state [OF output_okD(1) [OF out] all])
  have "map_option me_data (s_memory s l t) = state_data (be_revm K) (s_beneficiary s) (account_snapshots dbF) (sr_state sr) l" for l
  proof -
    have "s_memory s l t = fst (fold (publish_account (be_revm K) ?b dbF False) (sr_state sr) ?x) l t"
      using slots unfolding own_slots_def publish_writes_def by blast
    also have "\<dots> = (case state_data (be_revm K) (s_beneficiary s) (account_snapshots dbF) (sr_state sr) l of
        Some d \<Rightarrow> Some (memory_entry_new (v_incarnation (idb_version dbF)) d False) | None \<Rightarrow> fst ?x l t)"
      using p t(1) unfolding puts_def by blast
    finally show ?thesis by (simp add: memory_entry_new_def split: option.split)
  qed
  moreover obtain e where "es_value (entries (ben_history (s_beneficiary s)) ! t) = Exact e"
      "effect_from_execution (be_revm K) (deferred_reward sr) (map_of (sr_state sr) (be_ben K)) = Some e"
    using slots unfolding own_slots_def by blast
  ultimately show ?thesis using snaps out t(2) unfolding presents_def ben by blast
qed

lemma final_chain:
  assumes env: "env_ok K" and inv: "sched_inv y" and core: "core K P (sys_sched y) oc (pc_taken (sys_commit y)) idx g x" and "t \<le> sys_final y"
  shows "chain (be_revm K) (be_code K) t (s_memory (sys_sched y)) (s_beneficiary (sys_sched y)) (block_world K) (\<lambda>k. snd (x k)) \<and>
    (\<forall>k<t. block_result K k = Inr (snd (x k)))"
  using assms(4)
proof (induction t)
  case (Suc t)
  let ?s = "sys_sched y" and ?R = "be_revm K" and ?prog = "be_prog K t (be_txs K ! t)"
  note c = coreD [OF core] and shape = sched_inv_shape [OF inv]
  have laws: "revm_laws ?R" using env by (simp add: env_ok_def)
  have fin: "t < block_size ?s" "status (tx_states ?s ! t) = Finality" "validation_holds (scheduler_ctx ?s) t"
    using inv Suc.prems by (auto simp: sched_inv_def final_ok_def validation_holds_def)
  have IH: "chain ?R (be_code K) t (s_memory ?s) (s_beneficiary ?s) (block_world K) (\<lambda>k. snd (x k))" "\<forall>k<t. block_result K k = Inr (snd (x k))"
    using Suc by simp_all
  have start: "start_ok ?R (be_code K) (s_beneficiary ?s) (be_start K)"
    using env c(2,5) history_steps_frame [of ?R "first_history K" "ben_history (s_beneficiary ?s)"]
    by (simp add: start_ok_def env_ok_def past_ok_def world_now_def first_history_def history_new_def)
  obtain dbF sr where x: "x t = (dbF, sr)" by (cases "x t")
  have rec: "exec_run K P t (incarnation (tx_states ?s ! t)) dbF sr" "g t = idb_read_set dbF" "own_slots K t ?s dbF sr"
    using c(4) [OF fin(1)] fin(2) x by (simp_all add: exec_ok_def)
  let ?db = "\<lambda>db. begin_incarnation (TxVersion t (incarnation (tx_states ?s ! t))) db"
  obtain W db out st where W: "\<And>n. reader K P t (W n)" and run: "reads_kept ?R W ?prog (?db db)"
      "run ?R W ?prog (?db db) = Some (Inr (Inr (out, st)), dbF)" "sr = into_speculative out st" "idb_blocking_txs dbF = {}"
    using rec(1) unfolding exec_run_def by blast
  have tx: "t < length (be_txs K)" using fin(1) c(1) by simp
  have v: "idb_txid dbF = t" using run_version [OF run(2)] by (simp add: begin_incarnation_def)
  have "reads_ok (g t) ?s t" using c(3) fin by (auto simp: stable_inv_def stable_tx_def)
  then have valid: "reads_valid (s_memory ?s) (s_beneficiary ?s) dbF"
    using rec(2) v by (auto simp: reads_ok_def reads_valid_def dest!: map_of_SomeD)
  have view: "mv_view ?R (be_code K) t (s_memory ?s) (s_beneficiary ?s) (block_world K t)" using chain_view [OF laws IH(1)] start by simp
  have past: "\<And>n. past_view ?R (be_code K) (be_hash K) t (s_memory ?s) (s_beneficiary ?s) (block_world K t) (W n)"
    by (rule reader_view [OF core laws IH(1) start W])
  have blind: "code_blind ?R ?prog" using env tx by (simp add: env_ok_def)
  have r: "Inr (out, st) = serial_run ?R (be_code K) (be_hash K) (block_world K t) ?prog \<and> snap_ok ?R (block_world K t) (account_snapshots dbF)"
    by (rule run_past [OF laws past view run(2,1) _ blind valid run(4)]) (simp_all add: begin_incarnation_def snap_ok_def)
  then have res: "block_result K t = Inr sr" using run(3) by (simp add: block_result_def serial_result_def handler_result_def flip: conjunct1 [OF r])
  then have out: "output_ok ?R (be_code K) (be_ben K) (block_world K t) sr" using env tx unfolding env_ok_def block_result_def by blast
  have "presents ?R (be_code K) t (s_memory ?s) (s_beneficiary ?s) (block_world K t) sr"
    using own_slots_present [OF rec(3) out _ c(2) v] r fin(1) shape(3) by simp
  then show ?case using IH res x c(2) by (auto simp: chain_def less_Suc_eq serial_world_def)
qed (simp add: chain_def)

section \<open>The commit thread keeps it\<close>

lemma past_advance: "past_ok K s idx p \<Longrightarrow> past_ok K s (Suc idx) p"
  unfolding past_ok_def by (meson le_SucI)

lemma core_taken:
  assumes core: "core K P s oc i i g x" and f: "s_txs s' = s_txs s" "s_memory s' = s_memory s" "s_beneficiary s' = s_beneficiary s"
      "tx_states s' = tx_states s" "tx_results s' = (tx_results s)[i := None]" and stable: "stable_inv g s' (Suc i)"
    and ok: "committed_ok (be_revm K) (be_status K) (be_code K) (be_hash K) (be_start K) oc' (block_world K idx)" and idx: "idx = i \<or> idx = Suc i"
    and fields: "oc_beneficiary oc' = oc_beneficiary oc" "disable_nonce_check oc' = disable_nonce_check oc"
  shows "core K P s' oc' (Suc i) idx g x"
proof (rule coreI)
  note c = coreD [OF core]
  have past: "past_ok K s' idx p" if "past_ok K s i p" for p
    using past_ok_same [OF f(2,3), of K i p] past_advance [of K s' i p] that idx by auto
  show "past_ok K s' idx p" if "p \<in> P" for p by (rule past [OF c(6) [OF that]])
  have "past_ok K s' idx (world_now K s oc)" by (rule past [OF c(5)])
  then show "past_ok K s' idx (world_now K s' oc')" using committed_presents [OF ok] f by (auto simp: past_ok_def world_now_def)
  show "exec_ok K P s' (Suc i) (g t) (x t) t" if "t < block_size s'" "\<not> unsettled (tx_states s' ! t)" for t
    using c(4) [of t] that f by (auto simp: exec_ok_def own_slots_def)
qed (use coreD [OF core] f fields ok stable in simp_all)

lemma output_serial_snoc:
  assumes "output_serial K out" and "block_result K (length out) = Inr sr"
    and "world_nonce_ok (be_free_nonce K) (be_txs K ! length out) (block_world K (length out))"
  shows "output_serial K (out @ [OExecuted (sr_result sr)])"
  using assms by (auto simp: output_serial_def less_Suc_eq nth_append)

definition block_inv :: "('r, 'e) block_env \<Rightarrow> ('r, 'e, 't, 'b) sched_sys \<Rightarrow> 'e world set \<Rightarrow> bool" where
  "block_inv K y P \<longleftrightarrow> sched_inv y \<and> output_serial K (pc_output (sys_commit y)) \<and>
    (\<exists>g x. core K P (sys_sched y) (sys_oc y) (pc_taken (sys_commit y)) (pc_idx (sys_commit y)) g x)"

lemma block_commit:
  assumes env: "env_ok K" and inv: "sched_inv y" and pc: "sys_commit y = CommitRunning i out"
    and i: "i < finality_idx (scheduler_ctx (sys_sched y))"
    and com: "commit_one (be_revm K) (be_status K) add i out (sys_oc y) (sys_sched y) = Some (r, oc', s')"
    and core: "core K P (sys_sched y) (sys_oc y) i i g x" and out: "output_serial K out"
    and pc': "pc' = (case r of Inr (n, out') \<Rightarrow> CommitRunning n out' | Inl e \<Rightarrow> CommitEnded i e)"
  shows "output_serial K (pc_output pc') \<and> core K P s' oc' (pc_taken pc') (pc_idx pc') g x"
  using inv pc i com
proof (rule commit_one_result)
  let ?s = "sys_sched y"
  fix z sr outcome out1 oc1
  assume z: "tx_results ?s ! i = Some z" "execute_result z = Inr sr"
    and oc: "oc_commit (be_revm K) (be_status K) add i (s_txs ?s ! i) sr out (sys_oc y) = Some (outcome, out1, oc1)"
      "after_commit i outcome out1 oc1 (set_tx_result i None ?s) = Some (r, oc', s')" "length out = i"
    and fin: "i < block_size ?s" "status (tx_states ?s ! i) = Finality"
  note c = coreD [OF core] and f = commit_one_frame [OF com]
  have "exec_ok K P ?s i (g i) (x i) i" using c(4) [OF fin(1)] fin(2) by simp
  then have sr: "snd (x i) = sr" using z by (auto simp: exec_ok_def)
  have last: "Suc i \<le> sys_final y" using inv i by (auto simp: sched_inv_def final_ok_def)
  have "core K P ?s (sys_oc y) (pc_taken (sys_commit y)) i g x" using core pc by simp
  from final_chain [OF env inv this last] have res: "block_result K i = Inr sr" using sr by simp
  have tx: "i < length (be_txs K)" using fin(1) c(1) by simp
  have laws: "revm_laws (be_revm K)" using env by (simp add: env_ok_def)
  have ok: "output_ok (be_revm K) (be_code K) (oc_beneficiary (sys_oc y)) (block_world K i) sr"
    using env res tx unfolding env_ok_def block_result_def c(8) by blast
  note ret = oc_commit_returns [OF c(7) ok laws oc(1)]
  have stable: "stable_inv g s' (Suc i)" by (rule stable_commit [OF c(3) com fin(2)])
  show ?thesis
  proof (cases "world_nonce_ok (disable_nonce_check (sys_oc y)) (s_txs ?s ! i) (block_world K i)")
    case True
    then have r: "outcome = Inr (Committed (Suc i))" "out1 = out @ [OExecuted (sr_result sr)]" using ret oc(3) by simp_all
    then have after: "oc' = oc1" "pc' = CommitRunning (Suc i) out1"
      using oc(2) by (auto simp: after_commit_def pc' bind_eq_Some_conv)
    have ok': "committed_ok (be_revm K) (be_status K) (be_code K) (be_hash K) (be_start K) oc' (block_world K (Suc i))"
      using True ret c(8) res by (simp add: after serial_world_def)
    have "core K P s' oc' (Suc i) (Suc i) g x"
      by (rule core_taken [OF core _ _ _ _ _ stable ok']) (use f ret after in auto)
    then show ?thesis using output_serial_snoc [OF out, of sr] res oc(3) True c(1,9) r(2) by (simp add: after)
  next
    case False
    then have r: "outcome = Inr NeedsSequentialFallback" "out1 = out" using ret by simp_all
    then have after: "oc' = oc1" "pc' = CommitEnded i \<lparr>clr_committed = out, clr_error = None\<rparr>"
      using oc(2) by (auto simp: after_commit_def pc')
    have ok': "committed_ok (be_revm K) (be_status K) (be_code K) (be_hash K) (be_start K) oc' (block_world K i)"
      using False ret by (simp add: after)
    have "core K P s' oc' (Suc i) i g x" by (rule core_taken [OF core _ _ _ _ _ stable ok']) (use f ret after in auto)
    then show ?thesis using out by (simp add: after)
  qed
qed

section \<open>Every step keeps it\<close>

lemma now_reader:
  assumes "core K P s oc taken idx g x" and "seen (insert (world_now K s oc) P) v" and "idx \<le> t"
  shows "reader K (insert (world_now K s oc) P) t v"
proof -
  obtain p where "p \<in> insert (world_now K s oc) P" "w_db v = w_db p" using assms(2) unfolding seen_def by blast
  moreover from this(1) have "past_ok K s idx p" using coreD(5,6) [OF assms(1)] by blast
  ultimately obtain c where "c \<le> idx" "db_presents (be_revm K) (be_code K) (be_hash K) (be_start K) (block_world K c) (w_db v)"
    unfolding past_ok_def by auto
  then show ?thesis using assms(2,3) unfolding reader_def by (meson order_trans)
qed

lemma block_execute:
  assumes inv: "sched_inv y" and held: "Execution v \<in># sys_tasks y"
    and ex: "execute_task (be_revm K) executor v (sys_sched y) = Some (t, s')" and E: "executor \<in> block_executors K (insert (world_now K (sys_sched y) oc) P)"
    and core: "core K P (sys_sched y) oc (pc_taken (sys_commit y)) (pc_idx (sys_commit y)) g x"
  shows "\<exists>g x. core K (insert (world_now K (sys_sched y) oc) P) s' oc (pc_taken (sys_commit y)) (pc_idx (sys_commit y)) g x"
proof -
  let ?s = "sys_sched y" and ?t = "v_txid v" and ?Q = "insert (world_now K (sys_sched y) oc) P"
  note h = held_execution [OF inv held]
  from inv held ex obtain ie m s1 rw where run: "executor v (s_txs ?s ! ?t) (bump_metrics record_execution_attempt ?s) = Some (ie, m)"
    and eff: "exec_effect (be_revm K) v ie m ?s s1 rw" and s': "s' = s1 \<or> (\<exists>i. execution_task i s1 = Some (t, s'))"
    by (rule execute_task_effect)
  obtain W db db' where W: "\<And>n. seen ?Q (W n)" and kept: "reads_kept (be_revm K) W (be_prog K ?t (s_txs ?s ! ?t)) (begin_incarnation v db)"
    and inc: "execute_incarnation (be_revm K) W (be_prog K) (s_beneficiary ?s) v (s_txs ?s ! ?t) db (s_memory ?s) = Some (ie, db', m)"
    using E run unfolding block_executors_def by fastforce
  have "pc_idx (sys_commit y) \<le> pc_taken (sys_commit y)" by (cases "sys_commit y") auto
  moreover have "pc_taken (sys_commit y) \<le> ?t" using sched_inv_taken [OF inv h(1)] h(2) by simp
  ultimately have W': "reader K ?Q ?t (W n)" for n using now_reader [OF core W] by simp
  have txs: "s_txs ?s = be_txs K" by (rule coreD(1) [OF core])
  obtain g' x' where "core K ?Q s1 oc (pc_taken (sys_commit y)) (pc_idx (sys_commit y)) g' x'"
    using core_exec [OF inv held eff inc [unfolded txs] kept [unfolded txs] W' core_grow [OF core]] by blast
  then have "core K ?Q s' oc (pc_taken (sys_commit y)) (pc_idx (sys_commit y)) g' x'"
    using s' core_claims execution_task_claims by blast
  then show ?thesis by blast
qed

lemma block_inv_threads:
  assumes step: "sched_step (be_revm K) (be_status K) add (block_executors K (insert (world_now K (sys_sched y) (sys_oc y)) P)) y y'"
    and env: "env_ok K" and inv: "sched_inv y" and out: "output_serial K (pc_output (sys_commit y))"
    and core: "core K P (sys_sched y) (sys_oc y) (pc_taken (sys_commit y)) (pc_idx (sys_commit y)) g x"
  shows "output_serial K (pc_output (sys_commit y')) \<and>
    (\<exists>g x. core K (insert (world_now K (sys_sched y) (sys_oc y)) P) (sys_sched y') (sys_oc y') (pc_taken (sys_commit y')) (pc_idx (sys_commit y')) g x)"
  using step
proof cases
  case (claim t s')
  then show ?thesis using out core_claims [OF core_grow [OF core] next_iteration_claims [OF claim(2)]] by auto
next
  case (claim_validation i t s')
  then show ?thesis using out core_claims [OF core_grow [OF core] validation_task_claims [OF claim_validation(2)]] by auto
next
  case (claim_execution i t s')
  then show ?thesis using out core_claims [OF core_grow [OF core] execution_task_claims [OF claim_execution(2)]] by auto
next
  case (work task executor t s')
  show ?thesis
  proof (cases task)
    case (Execution v)
    then show ?thesis using work out block_execute [OF inv, of v K executor t s' "sys_oc y" P g x] core by (auto simp: worker_task_def)
  next
    case (Validation v)
    then have held: "Validation v \<in># sys_tasks y" and val: "validate v (sys_sched y) = Some s'"
      using work by (auto simp: worker_task_def)
    from inv held val obtain r c dep where "val_effect v r c dep (sys_sched y) s'" by (rule validate_effect)
    from core_val [OF inv held this core_grow [OF core]] show ?thesis using work(1) out by auto
  qed
next
  case (finality tx l first)
  then show ?thesis using out core_finality [OF core_grow [OF core] finality(2)] by auto
next
  case (commit i out1 r oc' s')
  from core_grow [OF core] commit(2) have "core K (insert (world_now K (sys_sched y) (sys_oc y)) P) (sys_sched y) (sys_oc y) i i g x" by simp
  from block_commit [OF env inv commit(2-4) this _ refl] show ?thesis using out commit(1,2) by auto
next
  case panic
  then show ?thesis using out core_claims [OF core_grow [OF core], of "cancel (sys_sched y)"] by auto
qed

lemma block_inv_step:
  assumes "block_step K add (y, P) (y', P')" and env: "env_ok K" and "block_inv K y P"
  shows "block_inv K y' P'"
proof -
  obtain g x where inv: "sched_inv y" "output_serial K (pc_output (sys_commit y))"
      "core K P (sys_sched y) (sys_oc y) (pc_taken (sys_commit y)) (pc_idx (sys_commit y)) g x"
    using assms(3) unfolding block_inv_def by blast
  from assms(1) show ?thesis
  proof cases
    case threads
    then show ?thesis using block_inv_threads [OF _ env inv] sched_inv_step inv(1) unfolding block_inv_def by blast
  next
    case (load ps)
    have "sched_inv y'" using inv(1) load(1) by (simp add: sched_inv_def)
    then show ?thesis using inv(2) core_load [OF core_grow [OF inv(3)] load(3)] load(1,2) unfolding block_inv_def by auto
  qed
qed

section \<open>The start\<close>

definition block_begin :: "('r, 'e) block_env \<Rightarrow> ('e, 't, 'b) ordered_committer \<Rightarrow> ('r, 'e, 't, 'b) sched_sys" where
  "block_begin K oc = block_start (be_txs K) (be_ben K) (pw_basic (be_start K) (be_ben K)) oc"

definition begin_ok :: "('r, 'e) block_env \<Rightarrow> ('e, 't, 'b) ordered_committer \<Rightarrow> bool" where
  "begin_ok K oc \<longleftrightarrow> committed_ok (be_revm K) (be_status K) (be_code K) (be_hash K) (be_start K) oc (be_start K) \<and>
    oc_beneficiary oc = be_ben K \<and> disable_nonce_check oc = be_free_nonce K"

lemma block_inv_begin:
  assumes "begin_ok K oc"
  shows "block_inv K (block_begin K oc) {}"
proof -
  let ?y = "block_begin K oc" and ?g = "\<lambda>_ :: tx_id. [] :: (location \<times> read_version) list"
  have oc: "sys_oc ?y = oc" "sys_commit ?y = CommitRunning 0 []" by (simp_all add: block_begin_def block_start_def sys_new_def)
  have s: "s_txs (sys_sched ?y) = be_txs K" "s_memory (sys_sched ?y) = (\<lambda>_. Map.empty)"
    "s_beneficiary (sys_sched ?y) = beneficiary_new (be_ben K) (pw_basic (be_start K) (be_ben K)) (length (be_txs K))"
    "\<And>t. t < length (be_txs K) \<Longrightarrow> status (tx_states (sys_sched ?y) ! t) = Initial"
    by (simp_all add: block_begin_def block_start_def sys_new_def scheduler_build_def tx_state_default_def)
  have ok: "committed_ok (be_revm K) (be_status K) (be_code K) (be_hash K) (be_start K) oc (be_start K)"
    using assms by (simp add: begin_ok_def)
  have "core K {} (sys_sched ?y) oc 0 0 ?g x" for x
  proof (rule coreI)
    show "stable_inv ?g (sys_sched ?y) 0" unfolding block_begin_def by (rule stable_start)
    show "past_ok K (sys_sched ?y) 0 (world_now K (sys_sched ?y) oc)"
      using committed_presents [OF ok] by (simp add: past_ok_def world_now_def s first_history_def beneficiary_new_def)
  qed (use assms ok s in \<open>simp_all add: begin_ok_def beneficiary_new_def\<close>)
  moreover have "sched_inv ?y" unfolding block_begin_def by (rule sched_inv_start)
  ultimately show ?thesis unfolding block_inv_def oc by (auto simp: output_serial_def)
qed

lemma block_inv_reachable:
  assumes "(block_step K add)\<^sup>*\<^sup>* (block_begin K oc, {}) (y, P)" and "env_ok K" and "begin_ok K oc"
  shows "block_inv K y P"
proof -
  have "case z of (y, P) \<Rightarrow> block_inv K y P" if "(block_step K add)\<^sup>*\<^sup>* (block_begin K oc, {}) z" for z
    using that
  proof (induction rule: rtranclp_induct)
    case (step z z')
    obtain y P y' P' where "z = (y, P)" "z' = (y', P')" by (cases z, cases z')
    then show ?case using step block_inv_step [OF _ assms(2), of add y P y' P'] by simp
  qed (simp add: block_inv_begin [OF assms(3)])
  from this [OF assms(1)] show ?thesis by simp
qed

section \<open>A concrete block\<close>

text \<open>Two transactions of one sender that increment the same slot.\<close>

definition sample_env :: "(nat, unit) block_env" where
  "sample_env = \<lparr>be_revm = sample_revm, be_status = sample_status, be_code = (\<lambda>_. [1]), be_hash = (\<lambda>_. 0), be_prog = (\<lambda>_. sample_counter),
     be_txs = [sample_commit_tx, sample_commit_tx\<lparr>tx_nonce := 2\<rparr>], be_ben = 9, be_start = sample_plain_world, be_free_nonce = False\<rparr>"

definition sample_oc :: "(unit, nat, unit) ordered_committer" where
  "sample_oc = committer_new 9 (parallel_state_new sample_state_db True 0 ()) False"

definition now_executor :: "sample_sys \<Rightarrow> (nat, unit) executor" where
  "now_executor y = world_executor (\<lambda>_. sample_counter) sample_revm (world_now sample_env (sys_sched y) (sys_oc y))"

lemma sample_begin_ok: "begin_ok sample_env sample_oc"
proof -
  have "db_consistent sample_revm sample_status sample_state_db" using sample_db_consistent by (simp add: sample_ps_def parallel_state_new_def)
  then show ?thesis
    by (simp add: begin_ok_def committed_ok_def committer_ok_def sample_status_laws sample_env_def sample_oc_def committer_new_def represents_def
        view_basic_def view_slot_def view_code_def view_block_hash_def cached_slot_def fetch_slot_def storage_known_def parallel_state_new_def
        cache_state_new_def sample_state_db_def sample_plain_world_def fetched_account_def loaded_account_def cache_account_new_def cache_ok_def
        sample_revm_def sample_contract_def)
qed

lemma sample_counter_output:
  assumes "serial_result sample_revm (\<lambda>_. [1]) bh (sample_counter tx) w = Inr sr"
  shows "output_ok sample_revm (\<lambda>_. [1]) 9 w sr"
proof (cases "pw_basic w (caller tx)")
  case None
  then have "sr = settled 0 []" using assms by (auto simp: serial_result_def sample_counter_def handler_result_def into_speculative_def)
  then show ?thesis by (simp add: output_ok_def settled_def)
next
  case (Some i)
  let ?acc = "sample_bumped (canon sample_revm (\<lambda>_. [1]) i) (pw_slot w (caller tx) 0)"
  have sr: "sr_state sr = [(caller tx, ?acc)]" "deferred_reward sr = None"
    using assms Some by (auto simp: serial_result_def sample_counter_def handler_result_def into_speculative_def settled_def)
  have acc: "acct_info ?acc = (canon sample_revm (\<lambda>_. [1]) i)\<lparr>info_nonce := info_nonce i + 1\<rparr>" "account_ready ?acc"
    by (simp_all add: sample_bumped_def canon_def sample_revm_def account_ready_def)
  have "finalized_account_from sample_revm ?acc = Created x \<or> finalized_account_from sample_revm ?acc = Updated x \<Longrightarrow> x = acct_info ?acc" for x
    by (auto simp: finalized_account_from_def sample_bumped_def split: if_splits)
  then show ?thesis unfolding output_ok_def sr using Some acc by (auto simp: canon_def sample_revm_def)
qed

lemma sample_env_ok: "env_ok sample_env"
proof -
  have "revm_laws sample_revm" by (auto simp: revm_laws_def sample_revm_def sample_info_def)
  moreover have "code_blind sample_revm (sample_counter tx)" for tx
    by (auto simp: sample_counter_def sample_bumped_def sample_revm_def split: option.split)
  ultimately show ?thesis using sample_counter_output
    by (auto simp: env_ok_def sample_env_def sample_plain_world_def coded_def sample_contract_def)
qed

lemma basic_account_reads:
  assumes op: "basic_account R W a db = Some (r, db1)" and l: "l \<noteq> LBasic a"
  shows "map_of (idb_read_set db1) l = map_of (idb_read_set db) l"
proof -
  have snap: "idb_read_set (snapshot_account R a acc d) = idb_read_set d" for acc d by (simp add: snapshot_account_def split: option.split)
  show ?thesis
  proof (cases "beneficiary_matches (w_ben (W (now db))) a")
    case True
    then obtain x where "resolve_before R (w_ben (W (now db))) (idb_txid db) = Some x" using op by (auto simp: basic_account_def bind_eq_Some_conv)
    then show ?thesis using op l True by (cases x) (auto simp: basic_account_def snap)
  next
    case False
    obtain hit ver dbp where probe: "mv_probe W (LBasic a) as_basic db = (hit, ver, dbp)" by (cases "mv_probe W (LBasic a) as_basic db")
    have "idb_read_set dbp = idb_read_set db" using probe by (auto simp: mv_probe_def split: option.splits prod.splits)
    then show ?thesis using op l False probe by (auto simp: basic_account_def snap split: option.splits sum.splits)
  qed
qed

lemma sample_reads_kept: "reads_kept R W (sample_counter tx) (begin_incarnation v db)"
proof -
  let ?a = "caller tx" and ?db = "begin_incarnation v db"
  have "kept db1 (idb_storage W ?a 0 db1) (\<lambda>_ _. True)" if op: "idb_basic R W ?a ?db = Some (Inr x, db1)" for x db1
  proof -
    have "map_of (idb_read_set db1) l = None" if l: "l = LStorageReset ?a \<or> l = LStorage ?a 0" for l
      using op
    proof (cases rule: idb_basic_cases)
      case 1
      then show ?thesis using l basic_account_reads [OF 1(1), of l] by (auto simp: begin_incarnation_def)
    next
      case (2 info c dba)
      then show ?thesis using l basic_account_reads [OF 2(1), of l] code_by_address_frame(4) [OF 2(4), of l] by (auto simp: begin_incarnation_def)
    qed
    moreover obtain z db2 where st: "idb_storage W ?a 0 db1 = (z, db2)" by fastforce
    moreover from st obtain rv sv where "map_of (idb_read_set db2) = (map_of (idb_read_set db1))(LStorageReset ?a \<mapsto> rv, LStorage ?a 0 \<mapsto> sv)"
      by (rule idb_storage_probes)
    ultimately show ?thesis by (auto simp: kept_def map_le_def split: sum.split)
  qed
  then show ?thesis
    by (auto simp: sample_counter_def kept_def begin_incarnation_def split: option.split sum.split)
qed

lemma now_executor_reads: "now_executor y \<in> block_executors sample_env (insert (world_now sample_env (sys_sched y) (sys_oc y)) P)"
proof -
  have "seen (insert w P) w" for w :: "unit world" unfolding seen_def by blast
  then show ?thesis using sample_reads_kept
    by (fastforce simp: block_executors_def now_executor_def world_executor_def sample_env_def)
qed

lemma block_run_steps:
  assumes "sched_run now_executor cs y = Some y'"
  shows "\<exists>P'. (block_step sample_env (\<lambda>_ t. t))\<^sup>*\<^sup>* (y, P) (y', P')"
  using assms
proof (induction cs arbitrary: y P)
  case (Cons c cs)
  then obtain y1 where y1: "sched_do now_executor c y = Some y1" "sched_run now_executor cs y1 = Some y'"
    by (auto simp: bind_eq_Some_conv)
  let ?Q = "insert (world_now sample_env (sys_sched y) (sys_oc y)) P"
  have "block_step sample_env (\<lambda>_ t. t) (y, P) (y1, ?Q)"
    by (rule block_step.threads [OF refl]) (use sched_do_step [OF y1(1) now_executor_reads, of P] in \<open>simp add: sample_env_def\<close>)
  moreover obtain P' where "(block_step sample_env (\<lambda>_ t. t))\<^sup>*\<^sup>* (y1, ?Q) (y', P')" using Cons.IH [OF y1(2)] by blast
  ultimately show ?case by (blast intro: converse_rtranclp_into_rtranclp)
qed auto

text \<open>Both transactions execute before either has published; the second reads a stale slot, fails its
  validation and runs again after the first is committed.\<close>

definition conflict_cmds :: "sched_cmd list" where
  "conflict_cmds =
    [DoNext, DoNext, DoWork (Execution (TxVersion 1 1)), DoWork (Execution (TxVersion 0 1)), DoNext, DoNext,
     DoWork (Validation (TxVersion 1 1)), DoWork (Validation (TxVersion 0 1)), DoFinality, DoCommit,
     DoNext, DoNext, DoWork (Execution (TxVersion 1 2)), DoWork (Validation (TxVersion 1 2)), DoFinality]"

lemma block_run_reachable:
  assumes "case sched_run now_executor cs (block_begin sample_env sample_oc) of None \<Rightarrow> False | Some y \<Rightarrow> Q y"
  shows "\<exists>y P. (block_step sample_env (\<lambda>_ t. t))\<^sup>*\<^sup>* (block_begin sample_env sample_oc, {}) (y, P) \<and> Q y"
  using assms block_run_steps [of cs "block_begin sample_env sample_oc" _ "{}"] by (auto split: option.splits)

section \<open>Properties\<close>

text \<open>\<^bold>\<open>C1\<close>. Parallel execution is serializable. Let workers execute, validate and re-execute in any
  interleaving with the finality and the commit thread, each database access of an incarnation
  seeing the memory, the beneficiary entries and the committed state of moments of their own. Let the
  transaction programs reach the state only through the database, let no incarnation replace the
  version an earlier read of it recorded (\<open>reads_kept\<close>; a storage reset read twice can break it and is then not
  caught by validation), and let a fill of the cache be one step. Then in every reachable state the
  ordered output lists, for exactly the committed prefix, the results the transactions have when run one
  after another on the block's starting world, each with an accepted nonce, and the committed
  state presents the world after that prefix.\<close>

theorem block_serializable:
  assumes "env_ok K" and "begin_ok K oc" and "(block_step K add)\<^sup>*\<^sup>* (block_begin K oc, {}) (y, P)"
    and "c = committed_idx (scheduler_ctx (sys_sched y))"
  shows "length (pc_output (sys_commit y)) = c \<and>
    (\<forall>k<c. \<exists>sr. block_result K k = Inr sr \<and> pc_output (sys_commit y) ! k = OExecuted (sr_result sr) \<and>
       world_nonce_ok (be_free_nonce K) (be_txs K ! k) (block_world K k)) \<and>
    represents (be_revm K) (be_status K) (oc_state (sys_oc y)) (block_world K c)"
proof -
  obtain g x where inv: "sched_inv y" "output_serial K (pc_output (sys_commit y))"
      "core K P (sys_sched y) (sys_oc y) (pc_taken (sys_commit y)) (pc_idx (sys_commit y)) g x"
    using block_inv_reachable [OF assms(3,1,2)] unfolding block_inv_def by blast
  have c: "pc_idx (sys_commit y) = c" "length (pc_output (sys_commit y)) = c"
    using inv(1) assms(4) by (simp_all add: sched_inv_def commit_ok_def)
  have "represents (be_revm K) (be_status K) (oc_state (sys_oc y)) (block_world K c)"
    using coreD(7) [OF inv(3)] c(1) by (simp add: committed_ok_def committer_ok_def)
  then show ?thesis using inv(2) c(2) unfolding output_serial_def by blast
qed

theorem block_serializable_witness:
  "\<exists>y P. (block_step sample_env (\<lambda>_ t. t))\<^sup>*\<^sup>* (block_begin sample_env sample_oc, {}) (y, P) \<and>
    committed_idx (scheduler_ctx (sys_sched y)) = 2 \<and> pc_output (sys_commit y) = [OExecuted 5, OExecuted 6] \<and>
    represents sample_revm sample_status (oc_state (sys_oc y)) (block_world sample_env 2)"
proof -
  have "case sched_run now_executor (conflict_cmds @ [DoCommit]) (block_begin sample_env sample_oc) of None \<Rightarrow> False
      | Some y \<Rightarrow> committed_idx (scheduler_ctx (sys_sched y)) = 2 \<and> pc_output (sys_commit y) = [OExecuted 5, OExecuted 6]"
    by code_simp
  from block_run_reachable [OF this] obtain y P
    where y: "(block_step sample_env (\<lambda>_ t. t))\<^sup>*\<^sup>* (block_begin sample_env sample_oc, {}) (y, P)"
      "committed_idx (scheduler_ctx (sys_sched y)) = 2" "pc_output (sys_commit y) = [OExecuted 5, OExecuted 6]" by blast
  from block_serializable [OF sample_env_ok sample_begin_ok y(1) refl] y show ?thesis by (auto simp: sample_env_def)
qed

text \<open>\<^bold>\<open>C3\<close>. Under the conditions of the machine's serializability (programs that reach the state only through the
  database, no incarnation that replaces the version an earlier read of it recorded, a fill of the
  cache in one step, a starting state that presents the starting world), a finalized transaction succeeds when the
  block is run serially. Until the commit thread takes its result, the result stored for it is that serial result; once
  it is committed, its place in the ordered output holds that serial result.\<close>

theorem final_result_serial:
  assumes "env_ok K" and "begin_ok K oc" and "(block_step K add)\<^sup>*\<^sup>* (block_begin K oc, {}) (y, P)"
    and "t < finality_idx (scheduler_ctx (sys_sched y))"
  shows "\<exists>sr. block_result K t = Inr sr \<and>
    (pc_taken (sys_commit y) \<le> t \<longrightarrow> (\<exists>r. tx_results (sys_sched y) ! t = Some r \<and> execute_result r = Inr sr)) \<and>
    (t < committed_idx (scheduler_ctx (sys_sched y)) \<longrightarrow> pc_output (sys_commit y) ! t = OExecuted (sr_result sr))"
proof -
  obtain g x where inv: "sched_inv y" "core K P (sys_sched y) (sys_oc y) (pc_taken (sys_commit y)) (pc_idx (sys_commit y)) g x"
      and out: "output_serial K (pc_output (sys_commit y))"
    using block_inv_reachable [OF assms(3,1,2)] unfolding block_inv_def by blast
  have t: "Suc t \<le> sys_final y" "t < block_size (sys_sched y)" "status (tx_states (sys_sched y) ! t) = Finality"
    using inv(1) assms(4) by (auto simp: sched_inv_def final_ok_def)
  have res: "block_result K t = Inr (snd (x t))" using final_chain [OF assms(1) inv t(1)] by simp
  have "exec_ok K P (sys_sched y) (pc_taken (sys_commit y)) (g t) (x t) t" using coreD(4) [OF inv(2) t(2)] t(3) by simp
  then have stored: "pc_taken (sys_commit y) \<le> t \<longrightarrow> (\<exists>r. tx_results (sys_sched y) ! t = Some r \<and> execute_result r = Inr (snd (x t)))"
    by (simp add: exec_ok_def)
  have "committed_idx (scheduler_ctx (sys_sched y)) = length (pc_output (sys_commit y))"
    using inv(1) by (simp add: sched_inv_def commit_ok_def)
  then have "t < committed_idx (scheduler_ctx (sys_sched y)) \<longrightarrow> pc_output (sys_commit y) ! t = OExecuted (sr_result (snd (x t)))"
    using out res by (auto simp: output_serial_def)
  then show ?thesis using res stored by blast
qed

theorem final_result_serial_witness:
  "\<exists>y P r sr. (block_step sample_env (\<lambda>_ t. t))\<^sup>*\<^sup>* (block_begin sample_env sample_oc, {}) (y, P) \<and>
    committed_idx (scheduler_ctx (sys_sched y)) = 1 \<and>
    block_result sample_env 0 = Inr sr \<and> pc_output (sys_commit y) ! 0 = OExecuted (sr_result sr) \<and>
    tx_results (sys_sched y) ! 1 = Some r \<and> execute_result r = block_result sample_env 1"
proof -
  have "case sched_run now_executor conflict_cmds (block_begin sample_env sample_oc) of None \<Rightarrow> False
      | Some y \<Rightarrow> committed_idx (scheduler_ctx (sys_sched y)) = 1 \<and> finality_idx (scheduler_ctx (sys_sched y)) = 2 \<and> pc_taken (sys_commit y) = 1"
    by code_simp
  from block_run_reachable [OF this] obtain y P
    where y: "(block_step sample_env (\<lambda>_ t. t))\<^sup>*\<^sup>* (block_begin sample_env sample_oc, {}) (y, P)"
      "committed_idx (scheduler_ctx (sys_sched y)) = 1" "finality_idx (scheduler_ctx (sys_sched y)) = 2" "pc_taken (sys_commit y) = 1" by blast
  note serial = final_result_serial [OF sample_env_ok sample_begin_ok y(1)]
  from serial [of 0] serial [of 1] y show ?thesis by fastforce
qed

end
