(* ===== verification/Signals.thy ===== *)
theory Signals
  imports Scheduler
begin

text \<open>
  What the operations of the scheduler do to its signals, the abort flag and the two wait slots: an
  operation leaves them alone or aborts, which raises the flag and notifies both threads.
\<close>

section \<open>Quiet operations\<close>

definition signals :: "('r, 'e) scheduler \<Rightarrow> bool \<times> wait_slot \<times> wait_slot" where
  "signals s = (s_abort s, finality_wait s, commit_wait s)"

definition quiet :: "('r, 'e) scheduler \<Rightarrow> ('r, 'e) scheduler \<Rightarrow> bool" where
  "quiet s s' \<longleftrightarrow> signals s' = signals s \<or> signals s' = signals (cancel s)"

lemma signals_cancel [simp]: "signals (cancel s) = (True, notify (finality_wait s), notify (commit_wait s))"
  by (simp add: signals_def cancel_def)

lemma signals_abort [simp]: "signals (abort a s) = signals (cancel s)"
  by (simp add: signals_def abort_def cancel_def)

lemma signals_fields [simp]:
  "signals (s\<lparr>s_memory := m\<rparr>) = signals s" "signals (s\<lparr>scheduler_ctx := c\<rparr>) = signals s" "signals (s\<lparr>tx_states := ts\<rparr>) = signals s"
  "signals (s\<lparr>tx_results := rs\<rparr>) = signals s" "signals (s\<lparr>s_beneficiary := b\<rparr>) = signals s" "signals (s\<lparr>s_dependency := d\<rparr>) = signals s"
  "signals (s\<lparr>s_metrics := k\<rparr>) = signals s" "signals (s\<lparr>s_abort_reason := a\<rparr>) = signals s"
  by (simp_all add: signals_def)

lemma signals_cong_cancel: "signals s = signals t \<Longrightarrow> signals (cancel s) = signals (cancel t)"
  by (simp add: signals_def cancel_def)

lemma quiet_same: "signals s' = signals s \<Longrightarrow> quiet s s'"
  by (simp add: quiet_def)

lemma quiet_abort [simp]: "quiet s (abort a s)"
  by (simp add: quiet_def)

lemma quiet_cong: "signals s = signals t \<Longrightarrow> signals s' = signals t' \<Longrightarrow> quiet s s' \<longleftrightarrow> quiet t t'"
  by (simp add: quiet_def signals_def cancel_def)

lemma quiet_fields [simp]:
  "quiet (s\<lparr>s_memory := m\<rparr>) s' = quiet s s'" "quiet (s\<lparr>scheduler_ctx := c\<rparr>) s' = quiet s s'" "quiet (s\<lparr>tx_results := rs\<rparr>) s' = quiet s s'"
  "quiet (s\<lparr>s_beneficiary := b\<rparr>) s' = quiet s s'" "quiet (s\<lparr>s_metrics := k\<rparr>) s' = quiet s s'"
  "quiet s (abort a (s'\<lparr>s_memory := m\<rparr>)) = quiet s (abort a s')" "quiet s (abort a (s'\<lparr>s_beneficiary := b\<rparr>)) = quiet s (abort a s')"
  "quiet s (abort a (s'\<lparr>s_metrics := k\<rparr>)) = quiet s (abort a s')" "quiet s (abort a (s'\<lparr>tx_results := rs\<rparr>)) = quiet s (abort a s')"
  by (rule quiet_cong; simp)+

lemma quiet_aborted: "quiet s s' \<Longrightarrow> s_abort s \<Longrightarrow> s_abort s'"
  by (auto simp: quiet_def signals_def cancel_def)

section \<open>The operations\<close>

lemma signals_on:
  "on_ctx f s = Some s' \<Longrightarrow> signals s' = signals s" "on_dependency g s = Some s' \<Longrightarrow> signals s' = signals s"
  by (auto simp: on_ctx_def on_dependency_def)

lemma signals_claims:
  "execution_task i s = Some (t, s') \<Longrightarrow> signals s' = signals s" "validation_task i s = Some (t, s') \<Longrightarrow> signals s' = signals s"
  by (auto simp: execution_task_def validation_task_def bind_eq_Some_conv split: if_splits)

lemma signals_next:
  assumes "next_iteration s = Some (t, s')"
  shows "signals s' = signals s"
proof -
  let ?i = "td_index (s_dependency s)"
  obtain b c1 where c1: "should_schedule ?i (scheduler_ctx s) = (b, c1)" by fastforce
  obtain v c2 where c2: "next_validation_idx ?i c1 = (v, c2)" by fastforce
  let ?s1 = "s\<lparr>scheduler_ctx := c2\<rparr>"
  obtain r s2 where r: "(case v of Some i \<Rightarrow> validation_task i ?s1 | None \<Rightarrow> Some (None, ?s1)) = Some (r, s2)"
    using assms by (auto simp: next_iteration_def c1 c2 Let_def bind_eq_Some_conv)
  have s2: "signals s2 = signals s" using r signals_claims(2) [of _ ?s1 r s2] by (cases v) auto
  show ?thesis
  proof (cases r)
    case (Some x)
    then show ?thesis using assms r s2 by (simp add: next_iteration_def c1 c2 Let_def)
  next
    case None
    then obtain e td where "(case e of Some i \<Rightarrow> execution_task i (s2\<lparr>s_dependency := td\<rparr>) | None \<Rightarrow> Some (None, s2\<lparr>s_dependency := td\<rparr>)) = Some (t, s')"
      using assms r by (auto simp: next_iteration_def c1 c2 Let_def bind_eq_Some_conv)
    then show ?thesis using s2 signals_claims(1) [of _ "s2\<lparr>s_dependency := td\<rparr>" t s'] by (cases e) auto
  qed
qed

lemma signals_settle: "settle_execution t acc s = Some (nxt, s') \<Longrightarrow> signals s' = signals s"
  by (auto simp: settle_execution_def Let_def bind_eq_Some_conv dest!: signals_on(2) split: if_splits)

lemma quiet_settle: "settle_failure t e acc s = Some s' \<Longrightarrow> quiet s s'"
  by (auto simp: settle_failure_def quiet_def Let_def bind_eq_Some_conv dest!: signals_on(2) split: if_splits)

lemma quiet_ok: "execute_ok R v sr acc s = Some (r, s') \<Longrightarrow> quiet s s'"
  by (auto simp: execute_ok_def Let_def bind_eq_Some_conv drop_stale_writes_def dest!: signals_settle
      intro: quiet_same split: if_splits option.splits)

lemma quiet_err: "execute_err v e acc s = Some (r, s') \<Longrightarrow> quiet s s'"
  by (auto simp: execute_err_def Let_def bind_eq_Some_conv estimate_last_writes_def dest!: quiet_settle split: if_splits option.splits)

lemma signals_done: "execute_done v c n nxt s = Some (t, s') \<Longrightarrow> signals s' = signals s"
  by (auto simp: execute_done_def Let_def bind_eq_Some_conv dest!: signals_on(1) signals_claims(1) split: if_splits option.splits)

lemma quiet_execute:
  assumes ex: "execute_task R executor v s = Some (t, s')"
  shows "quiet s s'"
proof -
  obtain tx where tx: "list_get (tx_states s) (v_txid v) = Some tx" using ex by (auto simp: execute_task_def Let_def bind_eq_Some_conv)
  show ?thesis
  proof (cases "status tx = Executing \<and> incarnation tx = v_incarnation v")
    case True
    then obtain e ie m where run: "list_get (s_txs s) (v_txid v) = Some e" "executor v e (bump_metrics record_execution_attempt s) = Some (ie, m)"
      using ex tx by (auto simp: execute_task_def Let_def bind_eq_Some_conv)
    let ?s2 = "(bump_metrics record_execution_attempt s)\<lparr>s_memory := m\<rparr>"
    obtain r s3 where ie: "(case ie_result ie of Inr sr \<Rightarrow> execute_ok R v sr (ie_accesses ie) ?s2 | Inl e \<Rightarrow> execute_err v e (ie_accesses ie) ?s2) = Some (r, s3)"
      using ex tx True run by (auto simp: execute_task_def Let_def bind_eq_Some_conv)
    then have fin: "(case r of Inl _ \<Rightarrow> Some (None, s3) | Inr (c, n, nxt) \<Rightarrow> execute_done v c n nxt s3) = Some (t, s')"
      using ex tx True run by (simp add: execute_task_def Let_def)
    have "quiet ?s2 s3" using ie by (cases "ie_result ie") (auto dest: quiet_ok quiet_err)
    then have "quiet s s3" by simp
    moreover have "signals s3 = signals s'" using fin by (cases r) (auto dest!: signals_done)
    ultimately show ?thesis using quiet_cong [of s s s3 s'] by simp
  next
    case False
    then show ?thesis using ex tx by (cases "status tx = Executing") (auto simp: execute_task_def Let_def intro: quiet_same)
  qed
qed

section \<open>Validation up to the wakeup\<close>

text \<open>\<open>validate\<close> up to the point where it has released its locks; the flag says whether it then looks whether to
  wake the finality thread.\<close>

definition finish_locked ::
  "tx_version \<Rightarrow> usize \<Rightarrow> location set \<Rightarrow> bool \<Rightarrow> tx_id option \<Rightarrow> ('r, 'e) scheduler \<Rightarrow> (bool \<times> ('r, 'e) scheduler) option" where
  "finish_locked v ts ws conflict dep s =
    do { let txid = v_txid v;
         (go, s1) \<leftarrow> (if conflict then validate_conflict v ws s else Some (True, s));
         if \<not> go then Some (False, s1)
         else do {
           s2 \<leftarrow> (if conflict then on_ctx (rewind_validation_to (txid + 1)) s1
                 else on_ctx (context_unconfirmed txid ts) s1);
           tx \<leftarrow> list_get (tx_states s2) txid;
           s3 \<leftarrow> requeue_conflict txid conflict dep
             (set_tx_state txid (tx\<lparr>status := (if conflict then Conflict else Unconfirmed), dependency := dep\<rparr>) s2);
           Some (True, s3) } }"

definition validate_locked :: "tx_version \<Rightarrow> ('r, 'e) scheduler \<Rightarrow> (bool \<times> ('r, 'e) scheduler) option" where
  "validate_locked v s =
    do { let txid = v_txid v;
         tx \<leftarrow> list_get (tx_states s) txid;
         tx_result \<leftarrow> list_get (tx_results s) txid;
         if status tx \<noteq> Validating then Some (False, s)
         else if incarnation tx \<noteq> v_incarnation v then
           Some (False, abort (ParallelError txid ''inconsistent incarnation during validation'') s)
         else
           let s1 = bump_metrics record_validation_attempt s
           in (case tx_result of
                 None \<Rightarrow> Some (False, abort (ParallelError txid ''transaction has no result during validation'') s1)
               | Some result \<Rightarrow>
                   (case execute_result result of
                      Inl _ \<Rightarrow> Some (False, abort (ParallelError txid ''failed transaction reached validation'') s1)
                    | Inr _ \<Rightarrow>
                        do { let (ts, c) = logical_timestamp (scheduler_ctx s1);
                             let s2 = s1\<lparr>scheduler_ctx := c\<rparr>;
                             (conflict, dep) \<leftarrow>
                               validate_reads (s_memory s2) (s_beneficiary s2) txid (read_set result) (False, None);
                             finish_locked v ts (write_set result) conflict dep s2 })) }"

abbreviation wake_after :: "tx_id \<Rightarrow> bool \<times> ('r, 'e) scheduler \<Rightarrow> ('r, 'e) scheduler" where
  "wake_after t x \<equiv> (if fst x then wake_finality t (snd x) else snd x)"

text \<open>The rest of \<open>validate\<close> is the wakeup.\<close>

lemma validate_finish_split: "validate_finish v ts ws c dep s = map_option (wake_after (v_txid v)) (finish_locked v ts ws c dep s)"
  by (simp add: validate_finish_def finish_locked_def Let_def map_option_bind case_prod_beta comp_def split: Option.bind_splits)

lemma validate_split: "validate v s = map_option (wake_after (v_txid v)) (validate_locked v s)"
  by (auto simp: validate_def validate_locked_def validate_finish_split Let_def case_prod_beta map_option_bind comp_def
      split: option.split sum.split Option.bind_split)

lemma quiet_finish:
  assumes "finish_locked v ts ws c dep s = Some (w, s')"
  shows "quiet s s'" and "w \<Longrightarrow> signals s' = signals s"
proof -
  obtain go s1 where s1: "(if c then validate_conflict v ws s else Some (True, s)) = Some (go, s1)"
    using assms by (auto simp: finish_locked_def Let_def bind_eq_Some_conv)
  have go: "go \<Longrightarrow> signals s1 = signals s" and stop: "quiet s s1"
    using s1 by (auto simp: validate_conflict_def Let_def bind_eq_Some_conv intro: quiet_same split: if_splits)
  have "quiet s s' \<and> (w \<longrightarrow> signals s' = signals s)"
  proof (cases go)
    case True
    then obtain s2 tx s3 where s2: "(if c then on_ctx (rewind_validation_to (v_txid v + 1)) s1 else on_ctx (context_unconfirmed (v_txid v) ts) s1) = Some s2"
      and s3: "requeue_conflict (v_txid v) c dep (set_tx_state (v_txid v) tx s2) = Some s3" "s' = s3"
      using assms s1 by (auto simp: finish_locked_def Let_def bind_eq_Some_conv)
    have "signals s2 = signals s1" using s2 by (cases c) (auto dest!: signals_on(1))
    moreover have "signals s3 = signals s2" using s3(1) by (auto simp: requeue_conflict_def dest!: signals_on(2) split: if_splits)
    ultimately show ?thesis using go [OF True] s3(2) by (simp add: quiet_same)
  next
    case False
    then show ?thesis using assms s1 stop by (auto simp: finish_locked_def Let_def)
  qed
  then show "quiet s s'" and "w \<Longrightarrow> signals s' = signals s" by blast+
qed

lemma quiet_validate:
  assumes val: "validate_locked v s = Some (w, s')"
  shows "quiet s s' \<and> (w \<longrightarrow> signals s' = signals s)"
proof -
  obtain tx where tx: "list_get (tx_states s) (v_txid v) = Some tx" using val by (auto simp: validate_locked_def Let_def bind_eq_Some_conv)
  obtain r where r: "list_get (tx_results s) (v_txid v) = Some r" using val tx by (auto simp: validate_locked_def Let_def bind_eq_Some_conv)
  show ?thesis
  proof (cases "status tx = Validating \<and> incarnation tx = v_incarnation v \<and> (\<exists>x sr. r = Some x \<and> execute_result x = Inr sr)")
    case True
    then obtain x sr where x: "r = Some x" "execute_result x = Inr sr" by blast
    let ?s2 = "(bump_metrics record_validation_attempt s)\<lparr>scheduler_ctx := snd (logical_timestamp (scheduler_ctx s))\<rparr>"
    obtain k dep where "finish_locked v (fst (logical_timestamp (scheduler_ctx s))) (write_set x) k dep ?s2 = Some (w, s')"
      using val tx r True x by (auto simp: validate_locked_def Let_def bind_eq_Some_conv case_prod_beta)
    from quiet_finish [OF this] show ?thesis by simp
  next
    case False
    then show ?thesis using val tx r
      by (auto simp: validate_locked_def Let_def intro: quiet_same split: if_splits option.splits sum.splits)
  qed
qed

lemma signals_wake: "s_abort (wake_finality t s) = s_abort s"
  by (simp add: wake_finality_def)

lemma aborted_validate: "validate v s = Some s' \<Longrightarrow> s_abort s \<Longrightarrow> s_abort s'"
  using quiet_validate quiet_aborted by (fastforce simp: validate_split signals_wake)

section \<open>Commit\<close>

lemma quiet_commit:
  assumes "commit_one R A add i out oc s = Some (r, oc', s')"
  shows "(\<exists>x. r = Inr x) \<and> signals s' = signals s \<or> (\<exists>e. r = Inl e) \<and> signals s' = signals (cancel s)"
proof -
  have after: "(\<exists>x. r = Inr x) \<and> signals s' = signals s1 \<or> (\<exists>e. r = Inl e) \<and> signals s' = signals (cancel s1)"
    if "after_commit i outcome out1 oc1 s1 = Some (r, oc', s')" for outcome out1 oc1 and s1 :: "('a, 'b) scheduler"
    using that by (cases outcome) (auto simp: after_commit_def bind_eq_Some_conv dest!: signals_on(2) split: commit_outcome.splits)
  obtain x where x: "list_get (tx_results s) i = Some x" using assms by (auto simp: commit_one_def bind_eq_Some_conv)
  have c: "signals (cancel (set_tx_result i None s)) = signals (cancel s)" by (rule signals_cong_cancel) simp
  show ?thesis
  proof (cases "\<exists>y sr. x = Some y \<and> execute_result y = Inr sr")
    case True
    then show ?thesis using assms x c by (auto simp: commit_one_def Let_def bind_eq_Some_conv dest!: after)
  next
    case False
    then show ?thesis using assms x c by (auto simp: commit_one_def Let_def split: option.splits sum.splits)
  qed
qed

end
