(* ===== verification/Config.thy ===== *)
theory Config
  imports Prelude
begin

text \<open>
  \<open>config.rs\<close> and \<open>delegated_safety/config.rs\<close>: the runtime configuration. The process environment and
  the available parallelism are arguments; whether a hard fork enables Prague is revm's answer for
  the spec.
\<close>

record delegated_safety_config =
  forbid_delegated_create :: bool
  reserve_delegated_balance :: bool

definition safety_disabled :: delegated_safety_config where
  "safety_disabled = \<lparr>forbid_delegated_create = False, reserve_delegated_balance = False\<rparr>"

definition create_only :: delegated_safety_config where
  "create_only = \<lparr>forbid_delegated_create = True, reserve_delegated_balance = False\<rparr>"

definition reserve_only :: delegated_safety_config where
  "reserve_only = \<lparr>forbid_delegated_create = False, reserve_delegated_balance = True\<rparr>"

definition safety_enabled :: delegated_safety_config where
  "safety_enabled = \<lparr>forbid_delegated_create = True, reserve_delegated_balance = True\<rparr>"

definition for_spec :: "bool \<Rightarrow> delegated_safety_config \<Rightarrow> delegated_safety_config" where
  "for_spec prague_enabled c = (if prague_enabled then c else safety_disabled)"

record grevm_config =
  concurrency_level :: usize
  force_sequential :: bool
  min_parallel_txs :: usize
  delegated_safety :: delegated_safety_config

definition config_default :: "usize option \<Rightarrow> grevm_config" where
  "config_default available_parallelism =
    \<lparr>concurrency_level = (case available_parallelism of None \<Rightarrow> 8 | Some n \<Rightarrow> n), force_sequential = False,
     min_parallel_txs = 64, delegated_safety = safety_disabled\<rparr>"

text \<open>An unset or unparsable variable gives the default.\<close>

definition env_or :: "(string \<Rightarrow> 'a option) \<Rightarrow> (string \<Rightarrow> string option) \<Rightarrow> string \<Rightarrow> 'a \<Rightarrow> 'a" where
  "env_or parse env name fallback =
    (case Option.bind (env name) parse of Some v \<Rightarrow> v | None \<Rightarrow> fallback)"

definition from_env :: "(string \<Rightarrow> string option) \<Rightarrow> usize option \<Rightarrow> grevm_config" where
  "from_env env available_parallelism =
    (let defaults = config_default available_parallelism
     in \<lparr>concurrency_level = env_or parse_usize env ''GREVM_CONCURRENT_LEVEL'' (concurrency_level defaults),
         force_sequential = env_or parse_bool env ''GREVM_FALLBACK_SEQUENTIAL'' (force_sequential defaults),
         min_parallel_txs = env_or parse_usize env ''GREVM_MIN_PARALLEL_TXS'' (min_parallel_txs defaults),
         delegated_safety = delegated_safety defaults\<rparr>)"

definition with_delegated_safety :: "delegated_safety_config \<Rightarrow> grevm_config \<Rightarrow> grevm_config" where
  "with_delegated_safety d c = c\<lparr>delegated_safety := d\<rparr>"

text \<open>Only a literal zero parses to zero: digits never make a number smaller.\<close>

lemma parse_digits_grows: "parse_digits acc cs = Some n \<Longrightarrow> acc \<le> n"
proof (induction cs arbitrary: acc)
  case (Cons c cs)
  then obtain d where "parse_digits (10 * acc + d) cs = Some n" by (auto simp: Let_def split: option.splits if_splits)
  then show ?case using Cons.IH by fastforce
qed simp

lemma digit_value_zero: "digit_value c = Some 0 \<longleftrightarrow> c = CHR ''0''"
proof
  assume "digit_value c = Some 0"
  then have "of_char c = (48 :: nat)" by (auto simp: digit_value_def Let_def split: if_splits)
  then have "of_char c = (of_char CHR ''0'' :: nat)" by simp
  then show "c = CHR ''0''" by (simp only: of_char_eq_iff)
qed (simp add: digit_value_def)

lemma parse_digits_zero: "parse_digits 0 cs = Some 0 \<longleftrightarrow> set cs \<subseteq> {CHR ''0''}"
proof (induction cs)
  case (Cons c cs)
  show ?case
  proof (cases "digit_value c")
    case (Some d)
    have "d = 0" if "parse_digits d cs = Some 0" using parse_digits_grows [OF that] by simp
    then show ?thesis using Some Cons digit_value_zero [of c] by (cases "d = 0") (auto simp: Let_def)
  next
    case None
    then show ?thesis using digit_value_zero [of c] by auto
  qed
qed simp

text \<open>One or more zeros after an optional plus sign.\<close>

definition zero_literal :: "string \<Rightarrow> bool" where
  "zero_literal s \<longleftrightarrow> (\<exists>n. s = replicate (Suc n) CHR ''0'' \<or> s = CHR ''+'' # replicate (Suc n) CHR ''0'')"

lemma all_zeros: "cs \<noteq> [] \<and> set cs \<subseteq> {CHR ''0''} \<longleftrightarrow> (\<exists>n. cs = replicate (Suc n) CHR ''0'')"
proof
  assume "cs \<noteq> [] \<and> set cs \<subseteq> {CHR ''0''}"
  then have "cs = replicate (Suc (length cs - 1)) CHR ''0''" by (metis Suc_diff_1 length_greater_0_conv replicate_eqI singletonD subsetD)
  then show "\<exists>n. cs = replicate (Suc n) CHR ''0''" by blast
qed auto

lemma parse_usize_zero: "parse_usize s = Some 0 \<longleftrightarrow> zero_literal s"
proof (cases s)
  case (Cons c cs)
  show ?thesis
  proof (cases "c = CHR ''+''")
    case True
    then show ?thesis using Cons all_zeros [of cs] by (auto simp: parse_usize_def zero_literal_def parse_digits_zero Let_def)
  next
    case False
    then show ?thesis using Cons all_zeros [of s] parse_digits_zero [of s] by (auto simp: parse_usize_def zero_literal_def Let_def)
  qed
qed (simp add: parse_usize_def zero_literal_def)

end
