(* ===== verification/Reserve.thy ===== *)
theory Reserve
  imports Model
begin

text \<open>
  \<open>delegated_safety/reserve.rs\<close>: the lazily built costs of later transactions, and the delegated debits
  that survive in revm's journal. \<open>Transaction::max_balance_spending\<close> is the argument \<open>spend\<close> (\<open>None\<close> for
  its overflow error) and \<open>Bytecode::is_eip7702\<close> the argument \<open>is_eip7702\<close>.
\<close>

section \<open>The planner\<close>

record account_reserve_schedule =
  txids :: "tx_id list"
  cost_from :: "u256 list"

record reserve_planner =
  rp_txs :: "tx_env list"
  rp_sender_index :: "(address \<rightharpoonup> tx_id list) option"
  rp_schedules :: "address \<rightharpoonup> account_reserve_schedule"

definition planner_new :: "tx_env list \<Rightarrow> reserve_planner" where
  "planner_new txs = \<lparr>rp_txs = txs, rp_sender_index = None, rp_schedules = Map.empty\<rparr>"

fun index_senders :: "tx_id \<Rightarrow> tx_env list \<Rightarrow> (address \<rightharpoonup> tx_id list) \<Rightarrow> (address \<rightharpoonup> tx_id list)" where
  "index_senders txid [] index = index"
| "index_senders txid (tx # rest) index =
    index_senders (Suc txid) rest
      (index(caller tx \<mapsto> (case index (caller tx) of None \<Rightarrow> [] | Some l \<Rightarrow> l) @ [txid]))"

definition sender_index :: "reserve_planner \<Rightarrow> (address \<rightharpoonup> tx_id list) \<times> reserve_planner" where
  "sender_index p =
    (case rp_sender_index p of
       Some index \<Rightarrow> (index, p)
     | None \<Rightarrow> (let index = index_senders 0 (rp_txs p) Map.empty in (index, p\<lparr>rp_sender_index := Some index\<rparr>)))"

text \<open>\<open>slice::partition_point\<close> on a partitioned slice.\<close>

definition partition_point :: "('a \<Rightarrow> bool) \<Rightarrow> 'a list \<Rightarrow> usize" where
  "partition_point p xs = length (takeWhile p xs)"

definition tx_cost :: "(tx_env \<Rightarrow> u256 option) \<Rightarrow> tx_env list \<Rightarrow> tx_id \<Rightarrow> u256" where
  "tx_cost spend txs txid = (case spend (txs ! txid) of Some c \<Rightarrow> c | None \<Rightarrow> - 1)"

definition build_schedule :: "(tx_env \<Rightarrow> u256 option) \<Rightarrow> tx_env list \<Rightarrow> tx_id list \<Rightarrow> account_reserve_schedule" where
  "build_schedule spend txs ids =
    \<lparr>txids = ids,
     cost_from = snd (fold (\<lambda>(index, txid) (suffix, costs).
         let suffix' = saturating_add suffix (tx_cost spend txs txid) in (suffix', costs[index := suffix']))
       (rev (enumerate 0 ids)) (0, replicate (length ids) 0))\<rparr>"

definition schedule_required_after :: "tx_id \<Rightarrow> account_reserve_schedule \<Rightarrow> u256" where
  "schedule_required_after txid sch =
    (let index = partition_point (\<lambda>candidate. candidate \<le> txid) (txids sch)
     in if index < length (cost_from sch) then cost_from sch ! index else 0)"

definition planner_schedule ::
  "(tx_env \<Rightarrow> u256 option) \<Rightarrow> address \<Rightarrow> tx_id list \<Rightarrow> reserve_planner \<Rightarrow> account_reserve_schedule \<times> reserve_planner" where
  "planner_schedule spend a ids p =
    (case rp_schedules p a of
       Some sch \<Rightarrow> (sch, p)
     | None \<Rightarrow> (let sch = build_schedule spend (rp_txs p) ids in (sch, p\<lparr>rp_schedules := (rp_schedules p)(a \<mapsto> sch)\<rparr>)))"

definition required_after ::
  "(tx_env \<Rightarrow> u256 option) \<Rightarrow> tx_id \<Rightarrow> address \<Rightarrow> reserve_planner \<Rightarrow> u256 \<times> reserve_planner" where
  "required_after spend txid a p =
    (let (index, p1) = sender_index p
     in case index a of
          None \<Rightarrow> (0, p1)
        | Some ids \<Rightarrow>
            if partition_point (\<lambda>candidate. candidate \<le> txid) ids = length ids then (0, p1)
            else let (sch, p2) = planner_schedule spend a ids p1 in (schedule_required_after txid sch, p2))"

section \<open>Delegated debits\<close>

datatype journal_entry =
    BalanceTransfer address address u256
  | AccountDestroyed address address u256
  | BalanceChange address u256
  | OtherEntry

record delegated_debit =
  dd_address :: address
  balance_before :: u256
  final_balance :: u256

fun is_root_value_transfer :: "tx_env \<Rightarrow> journal_entry \<Rightarrow> bool" where
  "is_root_value_transfer tx (BalanceTransfer from to balance) =
    (if from \<noteq> caller tx \<or> balance \<noteq> tx_value tx then False
     else case kind tx of TxCall target \<Rightarrow> to = target | TxCreate \<Rightarrow> True)"
| "is_root_value_transfer tx _ = False"

text \<open>The account an entry debits.\<close>

fun debit_source :: "journal_entry \<Rightarrow> address option" where
  "debit_source (BalanceTransfer from to balance) = (if from \<noteq> to \<and> balance \<noteq> 0 then Some from else None)"
| "debit_source (AccountDestroyed a target had_balance) = (if had_balance \<noteq> 0 then Some a else None)"
| "debit_source _ = None"

definition is_delegated :: "(bytecode \<Rightarrow> bool) \<Rightarrow> (address \<rightharpoonup> account_info) \<Rightarrow> address \<Rightarrow> bool" where
  "is_delegated is_eip7702 js a =
    (case Option.bind (js a) info_code of Some code \<Rightarrow> is_eip7702 code | None \<Rightarrow> False)"

text \<open>The loop over the entries from the checkpoint: the first matching root transfer is skipped once,
  then the first surviving debit of each delegated account is kept.\<close>

fun first_debits ::
  "(bytecode \<Rightarrow> bool) \<Rightarrow> (address \<rightharpoonup> account_info) \<Rightarrow> tx_env \<Rightarrow> usize \<Rightarrow> journal_entry list \<Rightarrow> bool \<Rightarrow>
    (address \<times> usize) list \<Rightarrow> (address \<times> usize) list" where
  "first_debits iz js tx i [] pending acc = acc"
| "first_debits iz js tx i (e # es) pending acc =
    (if pending \<and> is_root_value_transfer tx e then first_debits iz js tx (Suc i) es False acc
     else case debit_source e of
       None \<Rightarrow> first_debits iz js tx (Suc i) es pending acc
     | Some source \<Rightarrow>
         first_debits iz js tx (Suc i) es pending
           (if is_delegated iz js source \<and> map_of acc source = None then acc @ [(source, i)] else acc))"

definition undo_entry :: "address \<Rightarrow> journal_entry \<Rightarrow> u256 \<Rightarrow> u256" where
  "undo_entry a e balance =
    (case e of
       BalanceTransfer from to v \<Rightarrow>
         if from = a \<and> to \<noteq> a then saturating_add balance v
         else if to = a \<and> from \<noteq> a then saturating_sub balance v
         else balance
     | AccountDestroyed destroyed target had_balance \<Rightarrow>
         if destroyed = a then saturating_add balance had_balance
         else if target = a then saturating_sub balance had_balance
         else balance
     | BalanceChange changed old_balance \<Rightarrow> if changed = a then old_balance else balance
     | OtherEntry \<Rightarrow> balance)"

definition balance_before_entry :: "journal_entry list \<Rightarrow> usize \<Rightarrow> address \<Rightarrow> u256 \<Rightarrow> u256" where
  "balance_before_entry es entry_index a final = fold (undo_entry a) (rev (drop entry_index es)) final"

definition delegated_debits_since ::
  "(bytecode \<Rightarrow> bool) \<Rightarrow> (address \<rightharpoonup> account_info) \<Rightarrow> journal_entry list \<Rightarrow> usize \<Rightarrow> tx_env \<Rightarrow> delegated_debit list" where
  "delegated_debits_since iz js es checkpoint tx =
    List.map_filter (\<lambda>(a, i).
        map_option (\<lambda>info. \<lparr>dd_address = a, balance_before = balance_before_entry es i a (info_balance info),
          final_balance = info_balance info\<rparr>) (js a))
      (first_debits iz js tx checkpoint (drop checkpoint es) (tx_value tx \<noteq> 0) [])"

section \<open>The planner computes the future cost\<close>

text \<open>The maximum cost of the transactions of \<open>a\<close> strictly after \<open>txid\<close>, without saturation.\<close>

definition future_cost :: "(tx_env \<Rightarrow> u256 option) \<Rightarrow> tx_env list \<Rightarrow> tx_id \<Rightarrow> address \<Rightarrow> nat" where
  "future_cost spend txs txid a =
    (\<Sum>j \<leftarrow> filter (\<lambda>j. caller (txs ! j) = a \<and> txid < j) [0..<length txs]. unat (tx_cost spend txs j))"

fun sat_sum :: "u256 list \<Rightarrow> u256" where
  "sat_sum [] = 0"
| "sat_sum (c # cs) = saturating_add (sat_sum cs) c"

lemma unat_sat_sum: "unat (sat_sum cs) = min (sum_list (map unat cs)) (2 ^ 256 - 1)"
  by (induction cs) (auto simp: unat_saturating_add min_def)

lemma build_loop:
  assumes "k + length ids \<le> length C"
  shows "\<exists>C'. fold (\<lambda>(index, txid) (suffix, costs).
        let suffix' = saturating_add suffix (cost txid) in (suffix', costs[index := suffix']))
      (rev (enumerate k ids)) (0, C) = (sat_sum (map cost ids), C') \<and> length C' = length C \<and>
    (\<forall>j<length ids. C' ! (k + j) = sat_sum (map cost (drop j ids)))"
  using assms
proof (induction ids arbitrary: k)
  case (Cons x ids)
  let ?f = "\<lambda>(index, txid) (suffix, costs). let suffix' = saturating_add suffix (cost txid) in (suffix', costs[index := suffix'])"
  obtain C' where C': "fold ?f (rev (enumerate (Suc k) ids)) (0, C) = (sat_sum (map cost ids), C')" "length C' = length C"
    "\<forall>j<length ids. C' ! (Suc k + j) = sat_sum (map cost (drop j ids))"
    using Cons.IH [of "Suc k"] Cons.prems by auto
  let ?v = "saturating_add (sat_sum (map cost ids)) (cost x)"
  have "C'[k := ?v] ! (k + j) = sat_sum (map cost (drop j (x # ids)))" if "j < length (x # ids)" for j
    using C'(2,3) Cons.prems that by (cases j) auto
  then show ?case using C'(1,2) by (auto simp: Let_def)
qed simp

lemma build_schedule_cost:
  "txids (build_schedule spend txs ids) = ids" "length (cost_from (build_schedule spend txs ids)) = length ids"
  "j < length ids \<Longrightarrow> cost_from (build_schedule spend txs ids) ! j = sat_sum (map (tx_cost spend txs) (drop j ids))"
  using build_loop [of 0 ids "replicate (length ids) 0" "tx_cost spend txs"]
  by (auto simp: build_schedule_def)

lemma index_senders_eq:
  "index_senders i txs index a =
    (let l = filter (\<lambda>j. caller (txs ! (j - i)) = a) [i..<i + length txs]
     in if l = [] then index a else Some ((case index a of None \<Rightarrow> [] | Some x \<Rightarrow> x) @ l))"
proof (induction txs arbitrary: i index)
  case (Cons tx txs)
  have "[i..<i + length (tx # txs)] = i # [Suc i..<Suc i + length txs]" by (subst upt_rec) simp
  moreover have "filter (\<lambda>j. caller ((tx # txs) ! (j - i)) = a) [Suc i..<Suc i + length txs] =
      filter (\<lambda>j. caller (txs ! (j - Suc i)) = a) [Suc i..<Suc i + length txs]"
    by (rule filter_cong) (auto simp: nth_Cons')
  ultimately show ?case by (auto simp: Cons.IH Let_def)
qed simp

definition sender_txids :: "tx_env list \<Rightarrow> address \<Rightarrow> tx_id list" where
  "sender_txids txs a = filter (\<lambda>j. caller (txs ! j) = a) [0..<length txs]"

lemma index_senders_start:
  "index_senders 0 txs Map.empty a = (if sender_txids txs a = [] then None else Some (sender_txids txs a))"
  by (simp add: index_senders_eq sender_txids_def)

definition planner_ok :: "(tx_env \<Rightarrow> u256 option) \<Rightarrow> reserve_planner \<Rightarrow> bool" where
  "planner_ok spend p \<longleftrightarrow> (\<forall>index. rp_sender_index p = Some index \<longrightarrow> index = index_senders 0 (rp_txs p) Map.empty) \<and>
    (\<forall>a sch. rp_schedules p a = Some sch \<longrightarrow> sch = build_schedule spend (rp_txs p) (sender_txids (rp_txs p) a))"

lemma planner_new_ok: "planner_ok spend (planner_new txs)"
  by (simp add: planner_ok_def planner_new_def)

lemma sender_index_ok:
  assumes "planner_ok spend p" and "sender_index p = (index, p')"
  shows "index = index_senders 0 (rp_txs p) Map.empty" "planner_ok spend p'" "rp_txs p' = rp_txs p"
  using assms by (auto simp: sender_index_def planner_ok_def Let_def split: option.splits)

lemma dropWhile_sorted: "sorted xs \<Longrightarrow> dropWhile (\<lambda>x. x \<le> k) xs = filter (\<lambda>x. k < (x :: nat)) xs"
  by (induction xs) (auto intro!: filter_True [symmetric])

lemma schedule_required:
  assumes "sorted ids"
  shows "schedule_required_after txid (build_schedule spend txs ids) = sat_sum (map (tx_cost spend txs) (filter (\<lambda>j. txid < j) ids))"
proof -
  let ?i = "partition_point (\<lambda>c. c \<le> txid) ids"
  have "drop ?i ids = filter (\<lambda>j. txid < j) ids"
    by (simp add: partition_point_def dropWhile_eq_drop [symmetric] dropWhile_sorted [OF assms])
  moreover have "?i \<le> length ids" by (simp add: partition_point_def length_takeWhile_le)
  ultimately show ?thesis
    using build_schedule_cost(3) [of ?i ids spend txs]
    by (cases "?i < length ids") (auto simp: schedule_required_after_def build_schedule_cost Let_def)
qed

lemma required_after_correct:
  assumes ok: "planner_ok spend p"
  shows "fst (required_after spend txid a p) = sat_sum (map (tx_cost spend (rp_txs p)) (filter (\<lambda>j. txid < j) (sender_txids (rp_txs p) a))) \<and>
    planner_ok spend (snd (required_after spend txid a p)) \<and> rp_txs (snd (required_after spend txid a p)) = rp_txs p"
proof -
  let ?ids = "sender_txids (rp_txs p) a" and ?P = "\<lambda>c. c \<le> txid"
  obtain index p1 where p1: "sender_index p = (index, p1)" by fastforce
  note s = sender_index_ok [OF ok p1]
  have sorted: "sorted ?ids" unfolding sender_txids_def by (rule sorted_wrt_filter) simp
  have idx: "index a = (if ?ids = [] then None else Some ?ids)" by (simp add: s(1) index_senders_start)
  have all: "filter (\<lambda>j. txid < j) ?ids = []" if "partition_point ?P ?ids = length ?ids"
  proof -
    have "takeWhile ?P ?ids = ?ids"
      using that takeWhile_eq_take [of ?P ?ids] by (simp add: partition_point_def)
    then show ?thesis by (metis (mono_tags, lifting) filter_False not_less set_takeWhileD)
  qed
  obtain sch p2 where p2: "planner_schedule spend a ?ids p1 = (sch, p2)" by fastforce
  have sch: "sch = build_schedule spend (rp_txs p) ?ids" "planner_ok spend p2" "rp_txs p2 = rp_txs p"
    using p2 s(2,3) by (auto simp: planner_schedule_def planner_ok_def Let_def split: option.splits if_splits)
  show ?thesis
  proof (cases "?ids = [] \<or> partition_point ?P ?ids = length ?ids")
    case True
    then show ?thesis using idx s p1 all by (auto simp: required_after_def)
  next
    case False
    then show ?thesis using idx s p1 p2 sch schedule_required [OF sorted, of txid spend "rp_txs p"]
      by (auto simp: required_after_def)
  qed
qed

section \<open>The journal reverses exactly\<close>

text \<open>What a journal entry records about balances: revm writes it when it makes exactly this change.\<close>

inductive journal_step :: "journal_entry \<Rightarrow> (address \<Rightarrow> u256) \<Rightarrow> (address \<Rightarrow> u256) \<Rightarrow> bool" where
  transfer: "from \<noteq> to \<Longrightarrow> v \<le> b from \<Longrightarrow> unat (b to) + unat v < 2 ^ 256 \<Longrightarrow>
    journal_step (BalanceTransfer from to v) b (b(from := b from - v, to := b to + v))"
| self_transfer: "journal_step (BalanceTransfer a a v) b b"
| destroy: "a \<noteq> target \<Longrightarrow> unat (b target) + unat (b a) < 2 ^ 256 \<Longrightarrow>
    journal_step (AccountDestroyed a target (b a)) b (b(a := 0, target := b target + b a))"
| burn: "journal_step (AccountDestroyed a a (b a)) b (b(a := 0))"
| change: "journal_step (BalanceChange a (b a)) b (b(a := x))"
| other: "journal_step OtherEntry b b"

inductive_cases journal_stepE: "journal_step e b b'"

fun journal_run :: "journal_entry list \<Rightarrow> (address \<Rightarrow> u256) \<Rightarrow> (address \<Rightarrow> u256) \<Rightarrow> bool" where
  "journal_run [] b b' \<longleftrightarrow> b' = b"
| "journal_run (e # es) b b' \<longleftrightarrow> (\<exists>b1. journal_step e b b1 \<and> journal_run es b1 b')"

lemma saturating_add_sub: "v \<le> x \<Longrightarrow> saturating_add (x - v) v = (x :: u256)"
proof (rule word_unat_eq_iff [THEN iffD2])
  assume "v \<le> x"
  moreover have "unat x < 2 ^ LENGTH(256)" by (rule unsigned_less)
  ultimately show "unat (saturating_add (x - v) v) = unat x"
    unfolding unat_saturating_add by (simp add: unat_sub word_le_nat_alt)
qed

lemma saturating_add_0: "saturating_add 0 x = (x :: u256)"
  using saturating_add_sub [of x x] by simp

lemma saturating_sub_add: "unat x + unat v < 2 ^ 256 \<Longrightarrow> saturating_sub (x + v) v = (x :: u256)"
  by (simp add: saturating_sub_def word_le_nat_alt unat_word_ariths)

lemma undo_step: "journal_step e b b' \<Longrightarrow> undo_entry a e (b' a) = b a"
  by (erule journal_stepE) (auto simp: undo_entry_def saturating_add_sub saturating_sub_add saturating_add_0)

lemma undo_run: "journal_run es b b' \<Longrightarrow> fold (undo_entry a) (rev es) (b' a) = b a"
proof (induction es arbitrary: b)
  case (Cons e es)
  then obtain b1 where "journal_step e b b1" "journal_run es b1 b'" by auto
  then show ?case using Cons.IH undo_step by simp
qed simp

section \<open>Properties\<close>

text \<open>\<^bold>\<open>C37\<close>. The lazily built schedules are exact: whatever was computed and cached before, the reserve a
  planner returns for an account is the saturated sum of the maximum costs of that account's
  transactions strictly after the given one (an overflowing cost counts as the largest
  \<open>U256\<close>), and the planner stays consistent.\<close>

theorem required_after_exact:
  assumes "planner_ok spend p"
  shows "unat (fst (required_after spend txid a p)) = min (future_cost spend (rp_txs p) txid a) (2 ^ 256 - 1) \<and>
    planner_ok spend (snd (required_after spend txid a p))"
proof -
  have "filter (\<lambda>j. txid < j) (sender_txids (rp_txs p) a) =
      filter (\<lambda>j. caller (rp_txs p ! j) = a \<and> txid < j) [0..<length (rp_txs p)]"
    by (simp add: sender_txids_def conj_commute)
  then show ?thesis using required_after_correct [OF assms, of txid a]
    by (simp add: unat_sat_sum future_cost_def comp_def)
qed

definition sample_senders :: "tx_env list" where
  "sample_senders = map (\<lambda>c. \<lparr>caller = c, tx_nonce = 0, tx_value = 3, kind = TxCreate\<rparr>) [1, 2, 1, 1]"

theorem required_after_exact_witness:
  "unat (fst (required_after (\<lambda>tx. Some (tx_value tx)) 0 1 (planner_new sample_senders))) = 6"
  using required_after_exact [OF planner_new_ok, of "\<lambda>tx. Some (tx_value tx)" 0 1 sample_senders]
  by (simp add: planner_new_def future_cost_def sample_senders_def tx_cost_def upt_rec)

text \<open>\<^bold>\<open>C38\<close>. Undoing the surviving journal gives back the true balance: when the journal from an entry on
  records what happened to the balances, \<open>balance_before_entry\<close> applied to the final balance is
  the balance the account had before that entry.\<close>

theorem balance_before_exact:
  assumes "journal_run (drop k es) b b'"
  shows "balance_before_entry es k a (b' a) = b a"
  using undo_run [OF assms] by (simp add: balance_before_entry_def)

theorem balance_before_exact_witness:
  "balance_before_entry [OtherEntry, BalanceTransfer 1 2 4, AccountDestroyed 3 1 5] 1 1 6 = 5"
proof -
  let ?b = "(\<lambda>_. 0)(1 := 5 :: u256, 3 := 5)"
  let ?b1 = "?b(1 := 5 - 4, 2 := 4)"
  have "journal_step (BalanceTransfer 1 2 4) ?b ?b1"
    using transfer [of 1 2 4 ?b] by simp
  moreover have "journal_step (AccountDestroyed 3 1 5) ?b1 (?b1(3 := 0, 1 := 6))"
    using destroy [of 3 1 ?b1] by simp
  ultimately have "journal_run (drop 1 [OtherEntry, BalanceTransfer 1 2 4, AccountDestroyed 3 1 5]) ?b (?b1(3 := 0, 1 := 6))"
    by auto
  from balance_before_exact [OF this, of 1] show ?thesis by simp
qed

end
