(* ===== verification/Control.thy ===== *)
theory Control
  imports Serializability Signals Config Reserve
begin

text \<open>
  The public control flow of \<open>scheduler.rs\<close> and \<open>scheduler/control.rs\<close>: construction, the choice between
  parallel and sequential execution, the thread scope, and what follows it. The threads interleave
  freely, so the parallel execution is a relation between the states before and after the call.
\<close>

section \<open>The scheduler handle\<close>

text \<open>The scheduler with the parts of it that the threads do not share: its configuration, the reserve
  planner, the block's beneficiary, the nonce switch and the locked state.\<close>

record ('r, 'e, 't, 'b) handle =
  h_sched :: "('r, 'e) scheduler"
  h_config :: grevm_config
  h_planner :: "reserve_planner option"
  h_beneficiary :: address
  h_disable_nonce_check :: bool
  h_state :: "('e, 't, 'b) parallel_state"

text \<open>\<open>build\<close>: the safety policies count only once the spec activates Prague, and a planner exists only for
  the reserve policy. The beneficiary aggregate is set by each parallel execution.\<close>

definition handle_build ::
  "bool \<Rightarrow> address \<Rightarrow> bool \<Rightarrow> tx_env list \<Rightarrow> ('e, 't, 'b) parallel_state \<Rightarrow> grevm_config \<Rightarrow> ('r, 'e, 't, 'b) handle" where
  "handle_build prague ben disable_nonce txs state config =
    (let config = config\<lparr>delegated_safety := for_spec prague (delegated_safety config)\<rparr>
     in \<lparr>h_sched = scheduler_build txs (beneficiary_new ben None (length txs)), h_config = config,
         h_planner = (if reserve_delegated_balance (delegated_safety config) then Some (planner_new txs) else None),
         h_beneficiary = ben, h_disable_nonce_check = disable_nonce, h_state = state\<rparr>)"

definition new_with_runtime_config ::
  "bool \<Rightarrow> address \<Rightarrow> bool \<Rightarrow> tx_env list \<Rightarrow> ('e, 't, 'b) parallel_state \<Rightarrow> grevm_config \<Rightarrow> ('r, 'e, 't, 'b) handle option" where
  "new_with_runtime_config prague ben disable_nonce txs state config =
    (if concurrency_level config > 0 then Some (handle_build prague ben disable_nonce txs state config) else None)"

definition handle_new ::
  "(string \<Rightarrow> string option) \<Rightarrow> usize option \<Rightarrow> bool \<Rightarrow> address \<Rightarrow> bool \<Rightarrow> tx_env list \<Rightarrow> ('e, 't, 'b) parallel_state \<Rightarrow>
    ('r, 'e, 't, 'b) handle option" where
  "handle_new env available prague ben disable_nonce txs state =
    new_with_runtime_config prague ben disable_nonce txs state (from_env env available)"

section \<open>The thread scope\<close>

text \<open>The shared state when the scope opens.\<close>

definition scope_start :: "account_info option \<Rightarrow> ('e, 't, 'b) parallel_state \<Rightarrow> ('r, 'e, 't, 'b) handle \<Rightarrow> ('r, 'e, 't, 'b) sched_sys" where
  "scope_start anchor ps h =
    \<lparr>sys_sched = (h_sched h)\<lparr>s_beneficiary := beneficiary_new (h_beneficiary h) anchor (block_size (h_sched h))\<rparr>,
     sys_tasks = {#}, sys_final = 0, sys_lower = 0, sys_commit = CommitRunning 0 [],
     sys_oc = committer_new (h_beneficiary h) ps (h_disable_nonce_check h)\<rparr>"

text \<open>All threads have left their loops: the workers hold no task and there is none left or an abort, and
  the finality and the commit thread are through the block or aborted.\<close>

definition scope_joined :: "('r, 'e, 't, 'b) sched_sys \<Rightarrow> bool" where
  "scope_joined y \<longleftrightarrow> sys_tasks y = {#} \<and>
    (finished (scheduler_ctx (sys_sched y)) \<or> is_aborted (sys_sched y)) \<and>
    (block_size (sys_sched y) \<le> sys_final y \<or> is_aborted (sys_sched y)) \<and>
    (case sys_commit y of CommitEnded i r \<Rightarrow> True | CommitRunning i out \<Rightarrow> block_size (sys_sched y) \<le> i \<or> is_aborted (sys_sched y))"

text \<open>What follows the scope: the committed prefix is installed, then recovery or success.\<close>

definition after_scope ::
  "(tx_id \<Rightarrow> tx_env \<Rightarrow> ('e, 't, 'b) parallel_state \<Rightarrow> (('e evm_error + 'r) \<times> ('e, 't, 'b) parallel_state) option) \<Rightarrow>
    ('r, 'e, 't, 'b) sched_sys \<Rightarrow> (('e grevm_error + unit) \<times> ('e, 't, 'b) parallel_state \<times> ('r, 'e) scheduler) option" where
  "after_scope tr y =
    do { (committed, s) \<leftarrow> install_commit_loop_result (pc_result (sys_commit y)) (sys_sched y);
         let ps = oc_state (sys_oc y);
         (case committed of
            Inl e \<Rightarrow> Some (Inl e, ps, s)
          | Inr boundary \<Rightarrow> post_execute tr boundary ps s) }"

section \<open>Execution\<close>

definition runs_sequentially :: "('r, 'e, 't, 'b) handle \<Rightarrow> bool" where
  "runs_sequentially h \<longleftrightarrow> force_sequential (h_config h) \<or> block_size (h_sched h) < min_parallel_txs (h_config h)"

inductive parallel_execute_inner ::
  "('r, 'e) block_env \<Rightarrow> ((address \<times> transition_account) list \<Rightarrow> 't \<Rightarrow> 't) \<Rightarrow>
    (tx_id \<Rightarrow> tx_env \<Rightarrow> ('e, 't, 'b) parallel_state \<Rightarrow> (('e evm_error + 'r) \<times> ('e, 't, 'b) parallel_state) option) \<Rightarrow>
    ('r, 'e, 't, 'b) handle \<Rightarrow> 'e grevm_error + unit \<Rightarrow> ('e, 't, 'b) parallel_state \<Rightarrow> ('r, 'e) scheduler \<Rightarrow> bool" for K add tr h where
  sequential: "runs_sequentially h \<Longrightarrow> scheduler_replay tr 0 (h_state h) (h_sched h) = Some (r, ps, s) \<Longrightarrow>
    parallel_execute_inner K add tr h r ps s"
| anchor_error: "\<not> runs_sequentially h \<Longrightarrow> db_basic (be_revm K) (h_beneficiary h) (h_state h) = (Inl e, ps) \<Longrightarrow>
    parallel_execute_inner K add tr h (Inl (GrevmError 0 (DatabaseError e))) ps (h_sched h)"
| parallel: "\<not> runs_sequentially h \<Longrightarrow> db_basic (be_revm K) (h_beneficiary h) (h_state h) = (Inr anchor, ps0) \<Longrightarrow>
    (block_step K add)\<^sup>*\<^sup>* (scope_start anchor ps0 h, {}) (y, P) \<Longrightarrow> scope_joined y \<Longrightarrow>
    after_scope tr y = Some (r, ps, s) \<Longrightarrow> parallel_execute_inner K add tr h r ps s"

text \<open>\<open>parallel_execute\<close> with its assertion, and \<open>execute\<close>; a call that panics is related to nothing.\<close>

inductive parallel_execute ::
  "('r, 'e) block_env \<Rightarrow> ((address \<times> transition_account) list \<Rightarrow> 't \<Rightarrow> 't) \<Rightarrow>
    (tx_id \<Rightarrow> tx_env \<Rightarrow> ('e, 't, 'b) parallel_state \<Rightarrow> (('e evm_error + 'r) \<times> ('e, 't, 'b) parallel_state) option) \<Rightarrow> usize option \<Rightarrow>
    ('r, 'e, 't, 'b) handle \<Rightarrow> 'e grevm_error + unit \<Rightarrow> ('r, 'e, 't, 'b) handle \<Rightarrow> bool" for K add tr level h where
  refused: "(case level of Some n \<Rightarrow> n | None \<Rightarrow> concurrency_level (h_config h)) > 0 \<Longrightarrow> once_begin (h_sched h) = Inl e \<Longrightarrow>
    parallel_execute K add tr level h (Inl e) h"
| elected: "(case level of Some n \<Rightarrow> n | None \<Rightarrow> concurrency_level (h_config h)) > 0 \<Longrightarrow> once_begin (h_sched h) = Inr s \<Longrightarrow>
    parallel_execute_inner K add tr (h\<lparr>h_sched := s\<rparr>) r ps s' \<Longrightarrow>
    parallel_execute K add tr level h r (h\<lparr>h_sched := once_end s', h_state := ps\<rparr>)"

definition execute ::
  "('r, 'e) block_env \<Rightarrow> ((address \<times> transition_account) list \<Rightarrow> 't \<Rightarrow> 't) \<Rightarrow>
    (tx_id \<Rightarrow> tx_env \<Rightarrow> ('e, 't, 'b) parallel_state \<Rightarrow> (('e evm_error + 'r) \<times> ('e, 't, 'b) parallel_state) option) \<Rightarrow>
    ('r, 'e, 't, 'b) handle \<Rightarrow> 'e grevm_error + unit \<Rightarrow> ('r, 'e, 't, 'b) handle \<Rightarrow> bool" where
  "execute K add tr = parallel_execute K add tr None"

section \<open>An abort stays\<close>

definition ended_aborted :: "('r, 'e, 't, 'b) sched_sys \<Rightarrow> bool" where
  "ended_aborted y \<longleftrightarrow> (case sys_commit y of CommitEnded i r \<Rightarrow> s_abort (sys_sched y) | CommitRunning i out \<Rightarrow> True)"

lemma aborted_step:
  assumes "sched_step R A add E y y'" and "ended_aborted y"
  shows "ended_aborted y'"
  using assms
proof (induction rule: sched_step.induct)
  case (claim y t s')
  then show ?case using signals_next [OF claim(1)] by (auto simp: ended_aborted_def signals_def split: commit_pc.splits)
next
  case (claim_validation i y t s')
  then show ?case using signals_claims(2) [OF claim_validation(1)] by (auto simp: ended_aborted_def signals_def split: commit_pc.splits)
next
  case (claim_execution i y t s')
  then show ?case using signals_claims(1) [OF claim_execution(1)] by (auto simp: ended_aborted_def signals_def split: commit_pc.splits)
next
  case (work task y executor t s')
  have "s_abort s'" if "s_abort (sys_sched y)"
  proof (cases task)
    case (Execution v)
    then show ?thesis using work(3) that quiet_aborted [OF quiet_execute] by (simp add: worker_task_def)
  next
    case (Validation v)
    then show ?thesis using work(3) that aborted_validate by (auto simp: worker_task_def)
  qed
  then show ?case using work(4) by (auto simp: ended_aborted_def split: commit_pc.splits)
next
  case (commit y i out r oc' s')
  then show ?case using quiet_commit [OF commit(3)] by (auto simp: ended_aborted_def signals_def cancel_def split: sum.splits)
qed (auto simp: ended_aborted_def finalize_candidate_def cancel_def Let_def split: commit_pc.splits)

section \<open>The block inside the handle\<close>

text \<open>The invariant does not look at the flag of \<open>run_once\<close> and at the metrics.\<close>

lemma block_inv_fields:
  assumes "block_inv K y P"
  shows "block_inv K (y\<lparr>sys_sched := (sys_sched y)\<lparr>started := b, s_metrics := m\<rparr>\<rparr>) P"
proof -
  let ?s = "(sys_sched y)\<lparr>started := b, s_metrics := m\<rparr>"
  obtain g x where inv: "sched_inv y" "output_serial K (pc_output (sys_commit y))"
      "core K P (sys_sched y) (sys_oc y) (pc_taken (sys_commit y)) (pc_idx (sys_commit y)) g x"
    using assms unfolding block_inv_def by blast
  have "sched_inv (y\<lparr>sys_sched := ?s\<rparr>)" using inv(1) by (simp add: sched_inv_def shape_ok_def tx_ok_def final_ok_def commit_ok_def)
  moreover have "claims (sys_sched y) ?s" by (simp add: claims_def claimed_def)
  from core_claims [OF inv(3) this] have "core K P ?s (sys_oc y) (pc_taken (sys_commit y)) (pc_idx (sys_commit y)) g x" .
  ultimately show ?thesis using inv(2) unfolding block_inv_def by auto
qed

lemma block_steps_inv:
  assumes "(block_step K add)\<^sup>*\<^sup>* z z'" and "env_ok K" and "block_inv K (fst z) (snd z)" and "ended_aborted (fst z)"
  shows "block_inv K (fst z') (snd z') \<and> ended_aborted (fst z')"
  using assms(1)
proof (induction rule: rtranclp_induct)
  case (step z1 z2)
  obtain y P y' P' where z: "z1 = (y, P)" "z2 = (y', P')" by (cases z1, cases z2)
  have "ended_aborted y'" using step(2,3) unfolding z
    by (cases rule: block_step.cases) (auto dest: aborted_step simp: ended_aborted_def split: commit_pc.splits)
  then show ?case using step block_inv_step [OF _ assms(2), of add y P y' P'] z by simp
qed (use assms in simp)

lemma scope_start_inv:
  assumes "begin_ok K (committer_new (be_ben K) ps (be_free_nonce K))" and "once_begin (scheduler_build (be_txs K) b) = Inr s"
    and h: "h_sched h = s" "h_beneficiary h = be_ben K" "h_disable_nonce_check h = be_free_nonce K"
    and load: "db_basic (be_revm K) (be_ben K) ps = (Inr anchor, ps0)"
  shows "block_inv K (scope_start anchor ps0 h) {} \<and> ended_aborted (scope_start anchor ps0 h)"
proof -
  let ?oc = "committer_new (be_ben K) ps (be_free_nonce K)"
  have ok: "committed_ok (be_revm K) (be_status K) (be_code K) (be_hash K) (be_start K) ?oc (be_start K)"
    using assms(1) by (simp add: begin_ok_def)
  have oc: "oc_state ?oc = ps" "?oc\<lparr>oc_state := ps0\<rparr> = committer_new (be_ben K) ps0 (be_free_nonce K)" by (simp_all add: committer_new_def)
  have anchor: "anchor = pw_basic (be_start K) (be_ben K)"
    and ok0: "committed_ok (be_revm K) (be_status K) (be_code K) (be_hash K) (be_start K) (committer_new (be_ben K) ps0 (be_free_nonce K)) (be_start K)"
    using committed_state_load [OF ok, of "be_ben K"] load oc by auto
  let ?y = "block_begin K (committer_new (be_ben K) ps0 (be_free_nonce K)) :: ('a, 'b, 'c, 'd) sched_sys"
  have "begin_ok K (committer_new (be_ben K) ps0 (be_free_nonce K))" using ok0 assms(1) by (simp add: begin_ok_def committer_new_def)
  from block_inv_fields [OF block_inv_begin [OF this]]
  have "block_inv K (?y\<lparr>sys_sched := (sys_sched ?y)\<lparr>started := True, s_metrics := s_metrics s\<rparr>\<rparr>) {}" .
  moreover have "scope_start anchor ps0 h = ?y\<lparr>sys_sched := (sys_sched ?y)\<lparr>started := True, s_metrics := s_metrics s\<rparr>\<rparr>"
    using assms(2) h anchor
    by (auto simp: scope_start_def once_begin_def block_begin_def block_start_def sys_new_def scheduler_build_def Let_def)
  ultimately show ?thesis by (simp add: ended_aborted_def block_begin_def block_start_def sys_new_def)
qed

text \<open>What the call returns: a replay of the rest of the block from a committed prefix, or an error at one.\<close>

definition resumes ::
  "('r, 'e) block_env \<Rightarrow> (tx_id \<Rightarrow> tx_env \<Rightarrow> ('e, 't, 'b) parallel_state \<Rightarrow> (('e evm_error + 'r) \<times> ('e, 't, 'b) parallel_state) option) \<Rightarrow>
    'r tx_execution_outcome list \<Rightarrow> ('e, 't, 'b) parallel_state \<Rightarrow> 'e grevm_error + unit \<Rightarrow> ('e, 't, 'b) parallel_state \<Rightarrow> ('r, 'e) scheduler \<Rightarrow> bool" where
  "resumes K tr outs ps r ps' s' \<longleftrightarrow>
    replay_uncommitted_suffix tr (be_txs K) (length outs) outs ps = Some (r, results s', ps') \<or>
    (\<exists>e. r = Inl e) \<and> results s' = outs \<and> ps' = ps"

lemma scheduler_replay_resumes:
  assumes "scheduler_replay tr (length outs) ps s = Some (r, ps', s') \<or> scheduler_fallback tr (length outs) t m ps s = Some (r, ps', s')"
    and "results s = outs" and "s_txs s = be_txs K"
  shows "resumes K tr outs ps r ps' s'"
  using assms by (auto simp: scheduler_replay_def scheduler_fallback_def fallback_after_parallel_error_def install_replay_def resumes_def bind_eq_Some_conv)

lemma post_execute_resumes:
  assumes post: "post_execute tr (length outs) ps s = Some (r, ps', s')" and s: "results s = outs" "s_txs s = be_txs K"
    and whole: "\<not> s_abort s \<Longrightarrow> length outs = length (be_txs K)"
  shows "resumes K tr outs ps r ps' s'"
proof (cases "s_abort s")
  case False
  then show ?thesis using post s whole by (simp add: post_execute_def is_aborted_def resumes_def replay_uncommitted_suffix_def)
next
  case True
  have "resumes K tr outs ps r ps' s'" if "Some (Inl e, ps, s) = Some (r, ps', s')" for e
    using that s by (auto simp: resumes_def)
  then show ?thesis using post s True scheduler_replay_resumes [of tr outs ps s r ps' s'] unfolding post_execute_def is_aborted_def
    by (simp split: option.splits abort_reason.splits) blast+
qed

lemma after_scope_resumes:
  assumes inv: "block_inv K y P" "ended_aborted y" and joined: "scope_joined y" and after: "after_scope tr y = Some (r, ps, s)"
  shows "resumes K tr (pc_output (sys_commit y)) (oc_state (sys_oc y)) r ps s"
proof -
  let ?out = "pc_output (sys_commit y)" and ?s = "(sys_sched y)\<lparr>results := pc_output (sys_commit y)\<rparr>"
  obtain g x where "core K P (sys_sched y) (sys_oc y) (pc_taken (sys_commit y)) (pc_idx (sys_commit y)) g x"
    using inv(1) unfolding block_inv_def by blast
  then have txs: "s_txs (sys_sched y) = be_txs K" by (rule coreD(1))
  have len: "length ?out = pc_idx (sys_commit y)" "pc_idx (sys_commit y) \<le> block_size (sys_sched y)"
    and shape: "committed_idx (scheduler_ctx (sys_sched y)) = length ?out" "results (sys_sched y) = []"
    using inv(1) by (cases "sys_commit y"; auto simp: block_inv_def sched_inv_def commit_ok_def shape_ok_def final_ok_def)+
  have install: "install_commit_loop_result (pc_result (sys_commit y)) (sys_sched y) =
      Some (case clr_error (pc_result (sys_commit y)) of None \<Rightarrow> Inr (length ?out) | Some e \<Rightarrow> Inl e, ?s)"
    using shape by (cases "sys_commit y") (auto simp: install_commit_loop_result_def output_end_def Let_def split: option.split)
  have whole: "length ?out = length (be_txs K)" if "\<not> s_abort ?s"
    using that inv(2) joined len txs by (cases "sys_commit y") (auto simp: scope_joined_def ended_aborted_def is_aborted_def)
  show ?thesis
  proof (cases "clr_error (pc_result (sys_commit y))")
    case None
    then have "post_execute tr (length ?out) (oc_state (sys_oc y)) ?s = Some (r, ps, s)" using after install by (simp add: after_scope_def)
    then show ?thesis by (rule post_execute_resumes) (use txs whole in simp_all)
  next
    case (Some e)
    then show ?thesis using after install by (auto simp: after_scope_def resumes_def)
  qed
qed

section \<open>Property\<close>

text \<open>\<^bold>\<open>C2\<close>. A whole call of \<open>parallel_execute\<close> is serial execution with recovery. The conditions are those of the
  machine: revm behaves as documented (\<open>revm_laws\<close>), the transaction programs reach the state only through the
  database and their outputs are well formed (\<open>env_ok\<close>), the state the scheduler is built with presents the starting
  world from a database that answers consistently and without errors (\<open>begin_ok\<close>), no incarnation
  replaces the version an earlier read of it recorded, and a cache fill is one step. Then, whatever the threads did,
  there is a prefix of the block such that the recorded outcomes of it are the results of running it
  serially from the starting world and a state that presents the world after it, and the call
  returns what replaying the rest of the block sequentially from there returns, outcomes and state
  included, or it returns an error and leaves exactly that prefix. A call that succeeds has an outcome
  for every transaction.\<close>

theorem execute_correct:
  assumes "env_ok K" and "begin_ok K (committer_new (be_ben K) ps (be_free_nonce K))"
    and "new_with_runtime_config prague (be_ben K) (be_free_nonce K) (be_txs K) ps config = Some h"
    and "parallel_execute K add tr level h r h'"
  shows "\<exists>outs ps1. (\<forall>k<length outs. \<exists>sr. block_result K k = Inr sr \<and> outs ! k = OExecuted (sr_result sr) \<and>
       world_nonce_ok (be_free_nonce K) (be_txs K ! k) (block_world K k)) \<and>
    represents (be_revm K) (be_status K) ps1 (block_world K (length outs)) \<and>
    (replay_uncommitted_suffix tr (be_txs K) (length outs) outs ps1 = Some (r, results (h_sched h'), h_state h') \<or>
     (\<exists>e. r = Inl e) \<and> take_result_and_state (h_state h') (h_sched h') = (outs, ps1)) \<and>
    (r = Inr () \<longrightarrow> length (results (h_sched h')) = length (be_txs K))"
proof -
  obtain b where h: "h_sched h = scheduler_build (be_txs K) b" "h_beneficiary h = be_ben K" "h_disable_nonce_check h = be_free_nonce K" "h_state h = ps"
    using assms(3) by (auto simp: new_with_runtime_config_def handle_build_def Let_def split: if_splits)
  have start: "represents (be_revm K) (be_status K) ps (be_start K)" using assms(2) by (simp add: begin_ok_def committed_ok_def committer_ok_def committer_new_def)
  have "\<exists>outs ps1 s'. output_serial K outs \<and> represents (be_revm K) (be_status K) ps1 (block_world K (length outs)) \<and>
      resumes K tr outs ps1 r (h_state h') s' \<and> results (h_sched h') = results s'"
    using assms(4)
  proof cases
    case (refused e)
    then show ?thesis using h by (simp add: once_begin_def scheduler_build_def Let_def)
  next
    case (elected s ps' s')
    have s: "results s = []" "s_txs s = be_txs K" using elected(3) h by (auto simp: once_begin_def scheduler_build_def Let_def split: if_splits)
    have h': "results (h_sched h') = results s'" "h_state h' = ps'" by (simp_all add: elected(1) once_end_def)
    from elected(4) have "\<exists>outs ps1. output_serial K outs \<and> represents (be_revm K) (be_status K) ps1 (block_world K (length outs)) \<and> resumes K tr outs ps1 r ps' s'"
    proof cases
      case sequential
      then have "resumes K tr [] ps r ps' s'" using scheduler_replay_resumes [of tr "[]" ps s r ps' s' _ _ K] s h by simp
      then show ?thesis using start by (intro exI [of _ "[]"] exI [of _ ps]) (simp add: output_serial_def)
    next
      case (anchor_error e)
      then show ?thesis using db_basic_value [of "be_revm K" "be_ben K" ps] start h by (simp add: represents_def)
    next
      case (parallel anchor ps0 y P)
      have "block_inv K (scope_start anchor ps0 (h\<lparr>h_sched := s\<rparr>)) {} \<and> ended_aborted (scope_start anchor ps0 (h\<lparr>h_sched := s\<rparr>))"
        by (rule scope_start_inv [OF assms(2)]) (use elected(3) h parallel(2) in simp_all)
      then have inv: "block_inv K y P" "ended_aborted y" using block_steps_inv [OF parallel(3) assms(1)] by simp_all
      obtain g x where core: "core K P (sys_sched y) (sys_oc y) (pc_taken (sys_commit y)) (pc_idx (sys_commit y)) g x"
        using inv(1) unfolding block_inv_def by blast
      have "length (pc_output (sys_commit y)) = pc_idx (sys_commit y)" "output_serial K (pc_output (sys_commit y))"
        using inv(1) by (simp_all add: block_inv_def sched_inv_def commit_ok_def)
      then show ?thesis using after_scope_resumes [OF inv parallel(4,5)] coreD(7) [OF core]
        by (intro exI [of _ "pc_output (sys_commit y)"] exI [of _ "oc_state (sys_oc y)"]) (simp add: committed_ok_def committer_ok_def)
    qed
    then show ?thesis using h' by blast
  qed
  then obtain outs ps1 s' where res: "output_serial K outs" "represents (be_revm K) (be_status K) ps1 (block_world K (length outs))"
      "resumes K tr outs ps1 r (h_state h') s'" "results (h_sched h') = results s'" by blast
  have "length (results s') = length (be_txs K)" if "r = Inr ()"
    using res(3) that replay_complete unfolding resumes_def by auto
  then show ?thesis using res unfolding output_serial_def resumes_def take_result_and_state_def by auto
qed

text \<open>The two conflicting transactions, executed in parallel from a new handle.\<close>

definition sample_handle :: "(nat, unit, nat, unit) handle" where
  "sample_handle = handle_build False 9 False (be_txs sample_env) (parallel_state_new sample_state_db True 0 ())
     \<lparr>concurrency_level = 2, force_sequential = False, min_parallel_txs = 1, delegated_safety = safety_disabled\<rparr>"

fun sample_call :: "sched_cmd list \<Rightarrow> ((unit grevm_error + unit) \<times> (unit, nat, unit) parallel_state \<times> (nat, unit) scheduler) option" where
  "sample_call cs =
    (case once_begin (h_sched sample_handle) of
       Inl _ \<Rightarrow> None
     | Inr s \<Rightarrow>
         (case db_basic sample_revm 9 (h_state sample_handle) of
            (Inl _, _) \<Rightarrow> None
          | (Inr anchor, ps0) \<Rightarrow>
              do { y \<leftarrow> sched_run now_executor cs (scope_start anchor ps0 (sample_handle\<lparr>h_sched := s\<rparr>));
                   if scope_joined y then after_scope (\<lambda>_ _ _. None) y else None }))"

lemma sample_call_execute:
  assumes "sample_call cs = Some (r, ps, s')"
  shows "parallel_execute sample_env (\<lambda>_ t. t) (\<lambda>_ _ _. None) None sample_handle r (sample_handle\<lparr>h_sched := once_end s', h_state := ps\<rparr>)"
proof -
  obtain s where s: "once_begin (h_sched sample_handle) = Inr s" using assms by (auto split: sum.splits)
  obtain anchor ps0 where ps0: "db_basic sample_revm 9 (h_state sample_handle) = (Inr anchor, ps0)"
    using assms s by (auto split: sum.splits prod.splits)
  obtain y where y: "sched_run now_executor cs (scope_start anchor ps0 (sample_handle\<lparr>h_sched := s\<rparr>)) = Some y" "scope_joined y"
      "after_scope (\<lambda>_ _ _. None) y = Some (r, ps, s')"
    using assms s ps0 by (auto simp: bind_eq_Some_conv split: if_splits)
  obtain P where "(block_step sample_env (\<lambda>_ t. t))\<^sup>*\<^sup>* (scope_start anchor ps0 (sample_handle\<lparr>h_sched := s\<rparr>), {}) (y, P)"
    using block_run_steps [OF y(1)] by blast
  then have "parallel_execute_inner sample_env (\<lambda>_ t. t) (\<lambda>_ _ _. None) (sample_handle\<lparr>h_sched := s\<rparr>) r ps s'"
  proof (rule parallel_execute_inner.parallel [rotated 2])
    show "\<not> runs_sequentially (sample_handle\<lparr>h_sched := s\<rparr>)"
      using s by (auto simp: runs_sequentially_def sample_handle_def handle_build_def once_begin_def scheduler_build_def sample_env_def Let_def)
    show "db_basic (be_revm sample_env) (h_beneficiary (sample_handle\<lparr>h_sched := s\<rparr>)) (h_state (sample_handle\<lparr>h_sched := s\<rparr>)) = (Inr anchor, ps0)"
      using ps0 by (simp add: sample_env_def sample_handle_def handle_build_def Let_def)
  qed (use y in simp_all)
  with s show ?thesis by (intro parallel_execute.elected) (simp_all add: sample_handle_def handle_build_def Let_def)
qed

theorem execute_correct_witness:
  "\<exists>h'. parallel_execute sample_env (\<lambda>_ t. t) (\<lambda>_ _ _. None) None sample_handle (Inr ()) h' \<and>
    results (h_sched h') = [OExecuted 5, OExecuted 6] \<and> length (results (h_sched h')) = length (be_txs sample_env)"
proof -
  have "case sample_call (conflict_cmds @ [DoCommit]) of None \<Rightarrow> False
      | Some (r, ps, s) \<Rightarrow> r = Inr () \<and> results s = [OExecuted 5, OExecuted 6]"
    by code_simp
  then obtain ps s where run: "sample_call (conflict_cmds @ [DoCommit]) = Some (Inr (), ps, s)" "results s = [OExecuted 5, OExecuted 6]"
    by (auto split: option.splits)
  note call = sample_call_execute [OF run(1)]
  have new: "new_with_runtime_config False (be_ben sample_env) (be_free_nonce sample_env) (be_txs sample_env) (parallel_state_new sample_state_db True 0 ())
      \<lparr>concurrency_level = 2, force_sequential = False, min_parallel_txs = 1, delegated_safety = safety_disabled\<rparr> = Some sample_handle"
    by (simp add: new_with_runtime_config_def sample_handle_def sample_env_def)
  have "begin_ok sample_env (committer_new (be_ben sample_env) (parallel_state_new sample_state_db True (0 :: nat) ()) (be_free_nonce sample_env))"
    using sample_begin_ok by (simp add: sample_oc_def sample_env_def)
  from execute_correct [OF sample_env_ok this new call] show ?thesis using call run(2) by (auto simp: once_end_def)
qed

section \<open>Construction from the environment\<close>

text \<open>\<^bold>\<open>C40\<close>. \<open>Scheduler::new\<close> panics exactly when the environment sets the concurrency level to a literal zero. The
  scheduler it otherwise builds has no reserve planner whatever the environment says, uses the level a
  decimal number of the environment spells and the default level when the variable is unset or does not
  parse, and executes sequentially exactly when the environment forces it or the block is shorter than the
  threshold of the environment. The standard library reports an available parallelism that is not zero.\<close>

theorem new_panics_only_on_zero:
  assumes "available \<noteq> Some 0"
  shows "let level = env ''GREVM_CONCURRENT_LEVEL'';
      new = (handle_new env available prague ben disable_nonce txs state :: ('r, 'e, 't, 'b) handle option)
    in (new = None \<longleftrightarrow> (\<exists>v. level = Some v \<and> zero_literal v)) \<and>
       (\<forall>h. new = Some h \<longrightarrow> h_planner h = None \<and>
          (\<forall>n. 0 < n \<and> n < 2 ^ 64 \<and> level = Some (show_nat n) \<longrightarrow> concurrency_level (h_config h) = n) \<and>
          (Option.bind level parse_usize = None \<longrightarrow> concurrency_level (h_config h) = concurrency_level (config_default available)) \<and>
          (runs_sequentially h \<longleftrightarrow> env_or parse_bool env ''GREVM_FALLBACK_SEQUENTIAL'' False \<or>
             length txs < env_or parse_usize env ''GREVM_MIN_PARALLEL_TXS'' 64))"
proof -
  let ?level = "env ''GREVM_CONCURRENT_LEVEL''"
  have pos: "0 < concurrency_level (config_default available)" using assms by (cases available) (auto simp: config_default_def)
  have "concurrency_level (from_env env available) = 0 \<longleftrightarrow> Option.bind ?level parse_usize = Some 0"
    using pos by (auto simp: from_env_def env_or_def Let_def split: option.splits)
  then have zero: "concurrency_level (from_env env available) = 0 \<longleftrightarrow> (\<exists>v. ?level = Some v \<and> zero_literal v)"
    by (auto simp: bind_eq_Some_conv parse_usize_zero)
  have "concurrency_level (from_env env available) = n" if "n < 2 ^ 64" "?level = Some (show_nat n)" for n
    using that by (simp add: from_env_def env_or_def parse_show Let_def)
  moreover have "concurrency_level (from_env env available) = concurrency_level (config_default available)"
    if "Option.bind ?level parse_usize = None"
    using that by (simp add: from_env_def env_or_def Let_def)
  ultimately show ?thesis using zero
    by (auto simp: handle_new_def new_with_runtime_config_def handle_build_def runs_sequentially_def scheduler_build_def from_env_def
        config_default_def for_spec_def safety_disabled_def Let_def)
qed

text \<open>A level of two for a block of one transaction, and a level of zero.\<close>

theorem new_panics_only_on_zero_witness:
  "(\<exists>h. (handle_new [''GREVM_CONCURRENT_LEVEL'' \<mapsto> ''2''] (Some 4) True 9 False [sample_commit_tx] (parallel_state_new sample_state_db True 0 ()) ::
        (nat, unit, nat, unit) handle option) = Some h \<and> concurrency_level (h_config h) = 2 \<and> h_planner h = None \<and> runs_sequentially h) \<and>
   (handle_new [''GREVM_CONCURRENT_LEVEL'' \<mapsto> ''+00''] (Some 4) True 9 False [sample_commit_tx] (parallel_state_new sample_state_db True 0 ()) ::
      (nat, unit, nat, unit) handle option) = None"
proof
  let ?new = "\<lambda>env. handle_new env (Some 4) True 9 False [sample_commit_tx] (parallel_state_new sample_state_db True 0 ()) ::
    (nat, unit, nat, unit) handle option"
  let ?two = "[''GREVM_CONCURRENT_LEVEL'' \<mapsto> ''2'']" and ?zero = "[''GREVM_CONCURRENT_LEVEL'' \<mapsto> ''+00'']"
  have two: "show_nat 2 = ''2''" by (subst show_nat.simps) (simp add: char_of_def bit_0)
  have nz: "\<not> zero_literal ''2''" by (auto simp: zero_literal_def)
  have four: "Some (4 :: usize) \<noteq> Some 0" by simp
  note law = new_panics_only_on_zero [OF four, where 'r = nat and prague = True and ben = 9 and disable_nonce = False and txs = "[sample_commit_tx]"
      and state = "parallel_state_new sample_state_db True (0 :: nat) ()", unfolded Let_def]
  have "?new ?two = None \<longleftrightarrow> (\<exists>v. ?two ''GREVM_CONCURRENT_LEVEL'' = Some v \<and> zero_literal v)" by (rule conjunct1 [OF law])
  then obtain h where h: "?new ?two = Some h" using nz by auto
  note built = conjunct2 [OF law, rule_format, OF h]
  have "concurrency_level (h_config h) = 2"
    using built [THEN conjunct2, THEN conjunct1, rule_format, of 2] two by simp
  moreover have "runs_sequentially h" using built [THEN conjunct2, THEN conjunct2, THEN conjunct2] by (simp add: env_or_def)
  ultimately show "\<exists>h. ?new ?two = Some h \<and> concurrency_level (h_config h) = 2 \<and> h_planner h = None \<and> runs_sequentially h"
    using h built [THEN conjunct1] by blast
  have "zero_literal ''+00''" unfolding zero_literal_def by (intro exI [of _ 1]) simp
  moreover have "?new ?zero = None \<longleftrightarrow> (\<exists>v. ?zero ''GREVM_CONCURRENT_LEVEL'' = Some v \<and> zero_literal v)" by (rule conjunct1 [OF law])
  ultimately show "?new ?zero = None" by simp
qed

end
