(* ===== verification/Loops.thy ===== *)
theory Loops
  imports Stability
begin

text \<open>
  The entries of the multi-version memory always have the kind of their location, and the inner loops
  of the finality and the commit thread end.
\<close>

section \<open>Typed memory\<close>

definition memory_typed :: "mv_memory \<Rightarrow> bool" where
  "memory_typed m \<longleftrightarrow> (\<forall>l t e. m l t = Some e \<longrightarrow> value_fits l (me_data e))"

definition typed_op :: "(mv_memory \<times> location set \<Rightarrow> mv_memory \<times> location set) \<Rightarrow> bool" where
  "typed_op F \<longleftrightarrow> (\<forall>x. memory_typed (fst x) \<longrightarrow> memory_typed (fst (F x)))"

lemma typed_value: "value_fits l d \<Longrightarrow> typed_op (publish_value v est l d)"
  unfolding typed_op_def by (auto simp: memory_typed_def publish_value_def memory_entry_new_def)

lemma typed_comp: "typed_op F \<Longrightarrow> typed_op G \<Longrightarrow> typed_op (\<lambda>x. G (F x))"
  unfolding typed_op_def by blast

interpretation typed: publication_contract v est typed_op
  by unfold_locales (simp add: typed_op_def, erule (1) typed_comp, erule typed_value)

lemma typed_writes:
  assumes "memory_typed m" and "publish_writes R b db st est m = (m', ws)"
  shows "memory_typed m'"
proof -
  have "typed_op (fold (publish_account R b db est) st)" by (rule typed.all_accounts [OF refl])
  then show ?thesis using assms unfolding typed_op_def publish_writes_def by (metis fst_conv)
qed

lemma typed_incarnation:
  assumes "execute_incarnation R W prog b v tx db m = Some (ie, db', m')" and "memory_typed m"
  shows "memory_typed m'"
proof -
  obtain x db1 where x: "run R W (prog (v_txid v) tx) (begin_incarnation v db) = Some (x, db1)"
    using assms(1) by (auto simp: execute_incarnation_def split: Option.bind_splits)
  show ?thesis
  proof (cases "handler_result x")
    case (Inl e)
    then show ?thesis using x assms by (auto simp: execute_incarnation_def discard_incarnation_def)
  next
    case (Inr sr)
    obtain m1 ws where "publish_writes R b db1 (sr_state sr) (idb_blocking_txs db1 \<noteq> {}) m = (m1, ws)" by fastforce
    moreover from this have "memory_typed m1" using assms(2) typed_writes by blast
    ultimately show ?thesis using Inr x assms(1) by (auto simp: execute_incarnation_def finish_incarnation_def Let_def)
  qed
qed

lemma typed_mark: "memory_typed m \<Longrightarrow> memory_typed (mark_mv_estimate t ws m)"
  by (auto simp: memory_typed_def mark_mv_estimate_def split: if_splits option.splits)

lemma typed_remove: "memory_typed m \<Longrightarrow> memory_typed (remove_stale_writes t old new m)"
  by (auto simp: memory_typed_def remove_stale_writes_def split: if_splits)

text \<open>The executors that run \<open>executor.rs\<close>, whatever their reads see and the transaction does.\<close>

definition incarnation_executors :: "('r, 'e) executor set" where
  "incarnation_executors = {executor. \<forall>v tx s ie m. executor v tx s = Some (ie, m) \<longrightarrow>
    (\<exists>R W prog b db db'. execute_incarnation R W prog b v tx db (s_memory s) = Some (ie, db', m))}"

lemma incarnation_typed:
  assumes "executor \<in> incarnation_executors" and "executor v tx s = Some (ie, m)" and "memory_typed (s_memory s)"
  shows "memory_typed m"
proof -
  obtain R W prog b db db' where "execute_incarnation R W prog b v tx db (s_memory s) = Some (ie, db', m)"
    using assms(1,2) unfolding incarnation_executors_def mem_Collect_eq by blast
  then show ?thesis using assms(3) by (rule typed_incarnation)
qed

lemma typed_exec:
  assumes "exec_effect R v ie m s s' rw" and "memory_typed m"
  shows "memory_typed (s_memory s')"
proof -
  have "s_memory s' = exec_memory (v_txid v) ie (tx_results s ! v_txid v) m" using assms(1) by (simp add: exec_effect_def Let_def)
  then show ?thesis using assms(2) typed_mark typed_remove by (simp add: exec_memory_def split: sum.split)
qed

lemma typed_step:
  assumes "sched_step R A add E y y'" and "E \<subseteq> incarnation_executors" and "sched_inv y" and typed: "memory_typed (s_memory (sys_sched y))"
  shows "memory_typed (s_memory (sys_sched y'))"
  using assms
proof (induction rule: sched_step.induct)
  case (claim y t s')
  then show ?case using next_iteration_claims [OF claim(1)] by (simp add: claims_def)
next
  case (claim_validation i y t s')
  then show ?case using validation_task_claims [OF claim_validation(1)] by (simp add: claims_def)
next
  case (claim_execution i y t s')
  then show ?case using execution_task_claims [OF claim_execution(1)] by (simp add: claims_def)
next
  case (work task y executor t s')
  show ?case
  proof (cases task)
    case (Execution v)
    then have held: "Execution v \<in># sys_tasks y" and ex: "execute_task R executor v (sys_sched y) = Some (t, s')"
      using work by (simp_all add: worker_task_def)
    from work(5) held ex obtain ie m s1 rw
      where run: "executor v (s_txs (sys_sched y) ! v_txid v) (bump_metrics record_execution_attempt (sys_sched y)) = Some (ie, m)"
      and eff: "exec_effect R v ie m (sys_sched y) s1 rw" and s': "s' = s1 \<or> (\<exists>i. execution_task i s1 = Some (t, s'))"
      by (rule execute_task_effect)
    have "memory_typed m" by (rule incarnation_typed [OF subsetD [OF work(4,2)] run]) (simp add: work(6))
    then have "memory_typed (s_memory s1)" by (rule typed_exec [OF eff])
    moreover have "s_memory s' = s_memory s1" using s' execution_task_claims [of _ s1 t s'] by (auto simp: claims_def)
    ultimately show ?thesis by simp
  next
    case (Validation v)
    then have held: "Validation v \<in># sys_tasks y" and val: "validate v (sys_sched y) = Some s'"
      using work by (auto simp: worker_task_def)
    from work(5) held val obtain r c dep where "val_effect v r c dep (sys_sched y) s'" by (rule validate_effect)
    then have "s_memory s' = (if c then mark_mv_estimate (v_txid v) (write_set r) (s_memory (sys_sched y)) else s_memory (sys_sched y))"
      by (simp add: val_effect_def Let_def)
    then show ?thesis using work(6) typed_mark by simp
  qed
next
  case (finality y tx l first)
  then show ?case by (simp add: finalize_candidate_def Let_def)
next
  case (commit y i out r oc' s')
  then show ?case using commit_one_frame [OF commit(3)] by simp
next
  case (panic y)
  then show ?case by (simp add: cancel_def)
qed

lemma typed_reachable:
  assumes "(sched_step R A add E)\<^sup>*\<^sup>* (block_start txs ben anchor oc) y" and E: "E \<subseteq> incarnation_executors"
  shows "memory_typed (s_memory (sys_sched y))"
  using assms
proof (induction rule: rtranclp_induct)
  case base
  then show ?case by (simp add: memory_typed_def block_start_def sys_new_def scheduler_build_def)
next
  case (step y z)
  then show ?case using typed_step [OF step(2) E sched_inv_reachable [OF step(1) sched_inv_start]] by blast
qed

section \<open>The finality loop\<close>

lemma lock_finality_candidate_some:
  assumes "sched_inv y"
  shows "lock_finality_candidate f l (sys_sched y) \<noteq> None"
proof (cases "block_size (sys_sched y) \<le> f \<or> validation_idx (scheduler_ctx (sys_sched y)) \<le> f")
  case True
  then show ?thesis by (simp add: lock_finality_candidate_def)
next
  case False
  have "f < length (tx_states (sys_sched y))" "f < length (lower_timestamps (scheduler_ctx (sys_sched y)))"
    "f < length (unconfirmed_timestamps (scheduler_ctx (sys_sched y)))"
    using False assms by (simp_all add: sched_inv_def shape_ok_def context_wf_def)
  then show ?thesis using False
    by (simp add: lock_finality_candidate_def list_get_def lower_timestamp_def unconfirmed_timestamp_def Let_def)
qed

lemma finality_batch_runs:
  assumes "sched_inv y"
  shows "\<exists>f l s. finality_batch first (sys_final y) (sys_lower y) (sys_sched y) = Some (f, l, s) \<and>
    (sched_step R A add E)\<^sup>*\<^sup>* y (y\<lparr>sys_sched := s, sys_final := f, sys_lower := l\<rparr>) \<and>
    sys_final y \<le> f \<and> lock_finality_candidate f l s = Some None"
  using assms
proof (induction "block_size (sys_sched y) - sys_final y" arbitrary: y first rule: less_induct)
  case less
  let ?c = "lock_finality_candidate (sys_final y) (sys_lower y) (sys_sched y)"
  obtain c where c: "?c = Some c" using lock_finality_candidate_some [OF less.prems] by blast
  show ?case
  proof (cases c)
    case None
    then show ?thesis using c by simp
  next
    case (Some x)
    obtain tx e where cand: "?c = Some (Some (tx, e))" using c Some by (cases x) simp
    let ?y = "y\<lparr>sys_sched := finalize_candidate first (sys_final y) tx (sys_sched y), sys_final := sys_final y + 1, sys_lower := e\<rparr>"
    have step: "sched_step R A add E y ?y" by (rule sched_step.finality [OF cand])
    have "block_size (sys_sched ?y) - sys_final ?y < block_size (sys_sched y) - sys_final y"
      using lock_finality_candidate_range [OF cand] by simp
    from less.hyps [OF this sched_inv_step [OF step less.prems], of False]
    obtain f l s where "finality_batch False (sys_final ?y) (sys_lower ?y) (sys_sched ?y) = Some (f, l, s)"
      and "(sched_step R A add E)\<^sup>*\<^sup>* ?y (?y\<lparr>sys_sched := s, sys_final := f, sys_lower := l\<rparr>)"
      and "sys_final ?y \<le> f" and "lock_finality_candidate f l s = Some None" by blast
    then show ?thesis using cand converse_rtranclp_into_rtranclp [of "sched_step R A add E" y ?y, OF step] by auto
  qed
qed

section \<open>The commit loop\<close>

lemma commit_one_advances:
  assumes "commit_one R A add i out oc s = Some (Inr (n, out'), oc', s')" and "length out = i"
  shows "n = Suc i"
proof -
  obtain x where x: "list_get (tx_results s) i = Some (Some x)"
    using assms(1) by (auto simp: commit_one_def Let_def bind_eq_Some_conv split: option.splits)
  then obtain sr where sr: "execute_result x = Inr sr"
    using assms(1) by (cases "execute_result x") (simp_all add: commit_one_def Let_def)
  obtain tx outcome out1 oc1 where oc: "oc_commit R A add i tx sr out oc = Some (outcome, out1, oc1)"
    and "after_commit i outcome out1 oc1 (set_tx_result i None s) = Some (Inr (n, out'), oc', s')"
    using assms(1) x sr by (auto simp: commit_one_def Let_def bind_eq_Some_conv)
  then show ?thesis using oc_commit_output [OF oc] assms(2)
    by (auto simp: after_commit_def bind_eq_Some_conv split: sum.splits commit_outcome.splits)
qed

text \<open>The state of the system when an inner run of the commit loop has ended.\<close>

definition after_batch :: "('r, 'e, 't, 'b) sched_sys \<Rightarrow> ('r, 'e, 't, 'b) commit_iteration \<Rightarrow> ('r, 'e, 't, 'b) sched_sys \<Rightarrow> bool" where
  "after_batch y z y' \<longleftrightarrow>
    (\<exists>r oc s pc. z = (r, oc, s) \<and> y' = y\<lparr>sys_sched := s, sys_oc := oc, sys_commit := pc\<rparr> \<and>
      (case r of Inr (n, out) \<Rightarrow> pc = CommitRunning n out \<and> n = finality_idx (scheduler_ctx s)
       | Inl e \<Rightarrow> (\<exists>i. pc = CommitEnded i e)))"

lemma commit_batch_runs:
  assumes "sched_inv y" and "sys_commit y = CommitRunning i out" and "finality_idx (scheduler_ctx (sys_sched y)) - i < fuel"
  shows "\<exists>z. commit_batch fuel R A add i out (sys_oc y) (sys_sched y) = Some z \<and>
    (\<forall>w. z = Some w \<longrightarrow> (\<exists>y'. (sched_step R A add E)\<^sup>*\<^sup>* y y' \<and> after_batch y w y'))"
  using assms
proof (induction fuel arbitrary: y i out)
  case (Suc fuel)
  let ?s = "sys_sched y" and ?f = "finality_idx (scheduler_ctx (sys_sched y))"
  have out: "length out = i" "i \<le> ?f" using Suc.prems(1,2) by (simp_all add: sched_inv_def commit_ok_def)
  show ?case
  proof (cases "i < ?f")
    case False
    have "y = y\<lparr>sys_sched := ?s, sys_oc := sys_oc y, sys_commit := CommitRunning i out\<rparr>" using Suc.prems(2) by simp
    then have "after_batch y (Inr (i, out), sys_oc y, ?s) y" using False out by (auto simp: after_batch_def)
    then show ?thesis using False by auto
  next
    case True
    show ?thesis
    proof (cases "commit_one R A add i out (sys_oc y) ?s")
      case None
      then show ?thesis using True by simp
    next
      case (Some w)
      then obtain r oc s where one: "commit_one R A add i out (sys_oc y) ?s = Some (r, oc, s)" by (cases w) auto
      let ?y = "y\<lparr>sys_sched := s, sys_oc := oc, sys_commit := (case r of Inr (n, out') \<Rightarrow> CommitRunning n out' | Inl e \<Rightarrow> CommitEnded i e)\<rparr>"
      have step: "sched_step R A add E y ?y" by (rule sched_step.commit [OF Suc.prems(2) True one])
      have inv: "sched_inv ?y" by (rule sched_inv_step [OF step Suc.prems(1)])
      show ?thesis
      proof (cases r)
        case (Inl e)
        then have "after_batch y (r, oc, s) ?y" by (auto simp: after_batch_def)
        then show ?thesis using True one Inl r_into_rtranclp [of "sched_step R A add E", OF step] by auto
      next
        case (Inr q)
        then obtain n out' where r: "r = Inr (n, out')" by (cases q) simp
        have n: "n = Suc i" using commit_one_advances one r out(1) by blast
        have "finality_idx (scheduler_ctx s) = ?f" using inv Suc.prems(1) by (simp add: sched_inv_def final_ok_def)
        then have "finality_idx (scheduler_ctx (sys_sched ?y)) - n < fuel" using Suc.prems(3) True n by simp
        moreover have "sys_commit ?y = CommitRunning n out'" by (simp add: r)
        ultimately obtain z where z: "commit_batch fuel R A add n out' oc s = Some z"
          "\<forall>w. z = Some w \<longrightarrow> (\<exists>y'. (sched_step R A add E)\<^sup>*\<^sup>* ?y y' \<and> after_batch ?y w y')"
          using Suc.IH [OF inv] by fastforce
        have "after_batch ?y w y' \<Longrightarrow> after_batch y w y'" for w y' by (auto simp: after_batch_def)
        then have "\<forall>w. z = Some w \<longrightarrow> (\<exists>y'. (sched_step R A add E)\<^sup>*\<^sup>* y y' \<and> after_batch y w y')"
          using z(2) converse_rtranclp_into_rtranclp [of "sched_step R A add E" y ?y, OF step] by blast
        moreover have "commit_batch (Suc fuel) R A add i out (sys_oc y) ?s = Some z" using True one r z(1) by simp
        ultimately show ?thesis by blast
      qed
    qed
  qed
qed simp

section \<open>Properties\<close>

text \<open>\<^bold>\<open>C21\<close>. Whatever the transactions do and however the threads interleave, every entry of the
  multi-version memory holds a value of its location's kind: account info at an account, code at a code
  location, a word at a storage slot and a reset at a reset marker. A read that matches on the kind of
  the entry it finds therefore never falls through to the database because of it.\<close>

theorem memory_well_typed:
  assumes "(sched_step R A add E)\<^sup>*\<^sup>* (block_start txs ben anchor oc) y" and "E \<subseteq> incarnation_executors"
    and "s_memory (sys_sched y) l t = Some e"
  shows "value_fits l (me_data e)"
  using typed_reachable [OF assms(1,2)] assms(3) unfolding memory_typed_def by blast

text \<open>\<^bold>\<open>C8\<close>. The inner loop of the finality thread ends in every reachable state, without a panic: it
  finalizes a run of transactions from its cursor on, each by a step of the system, stops at the first
  that is not eligible, and exactly the transactions before that one are final.\<close>

theorem finality_batch_ends:
  assumes "(sched_step R A add E)\<^sup>*\<^sup>* (block_start txs ben anchor oc) y"
  shows "\<exists>f l s. finality_batch True (sys_final y) (sys_lower y) (sys_sched y) = Some (f, l, s) \<and>
    (sched_step R A add E)\<^sup>*\<^sup>* y (y\<lparr>sys_sched := s, sys_final := f, sys_lower := l\<rparr>) \<and>
    sys_final y \<le> f \<and> f \<le> block_size s \<and> (\<forall>t<block_size s. status (tx_states s ! t) = Finality \<longleftrightarrow> t < f) \<and>
    lock_finality_candidate f l s = Some None"
proof -
  have inv: "sched_inv y" by (rule sched_inv_reachable [OF assms sched_inv_start])
  from finality_batch_runs [OF this, of True R A add E]
  obtain f l s where b: "finality_batch True (sys_final y) (sys_lower y) (sys_sched y) = Some (f, l, s)"
    and steps: "(sched_step R A add E)\<^sup>*\<^sup>* y (y\<lparr>sys_sched := s, sys_final := f, sys_lower := l\<rparr>)"
    and rest: "sys_final y \<le> f" "lock_finality_candidate f l s = Some None" by blast
  have "final_ok s f l" using sched_inv_reachable [OF steps inv] by (simp add: sched_inv_def)
  then show ?thesis using b steps rest unfolding final_ok_def by blast
qed

text \<open>\<^bold>\<open>C9\<close>. The inner loop of the commit thread ends in every reachable state: with one round per
  finalized and uncommitted transaction and one more it is never still running, and unless it panics
  its effect is that of steps of the system after which it has caught up with finality or has left the
  loop.\<close>

theorem commit_batch_ends:
  assumes "(sched_step R A add E)\<^sup>*\<^sup>* (block_start txs ben anchor oc) y" and "sys_commit y = CommitRunning i out"
    and "finality_idx (scheduler_ctx (sys_sched y)) - i < fuel"
  shows "\<exists>z. commit_batch fuel R A add i out (sys_oc y) (sys_sched y) = Some z \<and>
    (\<forall>w. z = Some w \<longrightarrow> (\<exists>y'. (sched_step R A add E)\<^sup>*\<^sup>* y y' \<and> after_batch y w y'))"
  by (rule commit_batch_runs [OF sched_inv_reachable [OF assms(1) sched_inv_start] assms(2,3)])

section \<open>Witnesses\<close>

lemma sample_executor_incarnation: "sample_executor \<in> incarnation_executors"
  unfolding incarnation_executors_def sample_executor_def world_executor_def
  by (auto split: prod.splits) blast

theorem memory_well_typed_witness:
  "\<exists>y e. (sched_step sample_revm sample_status (\<lambda>_ t. t) {sample_executor})\<^sup>*\<^sup>* sample_block y \<and>
    s_memory (sys_sched y) (LStorage 7 0) 0 = Some e \<and> value_fits (LStorage 7 0) (me_data e)"
proof -
  have "case sched_run (\<lambda>_. sample_executor) sample_cmds sample_block of None \<Rightarrow> False
      | Some y \<Rightarrow> s_memory (sys_sched y) (LStorage 7 0) 0 \<noteq> None"
    by code_simp
  from sched_run_reachable [OF this, of "{sample_executor}"]
  obtain y e where y: "(sched_step sample_revm sample_status (\<lambda>_ t. t) {sample_executor})\<^sup>*\<^sup>* sample_block y"
    and e: "s_memory (sys_sched y) (LStorage 7 0) 0 = Some e" by auto
  have "{sample_executor} \<subseteq> incarnation_executors" using sample_executor_incarnation by simp
  from memory_well_typed [OF y [unfolded sample_block_def] this e] show ?thesis using y e by blast
qed

theorem finality_batch_ends_witness:
  "\<exists>y f l s. (sched_step sample_revm sample_status (\<lambda>_ t. t) UNIV)\<^sup>*\<^sup>* sample_block y \<and> sys_final y = 0 \<and>
    finality_batch True (sys_final y) (sys_lower y) (sys_sched y) = Some (f, l, s) \<and> f = 1 \<and>
    lock_finality_candidate f l s = Some None"
proof -
  have "case sched_run (\<lambda>_. sample_executor) (sample_cmds @ [DoWork (Validation (TxVersion 0 1))]) sample_block of None \<Rightarrow> False
      | Some y \<Rightarrow> sys_final y = 0 \<and>
          map_option fst (finality_batch True (sys_final y) (sys_lower y) (sys_sched y)) = Some 1"
    by code_simp
  from sched_run_reachable [OF this UNIV_I]
  obtain y where y: "(sched_step sample_revm sample_status (\<lambda>_ t. t) UNIV)\<^sup>*\<^sup>* sample_block y" and zero: "sys_final y = 0"
    and one: "map_option fst (finality_batch True (sys_final y) (sys_lower y) (sys_sched y)) = Some 1" by blast
  obtain f l s where b: "finality_batch True (sys_final y) (sys_lower y) (sys_sched y) = Some (f, l, s)"
    and "lock_finality_candidate f l s = Some None"
    using finality_batch_ends [OF y [unfolded sample_block_def]] by blast
  moreover have "f = 1" using one unfolding b by simp
  ultimately show ?thesis using y zero by blast
qed

theorem commit_batch_ends_witness:
  "\<exists>y w y'. (sched_step sample_revm sample_status (\<lambda>_ t. t) UNIV)\<^sup>*\<^sup>* sample_block y \<and> sys_commit y = CommitRunning 0 [] \<and>
    commit_batch 2 sample_revm sample_status (\<lambda>_ t. t) 0 [] (sys_oc y) (sys_sched y) = Some (Some w) \<and>
    (sched_step sample_revm sample_status (\<lambda>_ t. t) UNIV)\<^sup>*\<^sup>* y y' \<and> after_batch y w y'"
proof -
  have "case sched_run (\<lambda>_. sample_executor) (sample_cmds @ [DoWork (Validation (TxVersion 0 1)), DoFinality]) sample_block of None \<Rightarrow> False
      | Some y \<Rightarrow> sys_commit y = CommitRunning 0 [] \<and> finality_idx (scheduler_ctx (sys_sched y)) = 1 \<and>
          (case commit_batch 2 sample_revm sample_status (\<lambda>_ t. t) 0 [] (sys_oc y) (sys_sched y) of Some (Some w) \<Rightarrow> True | _ \<Rightarrow> False)"
    by code_simp
  from sched_run_reachable [OF this UNIV_I]
  obtain y where y: "(sched_step sample_revm sample_status (\<lambda>_ t. t) UNIV)\<^sup>*\<^sup>* sample_block y" and pc: "sys_commit y = CommitRunning 0 []"
    and fin: "finality_idx (scheduler_ctx (sys_sched y)) = 1"
    and runs: "case commit_batch 2 sample_revm sample_status (\<lambda>_ t. t) 0 [] (sys_oc y) (sys_sched y) of Some (Some w) \<Rightarrow> True | _ \<Rightarrow> False"
    by blast
  from fin have "finality_idx (scheduler_ctx (sys_sched y)) - 0 < 2" by simp
  from commit_batch_ends [OF y [unfolded sample_block_def] pc this] runs
  obtain w y' where "commit_batch 2 sample_revm sample_status (\<lambda>_ t. t) 0 [] (sys_oc y) (sys_sched y) = Some (Some w)"
    "(sched_step sample_revm sample_status (\<lambda>_ t. t) UNIV)\<^sup>*\<^sup>* y y'" "after_batch y w y'"
    by (auto split: option.splits)
  then show ?thesis using y pc by blast
qed

end
