(* ===== verification/Handler.thy ===== *)
theory Handler
  imports Fallback Reserve
begin

text \<open>
  \<open>delegated_safety/handler.rs\<close> and \<open>delegated_safety/instructions.rs\<close>: the transaction handler with the
  reserve check, and the guard on creation in delegated contexts. revm's default hooks, its journal
  and its gas counters are the fields of \<open>handler_ops\<close> over an abstract EVM state; the lifecycle
  \<open>Handler::run\<close>, which calls the hooks, is an argument.
\<close>

section \<open>What revm provides\<close>

datatype instruction_result = IrRevert | IrNotActivated | IrStaticCall | IrFatal | IrOther nat

datatype frame_kind = CallFrame | CreateFrame

record 'g frame_result =
  fr_kind :: frame_kind
  fr_status :: instruction_result
  fr_output :: "nat list"
  fr_gas :: 'g

record ('x, 'c, 'g, 'i, 'rg, 'e) handler_ops =
  validate_and_deduct :: "'i \<Rightarrow> 'x \<Rightarrow> 'e evm_error + 'i \<times> 'x"
  load_accounts :: "'x \<Rightarrow> 'e evm_error + 'x"
  apply_auth_list :: "'i \<Rightarrow> 'x \<Rightarrow> 'e evm_error + u64 \<times> 'i \<times> 'x"
  checkpoint :: "'x \<Rightarrow> 'c \<times> 'x"
  journal_i :: "'c \<Rightarrow> usize"
  checkpoint_revert :: "'c \<Rightarrow> 'x \<Rightarrow> 'x"
  checkpoint_commit :: "'x \<Rightarrow> 'x"
  journal_entries :: "'x \<Rightarrow> journal_entry list"
  journal_state :: "'x \<Rightarrow> address \<rightharpoonup> account_info"
  evm_tx :: "'x \<Rightarrow> tx_env"
  refund :: "int \<Rightarrow> 'g frame_result \<Rightarrow> 'x \<Rightarrow> 'g frame_result \<times> 'x"
  build_result_gas :: "bool \<Rightarrow> 'g \<Rightarrow> 'i \<Rightarrow> 'rg"
  check_gas_floor :: "'i \<Rightarrow> 'g frame_result \<Rightarrow> 'x \<Rightarrow> 'g frame_result \<times> 'x"
  reimburse_caller :: "'g frame_result \<Rightarrow> 'x \<Rightarrow> 'e evm_error + 'x"
  load_and_bump_nonce :: "address \<Rightarrow> 'x \<Rightarrow> 'e evm_error + bool \<times> 'x"
  set_refund :: "int \<Rightarrow> 'g \<Rightarrow> 'g"
  is_halt :: "instruction_result \<Rightarrow> bool"
  gas_view :: "'g \<Rightarrow> gas"
  reward_context :: "'x \<Rightarrow> reward_ctx"
  reward_hook :: "'g \<Rightarrow> 'x \<Rightarrow> 'e evm_error + 'x"
  holds_beneficiary :: "'x \<Rightarrow> bool"
  bytecode_is_eip7702 :: "bytecode \<Rightarrow> bool"
  max_spending :: "tx_env \<Rightarrow> u256 option"
  iteration_order :: "delegated_debit list \<Rightarrow> delegated_debit list"

text \<open>The order in which a hash map is iterated is not fixed: \<open>iteration_order\<close> rearranges the debits.\<close>

section \<open>Modes and handler state\<close>

datatype reserve_mode = NoReserve | WithReserve tx_id

definition from_planner :: "tx_id \<Rightarrow> reserve_planner option \<Rightarrow> reserve_mode" where
  "from_planner txid planner = (case planner of Some _ \<Rightarrow> WithReserve txid | None \<Rightarrow> NoReserve)"

text \<open>The cells of a handler, with the shared planner it refers to.\<close>

record 'c handler_cells =
  deferred_cell :: "deferred_beneficiary_reward option"
  execution_checkpoint :: "'c option"
  shared_planner :: reserve_planner

definition cells_new :: "reserve_planner \<Rightarrow> 'c handler_cells" where
  "cells_new p = \<lparr>deferred_cell = None, execution_checkpoint = None, shared_planner = p\<rparr>"

section \<open>Hooks\<close>

text \<open>\<open>pre_execution\<close>: the checkpoint stands after the authorizations.\<close>

definition pre_execution ::
  "('x, 'c, 'g, 'i, 'rg, 'e) handler_ops \<Rightarrow> 'i \<Rightarrow> 'c handler_cells \<Rightarrow> 'x \<Rightarrow> 'e evm_error + u64 \<times> 'i \<times> 'c handler_cells \<times> 'x" where
  "pre_execution H i cells x =
    (case validate_and_deduct H i x of
       Inl e \<Rightarrow> Inl e
     | Inr (i1, x1) \<Rightarrow>
         (case load_accounts H x1 of
            Inl e \<Rightarrow> Inl e
          | Inr x2 \<Rightarrow>
              (case apply_auth_list H i1 x2 of
                 Inl e \<Rightarrow> Inl e
               | Inr (auth_refund, i2, x3) \<Rightarrow>
                   let (c, x4) = checkpoint H x3
                   in Inr (auth_refund, i2, cells\<lparr>execution_checkpoint := Some c\<rparr>, x4))))"

text \<open>The loop over the candidates: no reserve is asked beyond the balance before the first debit.\<close>

fun violation_loop ::
  "(tx_env \<Rightarrow> u256 option) \<Rightarrow> tx_id \<Rightarrow> delegated_debit list \<Rightarrow> reserve_planner \<Rightarrow> bool \<times> reserve_planner" where
  "violation_loop spend txid [] p = (False, p)"
| "violation_loop spend txid (d # ds) p =
    (let (future_cost, p1) = required_after spend txid (dd_address d) p
     in if future_cost = 0 then violation_loop spend txid ds p1
        else if final_balance d < min (balance_before d) future_cost then (True, p1)
        else violation_loop spend txid ds p1)"

definition reserve_candidates :: "('x, 'c, 'g, 'i, 'rg, 'e) handler_ops \<Rightarrow> 'c \<Rightarrow> 'x \<Rightarrow> delegated_debit list" where
  "reserve_candidates H c x =
    delegated_debits_since (bytecode_is_eip7702 H) (journal_state H x) (journal_entries H x) (journal_i H c) (evm_tx H x)"

definition has_reserve_violation ::
  "('x, 'c, 'g, 'i, 'rg, 'e) handler_ops \<Rightarrow> tx_id \<Rightarrow> 'c \<Rightarrow> 'x \<Rightarrow> reserve_planner \<Rightarrow> bool \<times> reserve_planner" where
  "has_reserve_violation H txid c x p = violation_loop (max_spending H) txid (iteration_order H (reserve_candidates H c x)) p"

definition reserve_violation_result :: "('x, 'c, 'g, 'i, 'rg, 'e) handler_ops \<Rightarrow> 'g \<Rightarrow> 'g frame_result" where
  "reserve_violation_result H g = \<lparr>fr_kind = CallFrame, fr_status = IrRevert, fr_output = [], fr_gas = set_refund H 0 g\<rparr>"

definition reapply_create_sender_nonce ::
  "('x, 'c, 'g, 'i, 'rg, 'e) handler_ops \<Rightarrow> 'x \<Rightarrow> 'e evm_error + 'x" where
  "reapply_create_sender_nonce H x =
    (case load_and_bump_nonce H (caller (evm_tx H x)) x of
       Inl e \<Rightarrow> Inl e
     | Inr (bumped, x1) \<Rightarrow> if bumped then Inr x1 else Inl (TransactionError NonceOverflowInTransaction))"

text \<open>Refund, gas components, gas floor and reimbursement, in the order of both lifecycles.\<close>

definition settle_gas ::
  "('x, 'c, 'g, 'i, 'rg, 'e) handler_ops \<Rightarrow> 'i \<Rightarrow> int \<Rightarrow> 'g frame_result \<Rightarrow> 'x \<Rightarrow> 'e evm_error + 'rg \<times> 'g frame_result \<times> 'x" where
  "settle_gas H i auth_refund fr x =
    (let (fr1, x1) = refund H auth_refund fr x;
         result_gas = build_result_gas H (is_halt H (fr_status fr1)) (fr_gas fr1) i;
         (fr2, x2) = check_gas_floor H i fr1 x1
     in case reimburse_caller H fr2 x2 of
          Inl e \<Rightarrow> Inl e
        | Inr x3 \<Rightarrow> Inr (result_gas, fr2, x3))"

text \<open>\<open>enforce_reserve\<close>; the outer \<open>None\<close> is the panic of a missing checkpoint.\<close>

definition enforce_reserve ::
  "('x, 'c, 'g, 'i, 'rg, 'e) handler_ops \<Rightarrow> tx_id \<Rightarrow> 'g \<Rightarrow> 'i \<Rightarrow> int \<Rightarrow> 'g frame_result \<Rightarrow> 'c handler_cells \<Rightarrow> 'x \<Rightarrow>
    ('e evm_error + 'rg option \<times> 'g frame_result \<times> 'c handler_cells \<times> 'x) option" where
  "enforce_reserve H txid execution_gas i auth_refund fr cells x =
    do { c \<leftarrow> execution_checkpoint cells;
         let (violated, p) = has_reserve_violation H txid c x (shared_planner cells);
         let cells1 = cells\<lparr>execution_checkpoint := None, shared_planner := p\<rparr>;
         Some (if violated then
                 let recreate = (kind (evm_tx H x) = TxCreate);
                     x1 = checkpoint_revert H c x;
                     fr1 = reserve_violation_result H execution_gas
                 in (case (if recreate then reapply_create_sender_nonce H x1 else Inr x1) of
                       Inl e \<Rightarrow> Inl e
                     | Inr x2 \<Rightarrow>
                         (case settle_gas H i auth_refund fr1 x2 of
                            Inl e \<Rightarrow> Inl e
                          | Inr (rg, fr2, x3) \<Rightarrow> Inr (Some rg, fr2, cells1, x3)))
               else Inr (None, fr, cells1, checkpoint_commit H x)) }"

definition apply_beneficiary ::
  "('x, 'c, 'g, 'i, 'rg, 'e) handler_ops \<Rightarrow> beneficiary_mode \<Rightarrow> 'g frame_result \<Rightarrow> 'c handler_cells \<Rightarrow> 'x \<Rightarrow>
    ('e evm_error + 'c handler_cells \<times> 'x) option" where
  "apply_beneficiary H m fr cells x =
    map_option (map_sum id (\<lambda>(x', cell). (cells\<lparr>deferred_cell := cell\<rparr>, x')))
      (mode_apply m (reward_context H x) (reward_hook H (fr_gas fr)) (holds_beneficiary H) (gas_view H (fr_gas fr)) x
        (deferred_cell cells))"

definition post_execution ::
  "('x, 'c, 'g, 'i, 'rg, 'e) handler_ops \<Rightarrow> tx_id \<Rightarrow> beneficiary_mode \<Rightarrow> 'i \<Rightarrow> int \<Rightarrow> 'g frame_result \<Rightarrow> 'c handler_cells \<Rightarrow> 'x \<Rightarrow>
    ('e evm_error + 'rg \<times> 'g frame_result \<times> 'c handler_cells \<times> 'x) option" where
  "post_execution H txid m i auth_refund fr cells x =
    (case settle_gas H i auth_refund fr x of
       Inl e \<Rightarrow> Some (Inl e)
     | Inr (rg, fr1, x1) \<Rightarrow>
         do { r \<leftarrow> enforce_reserve H txid (fr_gas fr) i auth_refund fr1 cells x1;
              (case r of
                 Inl e \<Rightarrow> Some (Inl e)
               | Inr (reserve_gas, fr2, cells2, x2) \<Rightarrow>
                   do { s \<leftarrow> apply_beneficiary H m fr2 cells2 x2;
                        Some (case s of
                            Inl e \<Rightarrow> Inl e
                          | Inr (cells3, x3) \<Rightarrow>
                              Inr (case reserve_gas of Some rg' \<Rightarrow> rg' | None \<Rightarrow> rg, fr2, cells3, x3)) }) })"

section \<open>The handler\<close>

text \<open>The hooks a handler overrides; a missing hook is revm's default. Both handlers apply the
  beneficiary policy, the second one at the end of its own \<open>post_execution\<close>.\<close>

record ('x, 'c, 'g, 'i, 'rg, 'e) handler_hooks =
  hook_pre :: "('i \<Rightarrow> 'c handler_cells \<Rightarrow> 'x \<Rightarrow> 'e evm_error + u64 \<times> 'i \<times> 'c handler_cells \<times> 'x) option"
  hook_post :: "('i \<Rightarrow> int \<Rightarrow> 'g frame_result \<Rightarrow> 'c handler_cells \<Rightarrow> 'x \<Rightarrow>
    ('e evm_error + 'rg \<times> 'g frame_result \<times> 'c handler_cells \<times> 'x) option) option"
  hook_reward :: "('g frame_result \<Rightarrow> 'c handler_cells \<Rightarrow> 'x \<Rightarrow> ('e evm_error + 'c handler_cells \<times> 'x) option) option"

definition no_reserve_hooks ::
  "('x, 'c, 'g, 'i, 'rg, 'e) handler_ops \<Rightarrow> beneficiary_mode \<Rightarrow> ('x, 'c, 'g, 'i, 'rg, 'e) handler_hooks" where
  "no_reserve_hooks H m = \<lparr>hook_pre = None, hook_post = None, hook_reward = Some (apply_beneficiary H m)\<rparr>"

definition with_reserve_hooks ::
  "('x, 'c, 'g, 'i, 'rg, 'e) handler_ops \<Rightarrow> tx_id \<Rightarrow> beneficiary_mode \<Rightarrow> ('x, 'c, 'g, 'i, 'rg, 'e) handler_hooks" where
  "with_reserve_hooks H txid m =
    \<lparr>hook_pre = Some (pre_execution H), hook_post = Some (post_execution H txid m), hook_reward = None\<rparr>"

text \<open>\<open>GrevmHandler::run\<close>. \<open>revm_run\<close> is \<open>Handler::run\<close> with the given hooks.\<close>

definition handler_run ::
  "('x, 'c, 'g, 'i, 'rg, 'e) handler_ops \<Rightarrow>
    (('x, 'c, 'g, 'i, 'rg, 'e) handler_hooks \<Rightarrow> 'c handler_cells \<Rightarrow> 'x \<Rightarrow> ('e evm_error + 'r \<times> 'c handler_cells \<times> 'x) option) \<Rightarrow>
    reserve_mode \<Rightarrow> beneficiary_mode \<Rightarrow> reserve_planner \<Rightarrow> 'x \<Rightarrow> ('e evm_error + 'r handler_output \<times> 'x) option" where
  "handler_run H revm_run mode m p x =
    map_option (map_sum id (\<lambda>(r, cells, x'). (\<lparr>ho_result = r, ho_deferred_reward = deferred_cell cells\<rparr>, x')))
      (case mode of
         NoReserve \<Rightarrow> revm_run (no_reserve_hooks H m) (cells_new p) x
       | WithReserve txid \<Rightarrow> revm_run (with_reserve_hooks H txid m) (cells_new p) x)"

section \<open>The creation guard\<close>

text \<open>\<open>guarded_create\<close>: \<open>load_delegated\<close> is \<open>Host::load_account_delegated\<close>, which returns whether the loaded
  account has a delegation designator (with the coldness of the delegate), and \<open>create\<close> revm's own
  instruction.\<close>

definition guarded_create ::
  "bool \<Rightarrow> bool \<Rightarrow> bool \<Rightarrow> ('h \<Rightarrow> bool option option \<times> 'h) \<Rightarrow> ('h \<Rightarrow> (instruction_result + unit) \<times> 'h) \<Rightarrow> 'h \<Rightarrow>
    (instruction_result + unit) \<times> 'h" where
  "guarded_create is_create2 is_static petersburg load_delegated create h =
    (if is_static then (Inl IrStaticCall, h)
     else if is_create2 \<and> \<not> petersburg then (Inl IrNotActivated, h)
     else case load_delegated h of
       (None, h1) \<Rightarrow> (Inl IrFatal, h1)
     | (Some (Some cold), h1) \<Rightarrow> (Inl IrNotActivated, h1)
     | (Some None, h1) \<Rightarrow> create h1)"

section \<open>The check is exact\<close>

lemma required_future:
  assumes "planner_ok spend p" and "required_after spend txid a p = (r, p1)"
  shows "unat r = min (future_cost spend (rp_txs p) txid a) (2 ^ 256 - 1)" "planner_ok spend p1" "rp_txs p1 = rp_txs p"
proof -
  have "filter (\<lambda>j. txid < j) (sender_txids (rp_txs p) a) =
      filter (\<lambda>j. caller (rp_txs p ! j) = a \<and> txid < j) [0..<length (rp_txs p)]"
    by (simp add: sender_txids_def conj_commute)
  then show "unat r = min (future_cost spend (rp_txs p) txid a) (2 ^ 256 - 1)" "planner_ok spend p1" "rp_txs p1 = rp_txs p"
    using required_after_correct [OF assms(1), of txid a] assms(2) by (simp_all add: unat_sat_sum future_cost_def comp_def)
qed

text \<open>The debit takes more than the reserve allows.\<close>

definition breaks_reserve :: "(tx_env \<Rightarrow> u256 option) \<Rightarrow> tx_env list \<Rightarrow> tx_id \<Rightarrow> delegated_debit \<Rightarrow> bool" where
  "breaks_reserve spend txs txid d \<longleftrightarrow>
    unat (final_balance d) < min (unat (balance_before d)) (future_cost spend txs txid (dd_address d))"

lemma min_reserve:
  assumes "unat r = min n (2 ^ 256 - 1)"
  shows "final < min before r \<longleftrightarrow> unat final < min (unat (before :: u256)) n"
proof -
  have "unat (min before r) = min (unat before) (unat r)" by (simp add: min_def word_le_nat_alt)
  moreover have "unat before < 2 ^ LENGTH(256)" by (rule unsigned_less)
  ultimately have "unat (min before r) = min (unat before) n" using assms by (simp add: min_def)
  then show ?thesis by (simp add: word_less_nat_alt)
qed

lemma min_word_zero: "min x 0 = (0 :: u256)"
  by (simp add: min_def)

lemma violation_loop_correct:
  "planner_ok spend p \<Longrightarrow>
    fst (violation_loop spend txid ds p) = (\<exists>d \<in> set ds. breaks_reserve spend (rp_txs p) txid d) \<and>
    planner_ok spend (snd (violation_loop spend txid ds p)) \<and> rp_txs (snd (violation_loop spend txid ds p)) = rp_txs p"
proof (induction ds arbitrary: p)
  case (Cons d ds)
  obtain r p1 where r: "required_after spend txid (dd_address d) p = (r, p1)" by fastforce
  note f = required_future [OF Cons.prems r]
  have "breaks_reserve spend (rp_txs p) txid d \<longleftrightarrow> r \<noteq> 0 \<and> final_balance d < min (balance_before d) r"
    using min_reserve [OF f(1), of "final_balance d" "balance_before d"]
    by (cases "r = 0") (simp_all add: breaks_reserve_def min_word_zero)
  then show ?case using Cons.IH [OF f(2)] f(2,3) by (auto simp: r Let_def)
qed simp

lemma has_reserve_violation_correct:
  assumes "planner_ok (max_spending H) p" and "\<And>ds. set (iteration_order H ds) = set ds"
  shows "fst (has_reserve_violation H txid c x p) =
      (\<exists>d \<in> set (reserve_candidates H c x). breaks_reserve (max_spending H) (rp_txs p) txid d)"
    "planner_ok (max_spending H) (snd (has_reserve_violation H txid c x p))"
  using violation_loop_correct [OF assms(1)] assms(2) by (simp_all add: has_reserve_violation_def)

section \<open>The first debit of a delegated account\<close>

fun skip_root :: "tx_env \<Rightarrow> (usize \<times> journal_entry) list \<Rightarrow> (usize \<times> journal_entry) list" where
  "skip_root tx [] = []"
| "skip_root tx ((i, e) # es) = (if is_root_value_transfer tx e then es else (i, e) # skip_root tx es)"

text \<open>The entries since the checkpoint, without the transaction's own value transfer.\<close>

definition protected_entries :: "tx_env \<Rightarrow> usize \<Rightarrow> journal_entry list \<Rightarrow> (usize \<times> journal_entry) list" where
  "protected_entries tx ck es =
    (let l = enumerate ck (drop ck es) in if tx_value tx \<noteq> 0 then skip_root tx l else l)"

definition debit_step :: "(address \<Rightarrow> bool) \<Rightarrow> usize \<times> journal_entry \<Rightarrow> (address \<times> usize) list \<Rightarrow> (address \<times> usize) list" where
  "debit_step del = (\<lambda>(i, e) acc.
    case debit_source e of None \<Rightarrow> acc | Some a \<Rightarrow> if del a \<and> map_of acc a = None then acc @ [(a, i)] else acc)"

lemma first_debits_fold:
  "first_debits iz js tx i es pending acc =
    fold (debit_step (is_delegated iz js)) (if pending then skip_root tx (enumerate i es) else enumerate i es) acc"
  by (induction iz js tx i es pending acc rule: first_debits.induct) (auto simp: debit_step_def split: option.splits)

lemma debit_fold:
  "map_of (fold (debit_step del) l acc) a =
    (case map_of acc a of
       Some k \<Rightarrow> Some k
     | None \<Rightarrow> if del a then map_option fst (find (\<lambda>(i, e). debit_source e = Some a) l) else None)"
  by (induction l arbitrary: acc) (auto simp: debit_step_def split: option.splits prod.splits)

lemma first_debit_found:
  assumes "find (\<lambda>(i, e). debit_source e = Some a) (protected_entries tx ck es) = Some (i, e)" and "is_delegated iz js a"
    and "js a = Some info"
  shows "\<lparr>dd_address = a, balance_before = balance_before_entry es i a (info_balance info), final_balance = info_balance info\<rparr>
    \<in> set (delegated_debits_since iz js es ck tx)"
proof -
  have "map_of (first_debits iz js tx ck (drop ck es) (tx_value tx \<noteq> 0) []) a = Some i"
    using assms(1,2) by (simp add: first_debits_fold debit_fold protected_entries_def Let_def)
  then have "(a, i) \<in> set (first_debits iz js tx ck (drop ck es) (tx_value tx \<noteq> 0) [])" by (rule map_of_SomeD)
  then show ?thesis using assms(3) by (force simp: delegated_debits_since_def List.map_filter_def)
qed

lemma delegated_loaded: "is_delegated iz js a \<Longrightarrow> js a \<noteq> None"
  by (cases "js a") (auto simp: is_delegated_def)

section \<open>A violation is a plain revert\<close>

text \<open>Documented behaviour of revm that the check relies on, for an observation \<open>view\<close> of the EVM state:
  anything that reverting a checkpoint restores, such as accounts, storage, transient storage and logs.
  Refunds and the gas floor change the gas of a frame only; refunds, floor, reimbursement and nonce bump
  depend on, and change, what the observation shows.\<close>

definition gas_laws :: "('x, 'c, 'g, 'i, 'rg, 'e) handler_ops \<Rightarrow> ('x \<Rightarrow> 'v) \<Rightarrow> bool" where
  "gas_laws H view \<longleftrightarrow>
    (\<forall>n fr x. \<exists>g. fst (refund H n fr x) = fr\<lparr>fr_gas := g\<rparr>) \<and> (\<forall>i fr x. \<exists>g. fst (check_gas_floor H i fr x) = fr\<lparr>fr_gas := g\<rparr>) \<and>
    (\<forall>x y. view x = view y \<longrightarrow> evm_tx H x = evm_tx H y \<and>
      (\<forall>n fr. rel_prod (=) (\<lambda>a b. view a = view b) (refund H n fr x) (refund H n fr y)) \<and>
      (\<forall>i fr. rel_prod (=) (\<lambda>a b. view a = view b) (check_gas_floor H i fr x) (check_gas_floor H i fr y)) \<and>
      (\<forall>fr. rel_sum (=) (\<lambda>a b. view a = view b) (reimburse_caller H fr x) (reimburse_caller H fr y)) \<and>
      (\<forall>a. rel_sum (=) (rel_prod (=) (\<lambda>a b. view a = view b)) (load_and_bump_nonce H a x) (load_and_bump_nonce H a y)))"

text \<open>\<open>opn c y x\<close>: checkpoint \<open>c\<close>, taken in \<open>y\<close>, is open in \<open>x\<close>. The gas operations leave it open, and
  reverting it shows \<open>y\<close> again.\<close>

definition revert_laws ::
  "('x, 'c, 'g, 'i, 'rg, 'e) handler_ops \<Rightarrow> ('c \<Rightarrow> 'x \<Rightarrow> 'x \<Rightarrow> bool) \<Rightarrow> ('x \<Rightarrow> 'v) \<Rightarrow> bool" where
  "revert_laws H opn view \<longleftrightarrow>
    (\<forall>c y x. opn c y x \<longrightarrow> evm_tx H x = evm_tx H y \<and> view (checkpoint_revert H c x) = view y \<and>
      (\<forall>n fr. opn c y (snd (refund H n fr x))) \<and> (\<forall>i fr. opn c y (snd (check_gas_floor H i fr x))) \<and>
      (\<forall>fr x'. reimburse_caller H fr x = Inr x' \<longrightarrow> opn c y x'))"

text \<open>The steps of \<open>settle_gas\<close> that returns.\<close>

lemma settle_gasE:
  assumes "settle_gas H i n fr x = Inr (rg, fr', x')"
  obtains fr1 x1 x2 where "refund H n fr x = (fr1, x1)" and "rg = build_result_gas H (is_halt H (fr_status fr1)) (fr_gas fr1) i"
    and "check_gas_floor H i fr1 x1 = (fr', x2)" and "reimburse_caller H fr' x2 = Inr x'"
  using assms by (auto simp: settle_gas_def Let_def split: prod.splits sum.splits)

lemma settle_gas_open:
  assumes "revert_laws H opn view" and "settle_gas H i n fr x = Inr (rg, fr', x')" and "opn c y x"
  shows "opn c y x'"
proof -
  from assms(2) obtain fr1 x1 x2 where s: "refund H n fr x = (fr1, x1)" "check_gas_floor H i fr1 x1 = (fr', x2)"
    "reimburse_caller H fr' x2 = Inr x'" by (rule settle_gasE)
  have "opn c y x1" using assms(1,3) s(1) unfolding revert_laws_def by (metis snd_conv)
  then have "opn c y x2" using assms(1) s(2) unfolding revert_laws_def by (metis snd_conv)
  then show ?thesis using assms(1) s(3) unfolding revert_laws_def by blast
qed

text \<open>Settling the gas of one frame in two states that show the same.\<close>

lemma settle_gas_view:
  assumes laws: "gas_laws H view" and sg: "settle_gas H i n fr x = Inr (rg, fr', x')" and "view x = view y"
  obtains y' where "settle_gas H i n fr y = Inr (rg, fr', y')" and "view x' = view y'" and "fr_status fr' = fr_status fr" and "fr_output fr' = fr_output fr"
proof -
  from sg obtain fr1 x1 x2 where s: "refund H n fr x = (fr1, x1)" "rg = build_result_gas H (is_halt H (fr_status fr1)) (fr_gas fr1) i"
    "check_gas_floor H i fr1 x1 = (fr', x2)" "reimburse_caller H fr' x2 = Inr x'" by (rule settle_gasE)
  have "rel_prod (=) (\<lambda>a b. view a = view b) (refund H n fr x) (refund H n fr y)" using laws assms(3) unfolding gas_laws_def by blast
  then obtain y1 where y1: "refund H n fr y = (fr1, y1)" "view x1 = view y1" using s(1) by (cases "refund H n fr y") auto
  have "rel_prod (=) (\<lambda>a b. view a = view b) (check_gas_floor H i fr1 x1) (check_gas_floor H i fr1 y1)"
    using laws y1(2) unfolding gas_laws_def by blast
  then obtain y2 where y2: "check_gas_floor H i fr1 y1 = (fr', y2)" "view x2 = view y2" using s(3) by (cases "check_gas_floor H i fr1 y1") auto
  have "rel_sum (=) (\<lambda>a b. view a = view b) (reimburse_caller H fr' x2) (reimburse_caller H fr' y2)"
    using laws y2(2) unfolding gas_laws_def by blast
  then obtain y' where "reimburse_caller H fr' y2 = Inr y'" "view x' = view y'" using s(4) by (auto elim: rel_sum.cases)
  moreover obtain g1 g2 where "fr1 = fr\<lparr>fr_gas := g1\<rparr>" "fr' = fr1\<lparr>fr_gas := g2\<rparr>"
    using laws s(1,3) unfolding gas_laws_def by (metis fst_conv)
  ultimately show thesis using that y1(1) y2(1) s(2) by (simp add: settle_gas_def)
qed

text \<open>The sender's nonce after a reverted creation.\<close>

lemma nonce_view:
  assumes laws: "gas_laws H view" and "view x = view y" and "reapply_create_sender_nonce H x = Inr x'"
  obtains y' where "load_and_bump_nonce H (caller (evm_tx H y)) y = Inr (True, y')" and "view x' = view y'"
proof -
  let ?a = "caller (evm_tx H y)"
  have tx: "evm_tx H x = evm_tx H y" using laws assms(2) unfolding gas_laws_def by blast
  then have "load_and_bump_nonce H ?a x = Inr (True, x')"
    using assms(3) by (auto simp: reapply_create_sender_nonce_def split: sum.splits if_splits)
  moreover have "rel_sum (=) (rel_prod (=) (\<lambda>a b. view a = view b)) (load_and_bump_nonce H ?a x) (load_and_bump_nonce H ?a y)"
    using laws assms(2) unfolding gas_laws_def by blast
  ultimately show thesis using that by (auto elim!: rel_sum.cases)
qed

section \<open>A concrete journal for the witnesses\<close>

record sample_evm =
  se_state :: "address \<rightharpoonup> account_info"
  se_journal :: "journal_entry list"
  se_tx :: tx_env

definition sample_credit :: "u256 \<Rightarrow> address \<Rightarrow> sample_evm \<Rightarrow> sample_evm" where
  "sample_credit v a x =
    x\<lparr>se_state := (se_state x)(a := map_option (\<lambda>i. i\<lparr>info_balance := info_balance i + v\<rparr>) (se_state x a))\<rparr>"

text \<open>Gas is a number, reimbursed one to one to the caller; code \<open>[1]\<close> is a delegation designator and every
  transaction may spend 7.\<close>

definition sample_handler :: "(sample_evm, nat \<times> (address \<rightharpoonup> account_info), nat, nat, nat, nat) handler_ops" where
  "sample_handler =
    \<lparr>validate_and_deduct = (\<lambda>i x. Inr (i, x)), load_accounts = Inr, apply_auth_list = (\<lambda>i x. Inr (0, i, x)),
     checkpoint = (\<lambda>x. ((length (se_journal x), se_state x), x)), journal_i = fst,
     checkpoint_revert = (\<lambda>c x. x\<lparr>se_state := snd c, se_journal := take (fst c) (se_journal x)\<rparr>), checkpoint_commit = id,
     journal_entries = se_journal, journal_state = se_state, evm_tx = se_tx, refund = (\<lambda>_ fr x. (fr, x)),
     build_result_gas = (\<lambda>_ g _. g), check_gas_floor = (\<lambda>_ fr x. (fr, x)),
     reimburse_caller = (\<lambda>fr x. Inr (sample_credit (of_nat (fr_gas fr)) (caller (se_tx x)) x)),
     load_and_bump_nonce = (\<lambda>a x. Inr (True, x\<lparr>se_state := (se_state x)(a := map_option (\<lambda>i. i\<lparr>info_nonce := info_nonce i + 1\<rparr>) (se_state x a))\<rparr>)),
     set_refund = (\<lambda>_ g. g), is_halt = (\<lambda>_. False), gas_view = (\<lambda>g. \<lparr>gas_used = of_nat g, gas_reservoir = 0\<rparr>),
     reward_context = (\<lambda>_. \<lparr>fee_charge_disabled = True, basefee = 0, effective_gas_price = id, london_enabled = True\<rparr>),
     reward_hook = (\<lambda>g x. Inr (sample_credit (of_nat g) 9 x)), holds_beneficiary = (\<lambda>x. se_state x 9 \<noteq> None),
     bytecode_is_eip7702 = (\<lambda>code. code = [1]), max_spending = (\<lambda>_. Some 7), iteration_order = rev\<rparr>"

lemma sample_ops [simp]:
  "checkpoint_revert sample_handler c x = x\<lparr>se_state := snd c, se_journal := take (fst c) (se_journal x)\<rparr>"
  "checkpoint_commit sample_handler x = x" "journal_i sample_handler = fst" "journal_entries sample_handler = se_journal"
  "journal_state sample_handler = se_state" "evm_tx sample_handler = se_tx" "refund sample_handler n fr x = (fr, x)"
  "check_gas_floor sample_handler i fr x = (fr, x)" "build_result_gas sample_handler h g i = g"
  "reimburse_caller sample_handler fr x = Inr (sample_credit (of_nat (fr_gas fr)) (caller (se_tx x)) x)"
  "load_and_bump_nonce sample_handler a x = Inr (True, x\<lparr>se_state := (se_state x)(a := map_option (\<lambda>i. i\<lparr>info_nonce := info_nonce i + 1\<rparr>) (se_state x a))\<rparr>)"
  "set_refund sample_handler r g = g" "reward_hook sample_handler g x = Inr (sample_credit (of_nat g) 9 x)"
  "bytecode_is_eip7702 sample_handler code = (code = [1])" "max_spending sample_handler tx = Some 7"
  "iteration_order sample_handler ds = rev ds"
  by (simp_all add: sample_handler_def)

lemma sample_credit_fields [simp]: "se_tx (sample_credit v a x) = se_tx x" "se_journal (sample_credit v a x) = se_journal x"
  by (simp_all add: sample_credit_def)

abbreviation sample_open :: "nat \<times> (address \<rightharpoonup> account_info) \<Rightarrow> sample_evm \<Rightarrow> sample_evm \<Rightarrow> bool" where
  "sample_open c y x \<equiv> snd c = se_state y \<and> take (fst c) (se_journal x) = se_journal y \<and> se_tx x = se_tx y"

lemma sample_gas_laws: "gas_laws sample_handler id"
proof -
  have "\<exists>g. fr = fr\<lparr>fr_gas := g\<rparr>" for fr :: "nat frame_result" by (rule exI [of _ "fr_gas fr"]) simp
  then show ?thesis by (auto simp: gas_laws_def rel_sum.simps)
qed

lemma sample_revert_laws: "revert_laws sample_handler sample_open id"
  by (auto simp: revert_laws_def)

text \<open>The delegated account 1 held 10, and its own later transaction may cost 7. The execution moves
  \<open>v\<close> away.\<close>

definition sample_accounts :: "u256 \<Rightarrow> address \<rightharpoonup> account_info" where
  "sample_accounts b = [1 \<mapsto> \<lparr>info_balance = b, info_nonce = 4, info_code_hash = 5, info_code = Some [1]\<rparr>,
    2 \<mapsto> sample_info 50, 3 \<mapsto> sample_info (10 - b)]"

definition sample_call :: "address \<Rightarrow> tx_env" where
  "sample_call a = \<lparr>caller = a, tx_nonce = 0, tx_value = 0, kind = TxCall 1\<rparr>"

definition sample_executed :: "u256 \<Rightarrow> sample_evm" where
  "sample_executed v = \<lparr>se_state = sample_accounts (10 - v), se_journal = [BalanceTransfer 1 3 v], se_tx = sample_call 2\<rparr>"

definition sample_cells :: "(nat \<times> (address \<rightharpoonup> account_info)) handler_cells" where
  "sample_cells = (cells_new (planner_new [sample_call 2, sample_call 1]))\<lparr>execution_checkpoint := Some (0, sample_accounts 10)\<rparr>"

definition sample_frame :: "nat frame_result" where
  "sample_frame = \<lparr>fr_kind = CallFrame, fr_status = IrOther 0, fr_output = [3], fr_gas = 6\<rparr>"

lemma sample_settle:
  "settle_gas sample_handler 0 0 sample_frame (sample_executed v) = Inr (6, sample_frame, sample_credit 6 2 (sample_executed v))"
  by (simp add: settle_gas_def sample_frame_def sample_executed_def sample_call_def)

lemma sample_candidates:
  "v \<noteq> 0 \<Longrightarrow> reserve_candidates sample_handler (0, S) (sample_credit 6 2 (sample_executed v)) =
    [\<lparr>dd_address = 1, balance_before = saturating_add (10 - v) v, final_balance = 10 - v\<rparr>]"
  by (simp add: reserve_candidates_def sample_credit_def sample_executed_def sample_accounts_def
      delegated_debits_since_def is_delegated_def sample_call_def balance_before_entry_def undo_entry_def List.map_filter_def)

lemma sample_planner: "planner_ok (max_spending sample_handler) (shared_planner sample_cells)"
  by (simp add: sample_cells_def cells_new_def planner_new_ok)

lemma sample_violation:
  assumes "v = 2 \<or> v = 5"
  shows "fst (has_reserve_violation sample_handler 0 (0, S) (sample_credit 6 2 (sample_executed v)) (shared_planner sample_cells)) \<longleftrightarrow> v = 5"
proof -
  have "future_cost (max_spending sample_handler) [sample_call 2, sample_call 1] 0 1 = 7"
    by (simp add: future_cost_def tx_cost_def sample_call_def upt_rec)
  moreover have "saturating_add (10 - v) v = 10" using assms by (intro saturating_add_sub) auto
  ultimately show ?thesis
    using has_reserve_violation_correct(1) [OF sample_planner] assms
    by (auto simp: sample_candidates [unfolded] breaks_reserve_def sample_cells_def cells_new_def planner_new_def)
qed

section \<open>Properties\<close>

text \<open>\<^bold>\<open>C23\<close>. The reserve holds after every transaction that keeps its effects. When the handler finds no
  violation, it keeps the execution's own result, and every EIP-7702 account \<open>a\<close> that execution
  debited (the transaction's own value transfer apart) keeps at least the smaller of its true balance
  before its first debit and the maximum cost of its later transactions in the block; this does not
  depend on the iteration order of the hash map of debits or on what the planner had cached.\<close>

theorem reserve_protects:
  assumes "planner_ok (max_spending H) (shared_planner cells)" and "\<And>ds. set (iteration_order H ds) = set ds"
    and "execution_checkpoint cells = Some c" and "settle_gas H i n fr x = Inr (rg0, fr0, x0)"
    and "\<not> fst (has_reserve_violation H txid c x0 (shared_planner cells))"
    and "post_execution H txid m i n fr cells x = Some (Inr (rg, fr', cells', x'))"
    and "is_delegated (bytecode_is_eip7702 H) (journal_state H x0) a"
    and "find (\<lambda>(k, e). debit_source e = Some a) (protected_entries (evm_tx H x0) (journal_i H c) (journal_entries H x0)) = Some (k, e)"
    and "journal_run (drop k (journal_entries H x0)) b b'" and "map_option info_balance (journal_state H x0 a) = Some (b' a)"
  shows "min (unat (b a)) (future_cost (max_spending H) (rp_txs (shared_planner cells)) txid a) \<le> unat (b' a) \<and>
    fr' = fr0 \<and> rg = rg0"
proof -
  obtain info where info: "journal_state H x0 a = Some info" "info_balance info = b' a" using assms(10) by blast
  let ?d = "\<lparr>dd_address = a, balance_before = balance_before_entry (journal_entries H x0) k a (info_balance info),
    final_balance = info_balance info\<rparr>"
  have "?d \<in> set (reserve_candidates H c x0)"
    unfolding reserve_candidates_def by (rule first_debit_found [OF assms(8,7) info(1)])
  then have "\<not> breaks_reserve (max_spending H) (rp_txs (shared_planner cells)) txid ?d"
    using assms(5) has_reserve_violation_correct(1) [OF assms(1,2)] by blast
  moreover have "balance_before_entry (journal_entries H x0) k a (b' a) = b a"
    using undo_run [OF assms(9)] by (simp add: balance_before_entry_def)
  ultimately show ?thesis using assms(3-6) info(2)
    by (auto simp: breaks_reserve_def post_execution_def enforce_reserve_def Let_def split: prod.splits option.splits sum.splits Option.bind_splits)
qed

theorem reserve_protects_witness:
  "min 10 (future_cost (max_spending sample_handler) [sample_call 2, sample_call 1] 0 1) \<le> unat (8 :: u256)"
proof -
  let ?x = "sample_credit 6 2 (sample_executed 2)" and ?b = "(\<lambda>_. 0)(1 := 10) :: address \<Rightarrow> u256" 
    and ?b' = "(\<lambda>_. 0)(1 := 8, 3 := 2) :: address \<Rightarrow> u256"
  have "\<exists>cells' x'. post_execution sample_handler 0 Immediate 0 0 sample_frame sample_cells (sample_executed 2) =
      Some (Inr (6, sample_frame, cells', x'))"
    using sample_violation [of 2 "sample_accounts 10"]
    by (auto simp: post_execution_def sample_settle enforce_reserve_def sample_cells_def apply_beneficiary_def mode_apply_def Let_def
        split: prod.splits)
  then obtain cells' x' where "post_execution sample_handler 0 Immediate 0 0 sample_frame sample_cells (sample_executed 2) =
      Some (Inr (6, sample_frame, cells', x'))" by blast
  note pe = this
  have run: "journal_run (drop 0 (journal_entries sample_handler ?x)) ?b ?b'"
    using journal_step.transfer [of 1 3 2 ?b] by (simp add: sample_executed_def)
  have "is_delegated (bytecode_is_eip7702 sample_handler) (journal_state sample_handler ?x) 1"
    and "find (\<lambda>(k, e). debit_source e = Some 1)
        (protected_entries (evm_tx sample_handler ?x) (journal_i sample_handler (0, sample_accounts 10)) (journal_entries sample_handler ?x)) =
      Some (0, BalanceTransfer 1 3 2)"
    and "map_option info_balance (journal_state sample_handler ?x 1) = Some (?b' 1)"
    by (simp_all add: is_delegated_def sample_credit_def sample_executed_def sample_accounts_def protected_entries_def sample_call_def)
  note * = reserve_protects [OF sample_planner _ _ sample_settle _ pe this(1,2) run this(3)]
  show ?thesis using * sample_violation [of 2 "sample_accounts 10"]
    by (simp add: sample_cells_def cells_new_def planner_new_def)
qed

text \<open>\<^bold>\<open>C24\<close>. A reserve violation ends as a plain revert that is charged for the execution. The frame
  is a revert without output, and gas, frame and everything a revert restores are exactly what settling
  such a frame, with the gas the execution used and no refund, gives in the state \<open>y\<close> in which the checkpoint
  was taken: nothing of the execution is left, and the sender pays as for any revert after that much gas.
  The sender's nonce is bumped again for a contract creation, and the beneficiary policy follows on that
  state.\<close>

theorem reserve_violation_reverts:
  assumes laws: "gas_laws H view" "revert_laws H opn view" and opn: "opn c y x" and c: "execution_checkpoint cells = Some c"
    and sg: "settle_gas H i n fr x = Inr (rg0, fr0, x0)" and v: "fst (has_reserve_violation H txid c x0 (shared_planner cells))"
    and post: "post_execution H txid m i n fr cells x = Some (Inr (rg, fr', cells', x'))"
    and revert: "revert = \<lparr>fr_kind = CallFrame, fr_status = IrRevert, fr_output = [], fr_gas = set_refund H 0 (fr_gas fr)\<rparr>"
  shows "\<exists>y0 y1 x1 cells1.
    (if kind (evm_tx H y) = TxCreate then load_and_bump_nonce H (caller (evm_tx H y)) y = Inr (True, y0) else y0 = y) \<and>
    settle_gas H i n revert y0 = Inr (rg, fr', y1) \<and> fr_status fr' = IrRevert \<and> fr_output fr' = [] \<and>
    view x1 = view y1 \<and> deferred_cell cells1 = deferred_cell cells \<and> apply_beneficiary H m fr' cells1 x1 = Some (Inr (cells', x'))"
proof -
  have opn0: "opn c y x0" by (rule settle_gas_open [OF laws(2) sg opn])
  let ?x1 = "checkpoint_revert H c x0" and ?create = "kind (evm_tx H y) = TxCreate"
  have x1: "evm_tx H x0 = evm_tx H y" "view ?x1 = view y" using laws(2) opn0 unfolding revert_laws_def by blast+
  obtain p where p: "has_reserve_violation H txid c x0 (shared_planner cells) = (True, p)" using v by (metis prod.collapse)
  let ?cells = "cells\<lparr>execution_checkpoint := None, shared_planner := p\<rparr>"
  obtain x2 x3 where x2: "(if ?create then reapply_create_sender_nonce H ?x1 else Inr ?x1) = Inr x2"
    and x3: "settle_gas H i n revert x2 = Inr (rg, fr', x3)" and "apply_beneficiary H m fr' ?cells x3 = Some (Inr (cells', x'))"
    using post sg c p x1(1) unfolding revert
    by (auto simp: post_execution_def enforce_reserve_def reserve_violation_result_def Let_def split: Option.bind_splits sum.splits)
  moreover have "deferred_cell ?cells = deferred_cell cells" by simp
  moreover obtain y0 where y0: "if ?create then load_and_bump_nonce H (caller (evm_tx H y)) y = Inr (True, y0) else y0 = y" "view x2 = view y0"
  proof (cases ?create)
    case True
    then show thesis using x2 that nonce_view [OF laws(1) x1(2), of x2] by auto
  next
    case False
    then show thesis using x2 that x1(2) by auto
  qed
  moreover obtain y1 where "settle_gas H i n revert y0 = Inr (rg, fr', y1)" "view x3 = view y1" "fr_status fr' = fr_status revert" "fr_output fr' = fr_output revert"
    by (rule settle_gas_view [OF laws(1) x3 y0(2)])
  ultimately show ?thesis using revert by fastforce
qed

theorem reserve_violation_reverts_witness:
  "\<exists>fr' cells' x'. post_execution sample_handler 0 Immediate 0 0 sample_frame sample_cells (sample_executed 5) =
      Some (Inr (6, fr', cells', x')) \<and> fr_status fr' = IrRevert \<and> se_journal x' = [] \<and>
    journal_state sample_handler x' 1 = sample_accounts 10 1 \<and> map_option info_balance (journal_state sample_handler x' 2) = Some 56"
proof -
  let ?c = "(0, sample_accounts 10)" and ?y = "\<lparr>se_state = sample_accounts 10, se_journal = [], se_tx = sample_call 2\<rparr>"
  have v: "fst (has_reserve_violation sample_handler 0 ?c (sample_credit 6 2 (sample_executed 5)) (shared_planner sample_cells))"
    using sample_violation [of 5 "sample_accounts 10"] by simp
  have "\<exists>rg fr' cells' x'. post_execution sample_handler 0 Immediate 0 0 sample_frame sample_cells (sample_executed 5) =
      Some (Inr (rg, fr', cells', x'))"
    using v by (auto simp: post_execution_def sample_settle enforce_reserve_def sample_cells_def apply_beneficiary_def mode_apply_def Let_def
        settle_gas_def split: prod.splits) (auto simp: sample_executed_def sample_credit_def sample_call_def)
  then obtain rg fr' cells' x' where
    post: "post_execution sample_handler 0 Immediate 0 0 sample_frame sample_cells (sample_executed 5) = Some (Inr (rg, fr', cells', x'))"
    by blast
  obtain y1 x1 cells1 where y1: "settle_gas sample_handler 0 0
      \<lparr>fr_kind = CallFrame, fr_status = IrRevert, fr_output = [], fr_gas = set_refund sample_handler 0 (fr_gas sample_frame)\<rparr> ?y = Inr (rg, fr', y1)"
    and x1: "fr_status fr' = IrRevert" "x1 = y1" "apply_beneficiary sample_handler Immediate fr' cells1 x1 = Some (Inr (cells', x'))"
    using reserve_violation_reverts [OF sample_gas_laws sample_revert_laws, of ?c ?y "sample_executed 5" sample_cells, OF _ _ sample_settle v post refl]
    by (auto simp: sample_executed_def sample_call_def sample_cells_def)
  have "rg = 6" "y1 = sample_credit 6 2 ?y" using y1 by (simp_all add: settle_gas_def sample_frame_def sample_call_def)
  moreover have "x' = sample_credit (of_nat (fr_gas fr')) 9 x1" using x1(3) by (simp add: apply_beneficiary_def mode_apply_def)
  ultimately show ?thesis using post x1(1,2) by (auto simp: sample_credit_def sample_accounts_def sample_info_def)
qed

end
