(* ===== verification/Precompile.thy ===== *)
theory Precompile
  imports Model
begin

text \<open>
  \<open>precompile.rs\<close>: custom precompiles behind a restricted view of the EVM state. Alloy's \<open>EvmInternals\<close> is
  the abstract journal \<open>'n\<close> with the four operations the facade uses; an implementation is a program
  of requests to the facade, which sees nothing else of the state.
\<close>

section \<open>Errors, journal and facade\<close>

datatype parallel_precompile_error = PHalt string | PFatal string

text \<open>\<open>ParallelPrecompileError::database\<close> on the error's text.\<close>

definition database_error :: "string \<Rightarrow> parallel_precompile_error" where
  "database_error message = PFatal message"

text \<open>\<open>StateLoad\<close>: a value and whether the access was cold.\<close>

record 'a state_load =
  load_data :: 'a
  load_cold :: bool

record ('n, 's) internals_ops =
  int_load_account :: "address \<Rightarrow> 'n \<Rightarrow> (string + account_info state_load) \<times> 'n"
  int_sload :: "address \<Rightarrow> u256 \<Rightarrow> 'n \<Rightarrow> (string + u256 state_load) \<times> 'n"
  int_set_balance :: "address \<Rightarrow> u256 \<Rightarrow> 'n \<Rightarrow> (string + unit state_load) \<times> 'n"
  int_sstore :: "address \<Rightarrow> u256 \<Rightarrow> u256 \<Rightarrow> 'n \<Rightarrow> (string + 's state_load) \<times> 'n"

record 'n precompile_state =
  internals :: 'n
  pst_is_static :: bool
  fault :: "parallel_precompile_error option"

record 'n precompile_input =
  pi_data :: "nat list"
  pi_gas :: u64
  pi_reservoir :: u64
  pi_caller :: address
  pi_value :: u256
  pi_target_address :: address
  pi_bytecode_address :: address
  pi_is_static :: bool
  pi_state :: "'n precompile_state"

record 'n alloy_input =
  ai_data :: "nat list"
  ai_gas :: u64
  ai_reservoir :: u64
  ai_caller :: address
  ai_value :: u256
  ai_target_address :: address
  ai_is_static :: bool
  ai_bytecode_address :: address
  ai_internals :: 'n

definition from_alloy :: "'n alloy_input \<Rightarrow> 'n precompile_input" where
  "from_alloy i =
    \<lparr>pi_data = ai_data i, pi_gas = ai_gas i, pi_reservoir = ai_reservoir i, pi_caller = ai_caller i, pi_value = ai_value i,
     pi_target_address = ai_target_address i, pi_bytecode_address = ai_bytecode_address i, pi_is_static = ai_is_static i,
     pi_state = \<lparr>internals = ai_internals i, pst_is_static = ai_is_static i, fault = None\<rparr>\<rparr>"

definition is_direct_call :: "'n precompile_input \<Rightarrow> bool" where
  "is_direct_call i = (pi_target_address i = pi_bytecode_address i)"

section \<open>Operations of the facade\<close>

definition record_fault ::
  "parallel_precompile_error \<Rightarrow> 'n precompile_state \<Rightarrow> (parallel_precompile_error + 'a) \<times> 'n precompile_state" where
  "record_fault e s = (let f = (case fault s of Some f \<Rightarrow> f | None \<Rightarrow> e) in (Inl f, s\<lparr>fault := Some f\<rparr>))"

definition ensure_healthy :: "'n precompile_state \<Rightarrow> parallel_precompile_error + unit" where
  "ensure_healthy s = (case fault s of None \<Rightarrow> Inr () | Some f \<Rightarrow> Inl f)"

definition ensure_mutable :: "'n precompile_state \<Rightarrow> (parallel_precompile_error + unit) \<times> 'n precompile_state" where
  "ensure_mutable s =
    (case ensure_healthy s of
       Inl f \<Rightarrow> (Inl f, s)
     | Inr _ \<Rightarrow> if pst_is_static s then record_fault (PHalt ''state change during static call'') s else (Inr (), s))"

definition take_fault :: "'n precompile_state \<Rightarrow> parallel_precompile_error option \<times> 'n precompile_state" where
  "take_fault s = (fault s, s\<lparr>fault := None\<rparr>)"

text \<open>The journal's answer, with an error of the journal recorded as the fault.\<close>

definition from_journal ::
  "(string + 'a) \<times> 'n \<Rightarrow> 'n precompile_state \<Rightarrow> (parallel_precompile_error + 'a) \<times> 'n precompile_state" where
  "from_journal r s =
    (case r of
       (Inr v, n) \<Rightarrow> (Inr v, s\<lparr>internals := n\<rparr>)
     | (Inl e, n) \<Rightarrow> record_fault (database_error e) (s\<lparr>internals := n\<rparr>))"

definition pc_balance ::
  "('n, 's) internals_ops \<Rightarrow> address \<Rightarrow> 'n precompile_state \<Rightarrow> (parallel_precompile_error + u256 state_load) \<times> 'n precompile_state" where
  "pc_balance I a s =
    (case ensure_healthy s of
       Inl f \<Rightarrow> (Inl f, s)
     | Inr _ \<Rightarrow>
         (let (r, n) = int_load_account I a (internals s)
          in from_journal (map_sum id (\<lambda>l. \<lparr>load_data = info_balance (load_data l), load_cold = load_cold l\<rparr>) r, n) s))"

definition pc_sload ::
  "('n, 's) internals_ops \<Rightarrow> address \<Rightarrow> u256 \<Rightarrow> 'n precompile_state \<Rightarrow> (parallel_precompile_error + u256 state_load) \<times> 'n precompile_state" where
  "pc_sload I a k s =
    (case ensure_healthy s of
       Inl f \<Rightarrow> (Inl f, s)
     | Inr _ \<Rightarrow> from_journal (int_sload I a k (internals s)) s)"

definition pc_set_balance ::
  "('n, 's) internals_ops \<Rightarrow> address \<Rightarrow> u256 \<Rightarrow> 'n precompile_state \<Rightarrow> (parallel_precompile_error + unit state_load) \<times> 'n precompile_state" where
  "pc_set_balance I a b s =
    (case ensure_mutable s of
       (Inl f, s1) \<Rightarrow> (Inl f, s1)
     | (Inr _, s1) \<Rightarrow> from_journal (int_set_balance I a b (internals s1)) s1)"

definition pc_sstore ::
  "('n, 's) internals_ops \<Rightarrow> address \<Rightarrow> u256 \<Rightarrow> u256 \<Rightarrow> 'n precompile_state \<Rightarrow> (parallel_precompile_error + 's state_load) \<times> 'n precompile_state" where
  "pc_sstore I a k v s =
    (case ensure_mutable s of
       (Inl f, s1) \<Rightarrow> (Inl f, s1)
     | (Inr _, s1) \<Rightarrow> from_journal (int_sstore I a k v (internals s1)) s1)"

section \<open>Implementations and the adapter\<close>

datatype pc_request = QBalance address | QSload address u256 | QSetBalance address u256 | QSstore address u256 u256

datatype 's pc_answer = AWord "u256 state_load" | AUnit "unit state_load" | ASstore "'s state_load"

fun pc_serve ::
  "('n, 's) internals_ops \<Rightarrow> pc_request \<Rightarrow> 'n precompile_state \<Rightarrow> (parallel_precompile_error + 's pc_answer) \<times> 'n precompile_state" where
  "pc_serve I (QBalance a) s = map_prod (map_sum id AWord) id (pc_balance I a s)"
| "pc_serve I (QSload a k) s = map_prod (map_sum id AWord) id (pc_sload I a k s)"
| "pc_serve I (QSetBalance a b) s = map_prod (map_sum id AUnit) id (pc_set_balance I a b s)"
| "pc_serve I (QSstore a k v) s = map_prod (map_sum id ASstore) id (pc_sstore I a k v s)"

text \<open>An implementation asks the facade and may go on after an error as it likes.\<close>

datatype ('o, 's) pc_program =
    PReturn "parallel_precompile_error + 'o"
  | PRequest pc_request "parallel_precompile_error + 's pc_answer \<Rightarrow> ('o, 's) pc_program"

primrec pc_call ::
  "('n, 's) internals_ops \<Rightarrow> ('o, 's) pc_program \<Rightarrow> 'n precompile_state \<Rightarrow> (parallel_precompile_error + 'o) \<times> 'n precompile_state" where
  "pc_call I (PReturn r) s = (r, s)"
| "pc_call I (PRequest q k) s = (let (a, s1) = pc_serve I q s in pc_call I (k a) s1)"

text \<open>The end of the adapter: a halt is a normal output with the forwarded reservoir, made by revm's
  \<open>PrecompileOutput::halt\<close>.\<close>

definition pc_outcome :: "(string \<Rightarrow> u64 \<Rightarrow> 'o) \<Rightarrow> u64 \<Rightarrow> parallel_precompile_error + 'o \<Rightarrow> string + 'o" where
  "pc_outcome halt_output reservoir r =
    (case r of
       Inr out \<Rightarrow> Inr out
     | Inl (PHalt reason) \<Rightarrow> Inr (halt_output reason reservoir)
     | Inl (PFatal e) \<Rightarrow> Inl e)"

definition to_alloy ::
  "('n, 's) internals_ops \<Rightarrow> (string \<Rightarrow> u64 \<Rightarrow> 'o) \<Rightarrow> ('n precompile_input \<Rightarrow> ('o, 's) pc_program) \<Rightarrow> 'n alloy_input \<Rightarrow> (string + 'o) \<times> 'n" where
  "to_alloy I halt_output precompile input =
    (let reservoir = ai_reservoir input;
         restricted = from_alloy input;
         (result, s) = pc_call I (precompile restricted) (pi_state restricted);
         (f, s1) = take_fault s
     in (pc_outcome halt_output reservoir (case f of None \<Rightarrow> result | Some e \<Rightarrow> Inl e), internals s1))"

section \<open>Faults are sticky\<close>

fun is_write :: "pc_request \<Rightarrow> bool" where
  "is_write (QSetBalance a b) = True"
| "is_write (QSstore a k v) = True"
| "is_write q = False"

text \<open>What the journal answers to a request.\<close>

fun journal_answer :: "('n, 's) internals_ops \<Rightarrow> pc_request \<Rightarrow> 'n \<Rightarrow> (string + 's pc_answer) \<times> 'n" where
  "journal_answer I (QBalance a) n =
    map_prod (map_sum id (\<lambda>l. AWord \<lparr>load_data = info_balance (load_data l), load_cold = load_cold l\<rparr>)) id (int_load_account I a n)"
| "journal_answer I (QSload a k) n = map_prod (map_sum id AWord) id (int_sload I a k n)"
| "journal_answer I (QSetBalance a b) n = map_prod (map_sum id AUnit) id (int_set_balance I a b n)"
| "journal_answer I (QSstore a k v) n = map_prod (map_sum id ASstore) id (int_sstore I a k v n)"

abbreviation static_halt :: parallel_precompile_error where
  "static_halt \<equiv> PHalt ''state change during static call''"

lemma from_journal_map: "from_journal (map_prod (map_sum id f) id r) s = map_prod (map_sum id f) id (from_journal r s)"
  by (auto simp: from_journal_def record_fault_def Let_def split: prod.split sum.split)

lemma serve_faulted: "fault s = Some f \<Longrightarrow> pc_serve I q s = (Inl f, s)"
  by (cases q) (simp_all add: pc_balance_def pc_sload_def pc_set_balance_def pc_sstore_def ensure_mutable_def ensure_healthy_def)

lemma serve_healthy:
  assumes "fault s = None"
  shows "pc_serve I q s =
    (if is_write q \<and> pst_is_static s then (Inl static_halt, s\<lparr>fault := Some static_halt\<rparr>)
     else from_journal (journal_answer I q (internals s)) s)"
proof (cases q)
  case (QBalance a)
  obtain r n where "int_load_account I a (internals s) = (r, n)" by fastforce
  then show ?thesis using assms
    by (cases r) (simp_all add: QBalance pc_balance_def ensure_healthy_def from_journal_def record_fault_def Let_def)
qed (use assms in \<open>simp_all add: pc_sload_def pc_set_balance_def pc_sstore_def ensure_mutable_def ensure_healthy_def
  from_journal_map record_fault_def Let_def\<close>)

lemma from_journal_healthy:
  assumes "fault s = None"
  shows "from_journal r s =
    (case r of (Inr v, n) \<Rightarrow> (Inr v, s\<lparr>internals := n\<rparr>)
     | (Inl e, n) \<Rightarrow> (Inl (PFatal e), s\<lparr>internals := n, fault := Some (PFatal e)\<rparr>))"
  using assms by (simp add: from_journal_def record_fault_def database_error_def Let_def split: prod.split sum.split)

lemma call_faulted: "pc_call I prog s = (r, s') \<Longrightarrow> fault s = Some f \<Longrightarrow> s' = s"
  by (induction prog arbitrary: s) (auto simp: serve_faulted)

text \<open>The reference: requests go straight to the journal, and the first failure ends the call.\<close>

primrec pc_abort ::
  "('n, 's) internals_ops \<Rightarrow> bool \<Rightarrow> ('o, 's) pc_program \<Rightarrow> 'n \<Rightarrow> (parallel_precompile_error + 'o) \<times> 'n" where
  "pc_abort I static (PReturn r) n = (r, n)"
| "pc_abort I static (PRequest q k) n =
    (if is_write q \<and> static then (Inl static_halt, n)
     else case journal_answer I q n of
       (Inl e, n1) \<Rightarrow> (Inl (PFatal e), n1)
     | (Inr v, n1) \<Rightarrow> pc_abort I static (k (Inr v)) n1)"

lemma call_abort:
  "fault s = None \<Longrightarrow> pc_call I prog s = (r, s') \<Longrightarrow>
    pc_abort I (pst_is_static s) prog (internals s) = (case fault s' of None \<Rightarrow> r | Some e \<Rightarrow> Inl e, internals s')"
proof (induction prog arbitrary: s)
  case (PRequest q k)
  show ?case
  proof (cases "is_write q \<and> pst_is_static s")
    case True
    let ?s = "s\<lparr>fault := Some static_halt\<rparr>"
    have "pc_call I (k (Inl static_halt)) ?s = (r, s')"
      using PRequest.prems True by (simp add: serve_healthy)
    then have "s' = ?s" by (rule call_faulted) simp
    then show ?thesis using True by simp
  next
    case False
    obtain a n where a: "journal_answer I q (internals s) = (a, n)" by fastforce
    show ?thesis
    proof (cases a)
      case (Inl e)
      let ?s = "s\<lparr>internals := n, fault := Some (PFatal e)\<rparr>"
      have "pc_call I (k (Inl (PFatal e))) ?s = (r, s')"
        using PRequest.prems False by (auto simp: serve_healthy from_journal_healthy a Inl)
      then have "s' = ?s" by (rule call_faulted) simp
      then show ?thesis using False by (auto simp: a Inl)
    next
      case (Inr v)
      have "pc_call I (k (Inr v)) (s\<lparr>internals := n\<rparr>) = (r, s')"
        using PRequest.prems False by (auto simp: serve_healthy from_journal_healthy a Inr)
      then show ?thesis using PRequest.IH [of "k (Inr v)" "s\<lparr>internals := n\<rparr>"] PRequest.prems(1) False by (auto simp: a Inr)
    qed
  qed
qed auto

lemma abort_static:
  assumes "\<And>q n. \<not> is_write q \<Longrightarrow> view (snd (journal_answer I q n)) = view n"
  shows "view (snd (pc_abort I True prog n)) = view n"
proof (induction prog arbitrary: n)
  case (PRequest q k)
  then show ?case using assms [of q n] by (auto split: prod.splits sum.splits)
qed simp

section \<open>Properties\<close>

text \<open>\<^bold>\<open>C25\<close>. The adapter is fault-transparent: however an implementation goes on after a failed request, the
  call behaves as if the first failing request (an error of the journal, or a write in a static
  call) had ended it on the spot. That failure decides the outcome, and the journal is left as at
  that request.\<close>

theorem precompile_fault_transparent:
  "to_alloy I halt_output precompile input =
    (let (r, n) = pc_abort I (ai_is_static input) (precompile (from_alloy input)) (ai_internals input)
     in (pc_outcome halt_output (ai_reservoir input) r, n))"
proof -
  let ?s = "pi_state (from_alloy input)"
  obtain r s' where r: "pc_call I (precompile (from_alloy input)) ?s = (r, s')" by fastforce
  have "fault ?s = None" by (simp add: from_alloy_def)
  from call_abort [OF this r] show ?thesis
    by (auto simp: to_alloy_def r take_fault_def Let_def) (simp_all add: from_alloy_def)
qed

text \<open>\<^bold>\<open>C26\<close>. A precompile called in a static context cannot change what the journal's loads do not change:
  every view of the journal that account and slot loads preserve (balances and storage, say) is
  the same after the call, whatever the implementation requests.\<close>

theorem static_precompile_readonly:
  assumes "\<And>a n. view (snd (int_load_account I a n)) = view n" and "\<And>a k n. view (snd (int_sload I a k n)) = view n"
    and "ai_is_static input"
  shows "view (snd (to_alloy I halt_output precompile input)) = view (ai_internals input)"
proof -
  let ?s = "pi_state (from_alloy input)"
  obtain r s' where r: "pc_call I (precompile (from_alloy input)) ?s = (r, s')" by fastforce
  have "view (snd (journal_answer I q n)) = view n" if "\<not> is_write q" for q n
    using that assms(1,2) by (cases q) simp_all
  from abort_static [of view, OF this] have "view (snd (pc_abort I True (precompile (from_alloy input)) (ai_internals input))) = view (ai_internals input)"
    by blast
  moreover have "fault ?s = None" by (simp add: from_alloy_def)
  ultimately show ?thesis using call_abort [OF _ r] assms(3)
    by (simp add: to_alloy_def r take_fault_def Let_def) (simp add: from_alloy_def)
qed

text \<open>A journal of balances that reads slots as zero and fails for account 13; the program reads, then
  tries to write and pretends success.\<close>

definition sample_internals :: "(address \<Rightarrow> u256, unit) internals_ops" where
  "sample_internals =
    \<lparr>int_load_account = (\<lambda>a n. (if a = 13 then Inl ''db'' else Inr \<lparr>load_data = sample_info (n a), load_cold = False\<rparr>, n)),
     int_sload = (\<lambda>a k n. (Inr \<lparr>load_data = 0, load_cold = True\<rparr>, n)),
     int_set_balance = (\<lambda>a b n. (Inr \<lparr>load_data = (), load_cold = False\<rparr>, n(a := b))),
     int_sstore = (\<lambda>a k v n. (Inr \<lparr>load_data = (), load_cold = False\<rparr>, n))\<rparr>"

definition sample_precompile :: "(address \<Rightarrow> u256) precompile_input \<Rightarrow> (nat, unit) pc_program" where
  "sample_precompile i = PRequest (QBalance (pi_caller i)) (\<lambda>_. PRequest (QSetBalance 2 9) (\<lambda>_. PReturn (Inr 1)))"

definition sample_alloy :: "bool \<Rightarrow> (address \<Rightarrow> u256) alloy_input" where
  "sample_alloy static = \<lparr>ai_data = [], ai_gas = 100, ai_reservoir = 0, ai_caller = 1, ai_value = 0, ai_target_address = 4,
    ai_is_static = static, ai_bytecode_address = 4, ai_internals = (\<lambda>a. 5)\<rparr>"

theorem static_precompile_readonly_witness:
  "snd (to_alloy sample_internals (\<lambda>_ _. 0) sample_precompile (sample_alloy True)) 2 = 5"
  using static_precompile_readonly [where view = "\<lambda>n. n 2" and I = sample_internals and input = "sample_alloy True"
      and precompile = sample_precompile and halt_output = "\<lambda>_ _. 0"]
  by (simp add: sample_internals_def sample_alloy_def)

end
