(* ===== verification/Evm_Build.thy ===== *)
theory Evm_Build
  imports Control Handler Precompile
begin

text \<open>
  The construction of the EVMs: \<open>build_evm\<close> and \<open>GrevmExecutor::new\<close> of \<open>scheduler/executor.rs\<close>,
  \<open>gravity_instructions\<close> of \<open>delegated_safety/instructions.rs\<close>, and the two places that build one, the
  worker threads and the sequential replay. revm's instruction table, its precompiles and the host
  behind an instruction are the argument \<open>M\<close>.
\<close>

section \<open>Configuration\<close>

text \<open>revm's \<open>CfgEnv\<close>: what its spec enables of what this crate asks, the nonce switch, and the other fields.\<close>

record 'k evm_cfg =
  cfg_prague :: bool
  cfg_petersburg :: bool
  cfg_disable_nonce_check :: bool
  cfg_other :: 'k

type_synonym 'h instruction = "'h \<Rightarrow> (instruction_result + unit) \<times> 'h"
type_synonym ('n, 'o) alloy_precompile = "'n alloy_input \<Rightarrow> (string + 'o) \<times> 'n"

text \<open>What revm provides: the table and the precompiles of a spec, its own creation instruction, and of the
  host the static flag and the delegation-aware load of the account that runs.\<close>

record ('h, 'n, 'o, 'k) evm_parts =
  mainnet_instructions :: "'k evm_cfg \<Rightarrow> nat \<Rightarrow> 'h instruction"
  static_precompiles :: "'k evm_cfg \<Rightarrow> address \<Rightarrow> ('n, 'o) alloy_precompile option"
  contract_create :: "bool \<Rightarrow> 'h instruction"
  host_is_static :: "'h \<Rightarrow> bool"
  host_load_delegated :: "'h \<Rightarrow> bool option option \<times> 'h"

definition opcode_create :: "bool \<Rightarrow> nat" where
  "opcode_create is_create2 = (if is_create2 then 245 else 240)"

definition gravity_instructions :: "('h, 'n, 'o, 'k) evm_parts \<Rightarrow> 'k evm_cfg \<Rightarrow> nat \<Rightarrow> 'h instruction" where
  "gravity_instructions M cfg =
    (let guard = (\<lambda>is_create2 h. guarded_create is_create2 (host_is_static M h) (cfg_petersburg cfg)
                    (host_load_delegated M) (contract_create M is_create2) h)
     in (mainnet_instructions M cfg)(opcode_create False := guard False, opcode_create True := guard True))"

section \<open>The EVM and the executor\<close>

record ('d, 'h, 'n, 'o, 'k) grevm_evm =
  evm_db :: 'd
  evm_cfg_env :: "'k evm_cfg"
  evm_beneficiary :: address
  evm_instruction :: "nat \<Rightarrow> 'h instruction"
  evm_precompiles :: "address \<Rightarrow> ('n, 'o) alloy_precompile option"

text \<open>Each custom precompile, behind its adapter, replaces what its address had. \<open>I\<close> and \<open>halt\<close> are the
  arguments of the adapter.\<close>

type_synonym ('n, 's, 'o) custom_precompiles = "(address \<times> ('n precompile_input \<Rightarrow> ('o, 's) pc_program)) list"

definition build_evm ::
  "('h, 'n, 'o, 'k) evm_parts \<Rightarrow> ('n, 's) internals_ops \<Rightarrow> (string \<Rightarrow> u64 \<Rightarrow> 'o) \<Rightarrow> 'd \<Rightarrow> 'k evm_cfg \<Rightarrow> address \<Rightarrow>
    ('n, 's, 'o) custom_precompiles \<Rightarrow> bool \<Rightarrow> ('d, 'h, 'n, 'o, 'k) grevm_evm" where
  "build_evm M I halt db cfg block custom forbid_create =
    (let evm = \<lparr>evm_db = db, evm_cfg_env = cfg, evm_beneficiary = block,
                evm_instruction = mainnet_instructions M cfg, evm_precompiles = static_precompiles M cfg\<rparr>;
         evm1 = (if forbid_create \<and> cfg_prague cfg then evm\<lparr>evm_instruction := gravity_instructions M cfg\<rparr> else evm)
     in fold (\<lambda>(a, p) e. e\<lparr>evm_precompiles := (evm_precompiles e)(a \<mapsto> to_alloy I halt p)\<rparr>) custom evm1)"





section \<open>The handlers\<close>





section \<open>What a built EVM has\<close>

lemma custom_fold:
  "fold (\<lambda>(a, p) e. e\<lparr>evm_precompiles := (evm_precompiles e)(a \<mapsto> f p)\<rparr>) custom e =
    e\<lparr>evm_precompiles := evm_precompiles e ++ map_of (rev (map (map_prod id f) custom))\<rparr>"
  by (induction custom arbitrary: e) (auto simp: map_add_upd split: prod.split)

lemma build_evm_fields [simp]:
  "evm_db (build_evm M I halt db cfg block custom forbid) = db" "evm_cfg_env (build_evm M I halt db cfg block custom forbid) = cfg"
  "evm_beneficiary (build_evm M I halt db cfg block custom forbid) = block"
  "evm_precompiles (build_evm M I halt db cfg block custom forbid) =
    static_precompiles M cfg ++ map_of (rev (map (map_prod id (to_alloy I halt)) custom))"
  "evm_instruction (build_evm M I halt db cfg block custom forbid) =
    (if forbid \<and> cfg_prague cfg then gravity_instructions M cfg else mainnet_instructions M cfg)"
  by (simp_all add: build_evm_def custom_fold Let_def)





section \<open>Properties\<close>


section \<open>Witness\<close>






end
