(* ===== verification/Bundle.thy ===== *)
theory Bundle
  imports Parallel_State "HOL-Library.Multiset"
begin

text \<open>
  \<open>bundle.rs\<close>: the two-phase application of transitions to an empty bundle and the extraction of the
  bundle. revm's methods on a transition are the fields of \<open>transition_ops\<close>; revm's own merge of
  transitions into an occupied bundle is an argument.
\<close>

section \<open>Data\<close>

record ('ba, 'rv) transition_ops =
  has_new_contract :: "transition_account \<Rightarrow> (b256 \<times> bytecode) option"
  present_bundle_account :: "transition_account \<Rightarrow> 'ba"
  create_revert :: "transition_account \<Rightarrow> 'rv option"
  account_size_hint :: "'ba \<Rightarrow> usize"
  revert_size_hint :: "'rv \<Rightarrow> usize"

record ('ba, 'rv) bundle_data =
  b_state :: "address \<rightharpoonup> 'ba"
  b_contracts :: "b256 \<rightharpoonup> bytecode"
  b_reverts :: "(address \<times> 'rv) list list"
  b_state_size :: usize
  b_reverts_size :: usize

definition bundle_default :: "('ba, 'rv) bundle_data" where
  "bundle_default = \<lparr>b_state = Map.empty, b_contracts = Map.empty, b_reverts = [], b_state_size = 0, b_reverts_size = 0\<rparr>"

record ('ba, 'rv) processed_account =
  pa_address :: address
  pa_present :: 'ba
  pa_revert :: "'rv option"
  pa_state_size :: usize
  pa_revert_size :: usize

record ('ba, 'rv) processed_transition =
  pt_contract :: "(b256 \<times> bytecode) option"
  pt_account :: "('ba, 'rv) processed_account option"

section \<open>Operations\<close>

text \<open>The first phase on one transition; it does not look at the bundle.\<close>

definition process_transition ::
  "('ba, 'rv) transition_ops \<Rightarrow> bool \<Rightarrow> address \<times> transition_account \<Rightarrow> ('ba, 'rv) processed_transition" where
  "process_transition T include_reverts = (\<lambda>(a, t).
    \<lparr>pt_contract = has_new_contract T t,
     pt_account = map_option (\<lambda>rv.
       \<lparr>pa_address = a, pa_present = present_bundle_account T t, pa_revert = (if include_reverts then Some rv else None),
        pa_state_size = account_size_hint T (present_bundle_account T t),
        pa_revert_size = (if include_reverts then revert_size_hint T rv else 0)\<rparr>) (create_revert T t)\<rparr>)"

text \<open>The second phase on one processed transition, with the reverts collected so far.\<close>

definition apply_processed ::
  "('ba, 'rv) processed_transition \<Rightarrow> ('ba, 'rv) bundle_data \<times> (address \<times> 'rv) list \<Rightarrow> ('ba, 'rv) bundle_data \<times> (address \<times> 'rv) list" where
  "apply_processed pt = (\<lambda>(b, reverts).
    let b1 = (case pt_contract pt of Some (h, code) \<Rightarrow> b\<lparr>b_contracts := (b_contracts b)(h \<mapsto> code)\<rparr> | None \<Rightarrow> b)
    in case pt_account pt of
         None \<Rightarrow> (b1, reverts)
       | Some pa \<Rightarrow>
           (b1\<lparr>b_state_size := b_state_size b1 + pa_state_size pa, b_reverts_size := b_reverts_size b1 + pa_revert_size pa,
               b_state := (b_state b1)(pa_address pa \<mapsto> pa_present pa)\<rparr>,
            case pa_revert pa of Some rv \<Rightarrow> reverts @ [(pa_address pa, rv)] | None \<Rightarrow> reverts))"

definition bundle_empty :: "('ba, 'rv) bundle_data \<Rightarrow> bool" where
  "bundle_empty b \<longleftrightarrow> b_state b = Map.empty \<and> b_contracts b = Map.empty \<and> b_reverts b = []"

text \<open>\<open>parallel_apply_transitions_and_create_reverts\<close>; \<open>ts\<close> is the transition map in its iteration order and
  \<open>canonical\<close> revm's merge.\<close>

definition parallel_apply_transitions ::
  "('ba, 'rv) transition_ops \<Rightarrow> (bool \<Rightarrow> (address \<times> transition_account) list \<Rightarrow> ('ba, 'rv) bundle_data \<Rightarrow> ('ba, 'rv) bundle_data) \<Rightarrow> bool \<Rightarrow>
    (address \<times> transition_account) list \<Rightarrow> ('ba, 'rv) bundle_data \<Rightarrow> ('ba, 'rv) bundle_data" where
  "parallel_apply_transitions T canonical include_reverts ts b =
    (if \<not> bundle_empty b then canonical include_reverts ts b
     else
       let processed = map (process_transition T include_reverts) ts;
           (b1, reverts) = fold apply_processed processed (b, [])
       in b1\<lparr>b_reverts := b_reverts b1 @ [reverts]\<rparr>)"

definition parallel_take_bundle ::
  "('ba, 'rv) transition_ops \<Rightarrow> (bool \<Rightarrow> (address \<times> transition_account) list \<Rightarrow> ('ba, 'rv) bundle_data \<Rightarrow> ('ba, 'rv) bundle_data) \<Rightarrow> bool \<Rightarrow>
    ('e, (address \<times> transition_account) list, ('ba, 'rv) bundle_data) parallel_state \<Rightarrow>
    ('ba, 'rv) bundle_data \<times> ('e, (address \<times> transition_account) list, ('ba, 'rv) bundle_data) parallel_state" where
  "parallel_take_bundle T canonical include_reverts ps =
    take_bundle bundle_default
      (case transition_state ps of
         Some t \<Rightarrow> ps\<lparr>transition_state := Some [],
           bundle_state := parallel_apply_transitions T canonical include_reverts t (bundle_state ps)\<rparr>
       | None \<Rightarrow> ps)"

section \<open>The serial reference\<close>

text \<open>One pass over the transitions, as revm's merge does for accounts the bundle does not hold.\<close>

definition serial_step ::
  "('ba, 'rv) transition_ops \<Rightarrow> bool \<Rightarrow> address \<times> transition_account \<Rightarrow> ('ba, 'rv) bundle_data \<times> (address \<times> 'rv) list \<Rightarrow>
    ('ba, 'rv) bundle_data \<times> (address \<times> 'rv) list" where
  "serial_step T include_reverts = (\<lambda>(a, t) (b, reverts).
    let contracts = (case has_new_contract T t of Some (h, code) \<Rightarrow> (b_contracts b)(h \<mapsto> code) | None \<Rightarrow> b_contracts b)
    in case create_revert T t of
         None \<Rightarrow> (b\<lparr>b_contracts := contracts\<rparr>, reverts)
       | Some rv \<Rightarrow>
           let present = present_bundle_account T t
           in (b\<lparr>b_contracts := contracts, b_state := (b_state b)(a \<mapsto> present),
                 b_state_size := b_state_size b + account_size_hint T present,
                 b_reverts_size := b_reverts_size b + (if include_reverts then revert_size_hint T rv else 0)\<rparr>,
               if include_reverts then reverts @ [(a, rv)] else reverts))"

definition serial_apply ::
  "('ba, 'rv) transition_ops \<Rightarrow> bool \<Rightarrow> (address \<times> transition_account) list \<Rightarrow> ('ba, 'rv) bundle_data \<Rightarrow> ('ba, 'rv) bundle_data" where
  "serial_apply T include_reverts ts b =
    (let (b1, reverts) = fold (serial_step T include_reverts) ts (b, []) in b1\<lparr>b_reverts := b_reverts b1 @ [reverts]\<rparr>)"

lemma apply_processed_step: "apply_processed (process_transition T inc at) = serial_step T inc at"
  by (auto simp: apply_processed_def process_transition_def serial_step_def Let_def fun_eq_iff split: prod.split option.split)

lemma parallel_apply_serial: "bundle_empty b \<Longrightarrow> parallel_apply_transitions T canonical inc ts b = serial_apply T inc ts b"
  by (simp add: parallel_apply_transitions_def serial_apply_def fold_map comp_def apply_processed_step)

section \<open>Order independence\<close>

text \<open>Transitions of a map have distinct addresses; contracts with the same hash are the same.\<close>

definition transitions_ok :: "('ba, 'rv) transition_ops \<Rightarrow> (address \<times> transition_account) list \<Rightarrow> bool" where
  "transitions_ok T ts \<longleftrightarrow> distinct (map fst ts) \<and>
    (\<forall>(a, t) \<in> set ts. \<forall>(a', t') \<in> set ts. \<forall>h c c'.
       has_new_contract T t = Some (h, c) \<longrightarrow> has_new_contract T t' = Some (h, c') \<longrightarrow> c = c')"

definition same_bundle :: "('ba, 'rv) bundle_data \<times> (address \<times> 'rv) list \<Rightarrow> ('ba, 'rv) bundle_data \<times> (address \<times> 'rv) list \<Rightarrow> bool" where
  "same_bundle x y \<longleftrightarrow> fst x = fst y \<and> mset (snd x) = mset (snd y)"

lemma serial_step_same: "same_bundle x y \<Longrightarrow> same_bundle (serial_step T inc at x) (serial_step T inc at y)"
  by (cases x; cases y; cases at) (simp add: same_bundle_def serial_step_def Let_def split: option.split)

lemma serial_fold_same: "same_bundle x y \<Longrightarrow> same_bundle (fold (serial_step T inc) ts x) (fold (serial_step T inc) ts y)"
proof (induction ts arbitrary: x y)
  case (Cons t ts)
  show ?case using Cons.IH [OF serial_step_same [OF Cons.prems]] by (simp only: fold_simps)
qed simp

lemma serial_step_commute:
  assumes "a \<noteq> a'"
    and "\<And>h c c'. has_new_contract T t = Some (h, c) \<Longrightarrow> has_new_contract T t' = Some (h, c') \<Longrightarrow> c = c'"
  shows "same_bundle (serial_step T inc (a, t) (serial_step T inc (a', t') x)) (serial_step T inc (a', t') (serial_step T inc (a, t) x))"
proof -
  have "m(h \<mapsto> c, h' \<mapsto> c') = m(h' \<mapsto> c', h \<mapsto> c)"
    if "has_new_contract T t = Some (h', c')" "has_new_contract T t' = Some (h, c)" for m :: "b256 \<rightharpoonup> bytecode" and h h' c c'
    using that assms(2) by (cases "h = h'") (auto simp: fun_upd_twist)
  then show ?thesis using assms(1)
    by (cases x) (simp add: same_bundle_def serial_step_def Let_def fun_upd_twist split: option.split)
qed

lemma same_bundle_trans: "same_bundle x y \<Longrightarrow> same_bundle y z \<Longrightarrow> same_bundle x z"
  by (simp add: same_bundle_def)

lemma serial_fold_move:
  assumes "\<And>x u. u \<in> set us \<Longrightarrow> same_bundle (serial_step T inc at (serial_step T inc u x)) (serial_step T inc u (serial_step T inc at x))"
  shows "same_bundle (fold (serial_step T inc) (us @ at # vs) x) (fold (serial_step T inc) (at # us @ vs) x)"
  using assms
proof (induction us arbitrary: x)
  case (Cons u us)
  have "same_bundle (fold (serial_step T inc) (us @ at # vs) (serial_step T inc u x))
      (fold (serial_step T inc) (us @ vs) (serial_step T inc at (serial_step T inc u x)))"
    using Cons.IH [of "serial_step T inc u x"] Cons.prems by simp
  moreover have "same_bundle (fold (serial_step T inc) (us @ vs) (serial_step T inc at (serial_step T inc u x)))
      (fold (serial_step T inc) (us @ vs) (serial_step T inc u (serial_step T inc at x)))"
    by (intro serial_fold_same Cons.prems) simp
  ultimately show ?case by (simp add: same_bundle_trans)
qed (simp add: same_bundle_def)

lemma serial_fold_perm:
  "mset ts' = mset ts \<Longrightarrow> transitions_ok T ts \<Longrightarrow> same_bundle (fold (serial_step T inc) ts' x) (fold (serial_step T inc) ts x)"
proof (induction ts arbitrary: ts' x)
  case (Cons at ts)
  obtain us vs where ts': "ts' = us @ at # vs" using Cons.prems(1) by (metis list.set_intros(1) mset_eq_setD split_list)
  then have rest: "mset (us @ vs) = mset ts" using Cons.prems(1) by simp
  then have sub: "set us \<subseteq> set ts" by (metis Un_upper1 mset_eq_setD set_append)
  have "same_bundle (serial_step T inc at (serial_step T inc u y)) (serial_step T inc u (serial_step T inc at y))" if "u \<in> set us" for u y
  proof -
    obtain a t a' t' where u: "at = (a, t)" "u = (a', t')" by fastforce
    then have "(a', t') \<in> set ts" using that sub by blast
    moreover have "(a, t) \<in> set (at # ts)" "fst at \<notin> fst ` set ts" using u Cons.prems(2) by (simp_all add: transitions_ok_def)
    ultimately have ne: "a \<noteq> a'" and mem: "(a, t) \<in> set (at # ts)" "(a', t') \<in> set (at # ts)" using u by force+
    have "c = c'" if "has_new_contract T t = Some (h, c)" "has_new_contract T t' = Some (h, c')" for h c c'
      using that Cons.prems(2) mem unfolding transitions_ok_def by blast
    with ne show ?thesis unfolding u by (rule serial_step_commute)
  qed
  from serial_fold_move [OF this] have "same_bundle (fold (serial_step T inc) ts' x) (fold (serial_step T inc) (us @ vs) (serial_step T inc at x))"
    unfolding ts' by (simp only: fold_simps append_Cons)
  moreover have "same_bundle (fold (serial_step T inc) (us @ vs) (serial_step T inc at x)) (fold (serial_step T inc) ts (serial_step T inc at x))"
    using Cons.prems(2) by (intro Cons.IH rest) (simp add: transitions_ok_def, blast)
  ultimately show ?case unfolding fold_simps by (rule same_bundle_trans)
qed (simp add: same_bundle_def)

section \<open>Properties\<close>

text \<open>\<^bold>\<open>C27\<close>. Taking the bundle in parallel is merging and taking it serially: if revm's own merge applies the
  transitions in one pass to an empty bundle, then \<open>parallel_take_bundle\<close> returns the bundle and
  leaves the state that \<open>merge_transitions\<close> followed by \<open>take_bundle\<close> gives, for every
  retention and every bundle, empty or occupied.\<close>

theorem parallel_take_bundle_serial:
  assumes "\<And>inc ts b. bundle_empty b \<Longrightarrow> canonical inc ts b = serial_apply T inc ts b"
  shows "parallel_take_bundle T canonical inc ps = take_bundle bundle_default (merge_transitions (canonical inc) [] ps)"
proof -
  have "parallel_apply_transitions T canonical inc t b = canonical inc t b" for t b
    using assms parallel_apply_serial [of b T canonical inc t]
    by (cases "bundle_empty b") (simp_all add: parallel_apply_transitions_def)
  then show ?thesis by (simp add: parallel_take_bundle_def merge_transitions_def split: option.split)
qed

definition sample_transition_ops :: "(nat, nat) transition_ops" where
  "sample_transition_ops =
    \<lparr>has_new_contract = (\<lambda>t. if tr_previous_info t = None then Some (7, [1]) else None),
     present_bundle_account = (\<lambda>t. unat (case tr_info t of Some i \<Rightarrow> info_balance i | None \<Rightarrow> 0)),
     create_revert = (\<lambda>t. if tr_info t = tr_previous_info t then None else Some 3),
     account_size_hint = (\<lambda>n. n), revert_size_hint = (\<lambda>n. n)\<rparr>"

definition sample_transition :: "u256 \<Rightarrow> transition_account" where
  "sample_transition b = \<lparr>tr_info = Some (sample_info b), tr_status = Changed, tr_previous_info = None, tr_previous_status = Changed,
    tr_storage = [], tr_storage_was_destroyed = False\<rparr>"

definition sample_transitions :: "(address \<times> transition_account) list" where
  "sample_transitions = [(1, sample_transition 4), (2, sample_transition 5)]"

definition sample_empty_db :: "unit database_ref" where
  "sample_empty_db = \<lparr>basic_ref = (\<lambda>_. Inr None), code_by_hash_ref = (\<lambda>_. Inr []), storage_ref = (\<lambda>_ _. Inr 0), block_hash_ref = (\<lambda>_. Inr 0)\<rparr>"

theorem parallel_take_bundle_serial_witness:
  "parallel_take_bundle sample_transition_ops (serial_apply sample_transition_ops) True
      (parallel_state_new sample_empty_db True sample_transitions bundle_default) =
    take_bundle bundle_default (merge_transitions (serial_apply sample_transition_ops True) []
      (parallel_state_new sample_empty_db True sample_transitions bundle_default))"
  by (rule parallel_take_bundle_serial) simp

text \<open>\<^bold>\<open>C28\<close>. The iteration order of the transition map does not matter: with distinct addresses and
  hash-consistent code, applying the transitions to an empty bundle in another order gives the same
  accounts, contracts and sizes, and the same reverts up to their order within the block.\<close>

theorem bundle_order_independent:
  assumes "bundle_empty b" and "transitions_ok T ts" and "mset ts' = mset ts"
  shows "let x = parallel_apply_transitions T canonical inc ts b; y = parallel_apply_transitions T canonical inc ts' b
    in b_state y = b_state x \<and> b_contracts y = b_contracts x \<and> b_state_size y = b_state_size x \<and>
       b_reverts_size y = b_reverts_size x \<and> map mset (b_reverts y) = map mset (b_reverts x)"
  using serial_fold_perm [OF assms(3,2), of inc "(b, [])"]
  by (auto simp: parallel_apply_serial [OF assms(1)] serial_apply_def same_bundle_def Let_def split: prod.splits)

theorem bundle_order_independent_witness:
  "b_state (parallel_apply_transitions sample_transition_ops (serial_apply sample_transition_ops) True (rev sample_transitions) bundle_default) =
    b_state (parallel_apply_transitions sample_transition_ops (serial_apply sample_transition_ops) True sample_transitions bundle_default)"
proof -
  have "transitions_ok sample_transition_ops sample_transitions"
    by (auto simp: transitions_ok_def sample_transitions_def sample_transition_ops_def)
  moreover have "bundle_empty (bundle_default :: (nat, nat) bundle_data)" by (simp add: bundle_empty_def bundle_default_def)
  ultimately show ?thesis
    using bundle_order_independent [of bundle_default sample_transition_ops sample_transitions "rev sample_transitions" "serial_apply sample_transition_ops" True]
    by (simp add: Let_def)
qed

end
