(* ===== verification/Wakeup.thy ===== *)
theory Wakeup
  imports Stability Signals
begin

text \<open>
  The finality and the commit thread with their waiting: \<open>run_finality_loop\<close> and \<open>run_commit_loop\<close> step by
  step, parking in their wait slots, beside workers that publish first and notify later and beside a
  cancellation that raises the flag first and notifies the two threads one after the other. The theory shows
  that no notification is lost at any of these call sites.
\<close>

section \<open>The two loops\<close>

text \<open>Where \<open>run_finality_loop\<close> stands; the index is \<open>previous_finality_idx\<close> of the round.\<close>

datatype fin_pc = FStart | FLoop | FBatch usize | FNotify usize | FEnd usize | FWait wait_pc | FDone

text \<open>The predicate the finality thread waits on.\<close>

definition finality_blocked :: "('r, 'e, 't, 'b) sched_sys \<Rightarrow> bool" where
  "finality_blocked y \<longleftrightarrow> \<not> is_aborted (sys_sched y) \<and>
    lock_finality_candidate (sys_final y) (sys_lower y) (sys_sched y) = Some None"

text \<open>One step of the loop: registering, the test of the outer loop, a candidate of the inner loop, the
  notification for the first one of the batch, the end of the batch with the second notification, and waiting.
  \<open>None\<close> is a panic, or a thread that is parked or has ended.\<close>

fun finality_thread :: "fin_pc \<Rightarrow> ('r, 'e, 't, 'b) sched_sys \<Rightarrow> (fin_pc \<times> ('r, 'e, 't, 'b) sched_sys) option" where
  "finality_thread FStart y =
    do { w \<leftarrow> register_current_thread (finality_wait (sys_sched y));
         Some (FLoop, y\<lparr>sys_sched := (sys_sched y)\<lparr>finality_wait := w\<rparr>\<rparr>) }"
| "finality_thread FLoop y =
    Some (if is_aborted (sys_sched y) \<or> block_size (sys_sched y) \<le> sys_final y then FDone else FBatch (sys_final y), y)"
| "finality_thread (FBatch p) y =
    (case lock_finality_candidate (sys_final y) (sys_lower y) (sys_sched y) of
       None \<Rightarrow> None
     | Some None \<Rightarrow> Some (FEnd p, y)
     | Some (Some (tx, effective)) \<Rightarrow>
         Some (if sys_final y = p then FNotify p else FBatch p,
           y\<lparr>sys_sched := finalize_candidate False (sys_final y) tx (sys_sched y),
             sys_final := sys_final y + 1, sys_lower := effective\<rparr>))"
| "finality_thread (FNotify p) y =
    Some (FBatch p, y\<lparr>sys_sched := (sys_sched y)\<lparr>commit_wait := notify (commit_wait (sys_sched y))\<rparr>\<rparr>)"
| "finality_thread (FEnd p) y =
    (if p < sys_final y then
       Some (FLoop, if sys_final y - p > 1
         then y\<lparr>sys_sched := (sys_sched y)\<lparr>commit_wait := notify (commit_wait (sys_sched y))\<rparr>\<rparr> else y)
     else Some (FWait WFirst, y))"
| "finality_thread (FWait k) y =
    do { (k', w) \<leftarrow> wait_while (finality_blocked y) k (finality_wait (sys_sched y));
         Some (case k' of None \<Rightarrow> FLoop | Some j \<Rightarrow> FWait j, y\<lparr>sys_sched := (sys_sched y)\<lparr>finality_wait := w\<rparr>\<rparr>) }"
| "finality_thread FDone y = None"

text \<open>A finalized candidate and its notification are the step of \<open>finalize_candidate\<close> for the first of a batch.\<close>

lemma finalize_notify:
  "finalize_candidate True f tx s =
    (finalize_candidate False f tx s)\<lparr>commit_wait := notify (commit_wait (finalize_candidate False f tx s))\<rparr>"
  by (simp add: finalize_candidate_def Let_def)

text \<open>Where \<open>run_commit_loop\<close> stands; the index is \<open>previous_commit_idx\<close> of the round.\<close>

datatype com_pc = CStart | CLoop | CBatch usize | CWait wait_pc | CDone

definition commit_blocked :: "('r, 'e, 't, 'b) sched_sys \<Rightarrow> bool" where
  "commit_blocked y \<longleftrightarrow> \<not> is_aborted (sys_sched y) \<and> finality_idx (scheduler_ctx (sys_sched y)) \<le> pc_idx (sys_commit y)"

fun commit_thread ::
  "revm_ops \<Rightarrow> status_ops \<Rightarrow> ((address \<times> transition_account) list \<Rightarrow> 't \<Rightarrow> 't) \<Rightarrow> com_pc \<Rightarrow>
    ('r, 'e, 't, 'b) sched_sys \<Rightarrow> (com_pc \<times> ('r, 'e, 't, 'b) sched_sys) option" where
  "commit_thread R A add CStart y =
    do { w \<leftarrow> register_current_thread (commit_wait (sys_sched y));
         Some (CLoop, y\<lparr>sys_sched := (sys_sched y)\<lparr>commit_wait := w\<rparr>\<rparr>) }"
| "commit_thread R A add CLoop y =
    Some (if is_aborted (sys_sched y) \<or> block_size (sys_sched y) \<le> pc_idx (sys_commit y) then CDone
      else CBatch (pc_idx (sys_commit y)), y)"
| "commit_thread R A add (CBatch p) y =
    (case sys_commit y of
       CommitEnded i r \<Rightarrow> None
     | CommitRunning i out \<Rightarrow>
         if i < finality_idx (scheduler_ctx (sys_sched y)) then
           do { (r, oc', s') \<leftarrow> commit_one R A add i out (sys_oc y) (sys_sched y);
                Some (case r of Inr _ \<Rightarrow> CBatch p | Inl _ \<Rightarrow> CDone,
                  y\<lparr>sys_sched := s', sys_oc := oc',
                    sys_commit := (case r of Inr (n, out') \<Rightarrow> CommitRunning n out' | Inl e \<Rightarrow> CommitEnded i e)\<rparr>) }
         else Some (if p < i then CLoop else CWait WFirst, y))"
| "commit_thread R A add (CWait k) y =
    do { (k', w) \<leftarrow> wait_while (commit_blocked y) k (commit_wait (sys_sched y));
         Some (case k' of None \<Rightarrow> CLoop | Some j \<Rightarrow> CWait j, y\<lparr>sys_sched := (sys_sched y)\<lparr>commit_wait := w\<rparr>\<rparr>) }"
| "commit_thread R A add CDone y = None"

section \<open>All threads\<close>

text \<open>\<open>wk_wakes\<close> are the transactions whose validators have released their locks and not yet looked whether to
  wake the finality thread. \<open>wk_cancels\<close> and \<open>wk_unparks\<close> count the cancellations that have raised the flag and
  not yet notified the finality thread, and those that have notified it and not yet the commit thread.\<close>

record ('r, 'e, 't, 'b) wake_sys =
  wk_sys :: "('r, 'e, 't, 'b) sched_sys"
  wk_fin :: fin_pc
  wk_com :: com_pc
  wk_wakes :: "tx_id multiset"
  wk_cancels :: nat
  wk_unparks :: nat

definition wake_start :: "('r, 'e, 't, 'b) sched_sys \<Rightarrow> ('r, 'e, 't, 'b) wake_sys" where
  "wake_start y = \<lparr>wk_sys = y, wk_fin = FStart, wk_com = CStart, wk_wakes = {#}, wk_cancels = 0, wk_unparks = 0\<rparr>"

text \<open>A parked thread goes on when it has a token, as a step of its loop, or when its time is over.\<close>

inductive wake_step ::
  "revm_ops \<Rightarrow> status_ops \<Rightarrow> ((address \<times> transition_account) list \<Rightarrow> 't \<Rightarrow> 't) \<Rightarrow> ('r, 'e) executor set \<Rightarrow>
    ('r, 'e, 't, 'b) wake_sys \<Rightarrow> ('r, 'e, 't, 'b) wake_sys \<Rightarrow> bool" for R A add E where
  claim: "next_iteration (sys_sched (wk_sys w)) = Some (t, s') \<Longrightarrow>
    wake_step R A add E w (w\<lparr>wk_sys := (wk_sys w)\<lparr>sys_sched := s', sys_tasks := sys_tasks (wk_sys w) + opt_task t\<rparr>\<rparr>)"
| execution: "Execution v \<in># sys_tasks (wk_sys w) \<Longrightarrow> executor \<in> E \<Longrightarrow>
    execute_task R executor v (sys_sched (wk_sys w)) = Some (t, s') \<Longrightarrow>
    wake_step R A add E w
      (w\<lparr>wk_sys := (wk_sys w)\<lparr>sys_sched := s', sys_tasks := sys_tasks (wk_sys w) - {#Execution v#} + opt_task t\<rparr>\<rparr>)"
| validation: "Validation v \<in># sys_tasks (wk_sys w) \<Longrightarrow> validate_locked v (sys_sched (wk_sys w)) = Some (k, s') \<Longrightarrow>
    wake_step R A add E w
      (w\<lparr>wk_sys := (wk_sys w)\<lparr>sys_sched := s', sys_tasks := sys_tasks (wk_sys w) - {#Validation v#}\<rparr>,
         wk_wakes := (if k then add_mset (v_txid v) (wk_wakes w) else wk_wakes w)\<rparr>)"
| wake: "t \<in># wk_wakes w \<Longrightarrow>
    wake_step R A add E w
      (w\<lparr>wk_sys := (wk_sys w)\<lparr>sys_sched := wake_finality t (sys_sched (wk_sys w))\<rparr>, wk_wakes := wk_wakes w - {#t#}\<rparr>)"
| finality: "finality_thread (wk_fin w) (wk_sys w) = Some (pc, y) \<Longrightarrow>
    wake_step R A add E w (w\<lparr>wk_fin := pc, wk_sys := y\<rparr>)"
| finality_timeout: "wk_fin w = FWait WParked \<Longrightarrow> wake_step R A add E w (w\<lparr>wk_fin := FLoop\<rparr>)"
| commit: "commit_thread R A add (wk_com w) (wk_sys w) = Some (pc, y) \<Longrightarrow>
    wake_step R A add E w (w\<lparr>wk_com := pc, wk_sys := y\<rparr>)"
| commit_timeout: "wk_com w = CWait WParked \<Longrightarrow> wake_step R A add E w (w\<lparr>wk_com := CLoop\<rparr>)"
| cancel_flag: "wake_step R A add E w
    (w\<lparr>wk_sys := (wk_sys w)\<lparr>sys_sched := (sys_sched (wk_sys w))\<lparr>s_abort := True\<rparr>\<rparr>, wk_cancels := Suc (wk_cancels w)\<rparr>)"
| cancel_finality: "wk_cancels w = Suc n \<Longrightarrow>
    wake_step R A add E w
      (w\<lparr>wk_sys := (wk_sys w)\<lparr>sys_sched := (sys_sched (wk_sys w))\<lparr>finality_wait := notify (finality_wait (sys_sched (wk_sys w)))\<rparr>\<rparr>,
         wk_cancels := n, wk_unparks := Suc (wk_unparks w)\<rparr>)"
| cancel_commit: "wk_unparks w = Suc n \<Longrightarrow>
    wake_step R A add E w
      (w\<lparr>wk_sys := (wk_sys w)\<lparr>sys_sched := (sys_sched (wk_sys w))\<lparr>commit_wait := notify (commit_wait (sys_sched (wk_sys w)))\<rparr>\<rparr>,
         wk_unparks := n\<rparr>)"

text \<open>The three steps of a cancellation are \<open>cancel\<close>, and the two of a validation \<open>validate\<close> (\<open>validate_split\<close>).\<close>

lemma cancel_split:
  "cancel s = (s\<lparr>s_abort := True, finality_wait := notify (finality_wait s)\<rparr>)\<lparr>commit_wait := notify (commit_wait s)\<rparr>"
  by (simp add: cancel_def)

section \<open>When a candidate becomes ready\<close>

abbreviation ready :: "usize \<Rightarrow> usize \<Rightarrow> ('r, 'e) scheduler \<Rightarrow> bool" where
  "ready f l s \<equiv> lock_finality_candidate f l s \<noteq> Some None"

lemma ready_iff:
  assumes "shape_ok s"
  shows "ready f l s \<longleftrightarrow> f < block_size s \<and> f < validation_idx (scheduler_ctx s) \<and> status (tx_states s ! f) = Unconfirmed \<and>
    max l (lower_timestamps (scheduler_ctx s) ! f) < unconfirmed_timestamps (scheduler_ctx s) ! f"
  using assms
  by (auto simp: lock_finality_candidate_def shape_ok_def context_wf_def list_get_def lower_timestamp_def unconfirmed_timestamp_def
      Let_def not_le split: if_splits)

text \<open>Only a validation of the candidate itself makes it ready.\<close>

lemma ready_back:
  assumes "ready f l s'" and "shape_ok s" and "shape_ok s'" and "s_txs s' = s_txs s"
    and "f < validation_idx (scheduler_ctx s') \<Longrightarrow> status (tx_states s' ! f) = Unconfirmed \<Longrightarrow>
      f < validation_idx (scheduler_ctx s) \<and> status (tx_states s ! f) = Unconfirmed"
    and "lower_timestamps (scheduler_ctx s) ! f \<le> lower_timestamps (scheduler_ctx s') ! f"
    and "unconfirmed_timestamps (scheduler_ctx s') ! f = unconfirmed_timestamps (scheduler_ctx s) ! f"
  shows "ready f l s"
  using assms by (auto simp: ready_iff)

lemma claimed_unconfirmed: "claimed st st' \<Longrightarrow> status st' = Unconfirmed \<Longrightarrow> st' = st"
  by (auto simp: claimed_def)

lemma next_validation_idx_cursor:
  assumes "next_validation_idx i c = (v, c')"
  shows "finality_idx c' = finality_idx c \<and> validation_idx c' = (case v of None \<Rightarrow> validation_idx c | Some j \<Rightarrow> Suc j) \<and>
    (v = None \<or> v = Some (validation_idx c))"
  using assms
  by (auto simp: next_validation_idx_def validation_idx_def finality_idx_def Let_def elim!: claim_before.elims split: prod.splits if_splits)

lemma should_schedule_cursor:
  "should_schedule i c = (b, c') \<Longrightarrow> finality_idx c' = finality_idx c \<and> validation_idx c' = validation_idx c"
  by (auto simp: should_schedule_def validation_idx_def finality_idx_def Let_def split: prod.splits if_splits)

lemma execution_task_ctx: "execution_task i s = Some (t, s') \<Longrightarrow> scheduler_ctx s' = scheduler_ctx s"
  by (auto elim: execution_task_cases)

lemma next_unready:
  assumes "next_iteration s = Some (t, s')" and "f < validation_idx (scheduler_ctx s')" and "status (tx_states s' ! f) = Unconfirmed"
  shows "f < validation_idx (scheduler_ctx s) \<and> status (tx_states s ! f) = Unconfirmed"
proof -
  have st: "tx_states s' ! f = tx_states s ! f"
    using next_iteration_claims [OF assms(1)] assms(3) claimed_unconfirmed by (simp add: claims_def)
  let ?i = "td_index (s_dependency s)"
  obtain b c1 where c1: "should_schedule ?i (scheduler_ctx s) = (b, c1)" by fastforce
  obtain v c2 where c2: "next_validation_idx ?i c1 = (v, c2)" by fastforce
  note cursor = should_schedule_cursor [OF c1] next_validation_idx_cursor [OF c2]
  let ?s1 = "s\<lparr>scheduler_ctx := c2\<rparr>"
  obtain r s2 where r: "(case v of Some i \<Rightarrow> validation_task i ?s1 | None \<Rightarrow> Some (None, ?s1)) = Some (r, s2)"
    using assms(1) by (auto simp: next_iteration_def c1 c2 Let_def bind_eq_Some_conv)
  have s2: "scheduler_ctx s2 = c2" using r by (auto split: option.splits elim: validation_task_cases)
  have s': "scheduler_ctx s' = c2"
    using assms(1) r s2 execution_task_ctx
    by (fastforce simp: next_iteration_def c1 c2 Let_def bind_eq_Some_conv split: option.splits)
  have "f < validation_idx (scheduler_ctx s)"
  proof (rule ccontr)
    assume "\<not> ?thesis"
    then have v: "v = Some f" using cursor s' assms(2) by (cases v) auto
    then have task: "validation_task f ?s1 = Some (r, s2)" using r by simp
    then have "r \<noteq> None" "status (tx_states s2 ! f) = Validating"
      using st assms(3) by (auto simp: validation_task_def list_get_def split: if_splits)
    then show False using assms(1,3) r v by (auto simp: next_iteration_def c1 c2 Let_def)
  qed
  then show ?thesis using st assms(3) by simp
qed

lemma next_keeps:
  assumes inv: "sched_inv y" and task: "next_iteration (sys_sched y) = Some (t, s')"
  shows "ready f l s' \<Longrightarrow> ready f l (sys_sched y)" and "finality_idx (scheduler_ctx s') = finality_idx (scheduler_ctx (sys_sched y))"
proof -
  note inv' = sched_inv_next [OF inv task] and cl = next_iteration_claims [OF task]
  show "ready f l (sys_sched y)" if "ready f l s'"
    by (rule ready_back [OF that]) (use inv inv' cl next_unready [OF task, of f] in \<open>auto simp: sched_inv_def claims_def\<close>)
  show "finality_idx (scheduler_ctx s') = finality_idx (scheduler_ctx (sys_sched y))"
    using inv inv' by (simp add: sched_inv_def final_ok_def)
qed

lemma execute_keeps:
  assumes inv: "sched_inv y" and held: "Execution v \<in># sys_tasks y"
    and ex: "execute_task R executor v (sys_sched y) = Some (t, s')"
  shows "ready f l s' \<Longrightarrow> ready f l (sys_sched y)"
proof -
  let ?s = "sys_sched y"
  have inv': "shape_ok s'" using sched_inv_execute [OF inv held ex] by (simp add: sched_inv_def)
  note h = held_execution [OF inv held] and shape = sched_inv_shape [OF inv]
  obtain ie m s1 rw where e: "exec_effect R v ie m ?s s1 rw" and s': "s' = s1 \<or> (\<exists>i. execution_task i s1 = Some (t, s'))"
    using execute_task_effect [OF inv held ex] by metis
  have cl: "claims s1 s' \<and> scheduler_ctx s' = scheduler_ctx s1" using s' execution_task_claims execution_task_ctx by fastforce
  have st: "status (tx_states ?s ! f) = Unconfirmed" if "status (tx_states s' ! f) = Unconfirmed"
  proof -
    have "status (tx_states s1 ! f) = Unconfirmed" using cl that claimed_unconfirmed by (metis claims_def)
    then show ?thesis using e h shape by (cases "f = v_txid v") (auto simp: exec_effect_def Let_def split: if_splits)
  qed
  show "ready f l ?s" if "ready f l s'"
    by (rule ready_back [OF that])
      (use inv inv' cl e st in \<open>auto simp: sched_inv_def claims_def exec_effect_def lower_mono_def Let_def\<close>)
qed

text \<open>Validation up to the wakeup has the same effect as the whole of it, and ends with the look at the
  finality cursor.\<close>

lemma wake_after_wait: "\<exists>x. wake_after t (k, s) = s\<lparr>finality_wait := x\<rparr>"
proof -
  have "s = s\<lparr>finality_wait := finality_wait s\<rparr>" by simp
  then show ?thesis unfolding wake_finality_def by (metis fst_conv snd_conv)
qed

lemma val_effect_wait: "val_effect v r c dep s (s'\<lparr>finality_wait := x\<rparr>) = val_effect v r c dep s s'"
  by (simp add: val_effect_def)

lemma sched_inv_wait:
  assumes "sched_inv (y\<lparr>sys_sched := s\<lparr>finality_wait := x\<rparr>, sys_tasks := ts\<rparr>)"
  shows "sched_inv (y\<lparr>sys_sched := s, sys_tasks := ts\<rparr>)"
  using assms by (simp add: sched_inv_def shape_ok_def tx_ok_def final_ok_def commit_ok_def)

lemma validate_locked_inv:
  assumes inv: "sched_inv y" and held: "Validation v \<in># sys_tasks y" and val: "validate_locked v (sys_sched y) = Some (k, s')"
  shows "sched_inv (y\<lparr>sys_sched := s', sys_tasks := sys_tasks y - {#Validation v#}\<rparr>)" and "\<exists>r c dep. val_effect v r c dep (sys_sched y) s'"
proof -
  obtain x where x: "wake_after (v_txid v) (k, s') = s'\<lparr>finality_wait := x\<rparr>" using wake_after_wait by blast
  then have v: "validate v (sys_sched y) = Some (s'\<lparr>finality_wait := x\<rparr>)" using val by (simp add: validate_split)
  show "sched_inv (y\<lparr>sys_sched := s', sys_tasks := sys_tasks y - {#Validation v#}\<rparr>)"
    by (rule sched_inv_wait [OF sched_inv_validate [OF inv held v]])
  show "\<exists>r c dep. val_effect v r c dep (sys_sched y) s'"
    using validate_effect [OF inv held v] val_effect_wait by metis
qed

lemma validate_locked_silent:
  assumes "validate_locked v s = Some (False, s')"
  shows "tx_states s' = tx_states s"
proof -
  have fin: "tx_states s1 = tx_states s0" if "finish_locked v ts ws c dep s0 = Some (False, s1)"
    for ts ws c dep and s0 s1 :: "('a, 'b) scheduler"
    using that by (auto simp: finish_locked_def validate_conflict_def Let_def bind_eq_Some_conv split: if_splits)
  obtain tx r where tx: "list_get (tx_states s) (v_txid v) = Some tx" "list_get (tx_results s) (v_txid v) = Some r"
    using assms by (auto simp: validate_locked_def Let_def bind_eq_Some_conv)
  show ?thesis
  proof (cases "status tx = Validating \<and> incarnation tx = v_incarnation v \<and> (\<exists>x sr. r = Some x \<and> execute_result x = Inr sr)")
    case True
    then obtain x sr where x: "r = Some x" "execute_result x = Inr sr" by blast
    let ?s2 = "(bump_metrics record_validation_attempt s)\<lparr>scheduler_ctx := snd (logical_timestamp (scheduler_ctx s))\<rparr>"
    obtain k dep where "finish_locked v (fst (logical_timestamp (scheduler_ctx s))) (write_set x) k dep ?s2 = Some (False, s')"
      using assms tx True x by (auto simp: validate_locked_def Let_def bind_eq_Some_conv case_prod_beta)
    from fin [OF this] show ?thesis by simp
  next
    case False
    then show ?thesis using assms tx by (auto simp: validate_locked_def Let_def split: if_splits option.splits sum.splits)
  qed
qed

lemma validate_keeps:
  assumes inv: "sched_inv y" and held: "Validation v \<in># sys_tasks y" and val: "validate_locked v (sys_sched y) = Some (k, s')"
  shows "k" and "f \<noteq> v_txid v \<Longrightarrow> ready f l s' \<Longrightarrow> ready f l (sys_sched y)"
proof -
  let ?s = "sys_sched y"
  note inv' = validate_locked_inv(1) [OF inv held val]
  note h = held_validation [OF inv held] and shape = sched_inv_shape [OF inv]
  obtain r c dep where e: "val_effect v r c dep ?s s'" using validate_locked_inv(2) [OF inv held val] by blast
  show "k"
  proof (rule ccontr)
    assume "\<not> k"
    then have "tx_states s' = tx_states ?s" using validate_locked_silent [of v ?s s'] val by simp
    then have "status (tx_states s' ! v_txid v) = Validating" using h(2) by simp
    then show False using e h(1) shape(1) by (simp add: val_effect_def Let_def split: if_splits)
  qed
  show "ready f l ?s" if "f \<noteq> v_txid v" "ready f l s'"
    by (rule ready_back [OF that(2)])
      (use that inv inv' e in \<open>auto simp: sched_inv_def val_effect_def lower_mono_def Let_def\<close>)
qed

lemma commit_one_ctx:
  assumes "commit_one R A add i out oc s = Some (r, oc', s')"
  shows "\<exists>n. scheduler_ctx s' = scheduler_ctx s \<or> scheduler_ctx s' = publish_commit n (scheduler_ctx s)"
proof -
  have after: "\<exists>n. scheduler_ctx s' = scheduler_ctx s1 \<or> scheduler_ctx s' = publish_commit n (scheduler_ctx s1)"
    if "after_commit i outcome out1 oc1 s1 = Some (r, oc', s')" for outcome out1 oc1 and s1 :: "('a, 'b) scheduler"
    using that by (auto simp: after_commit_def on_dependency_def bind_eq_Some_conv split: sum.splits commit_outcome.splits)
  obtain x where x: "list_get (tx_results s) i = Some x" using assms by (auto simp: commit_one_def bind_eq_Some_conv)
  show ?thesis
  proof (cases "\<exists>y sr. x = Some y \<and> execute_result y = Inr sr")
    case True
    then show ?thesis using assms x by (auto simp: commit_one_def Let_def bind_eq_Some_conv dest!: after) blast
  next
    case False
    then show ?thesis using assms x by (auto simp: commit_one_def Let_def split: option.splits sum.splits)
  qed
qed

lemma commit_keeps:
  assumes inv: "sched_inv y" and inv': "sched_inv (y\<lparr>sys_sched := s', sys_oc := oc', sys_commit := pc\<rparr>)"
    and com: "commit_one R A add i out (sys_oc y) (sys_sched y) = Some (r, oc', s')"
  shows "ready f l s' \<Longrightarrow> ready f l (sys_sched y)"
proof -
  have v: "validation_idx (scheduler_ctx s') = validation_idx (scheduler_ctx (sys_sched y))"
    using commit_one_ctx [OF com] by (auto simp: validation_idx_def publish_commit_def)
  show "ready f l (sys_sched y)" if "ready f l s'"
    by (rule ready_back [OF that]) (use inv inv' v commit_one_frame [OF com] in \<open>auto simp: sched_inv_def\<close>)
qed

section \<open>The invariant\<close>

text \<open>The finality thread still has to notify the commit thread of what it has published.\<close>

fun commit_notice :: "fin_pc \<Rightarrow> usize \<Rightarrow> bool" where
  "commit_notice (FNotify p) f = True"
| "commit_notice (FBatch p) f = (f - p > 1)"
| "commit_notice (FEnd p) f = (f - p > 1)"
| "commit_notice pc f = False"

fun batch_range :: "fin_pc \<Rightarrow> usize \<Rightarrow> bool" where
  "batch_range (FNotify p) f = (p \<le> f)"
| "batch_range (FBatch p) f = (p \<le> f)"
| "batch_range (FEnd p) f = (p \<le> f)"
| "batch_range pc f = True"

text \<open>A thread that is parked without a token is blocked, or its notification is on the way.\<close>

definition finality_told :: "fin_pc \<Rightarrow> tx_id multiset \<Rightarrow> nat \<Rightarrow> usize \<Rightarrow> usize \<Rightarrow> ('r, 'e) scheduler \<Rightarrow> bool" where
  "finality_told pc ws n f l s \<longleftrightarrow> (pc = FWait WParked \<and> \<not> slot_token (finality_wait s) \<longrightarrow>
    (s_abort s \<longrightarrow> 0 < n) \<and> (ready f l s \<longrightarrow> f \<in># ws))"

definition commit_told :: "com_pc \<Rightarrow> fin_pc \<Rightarrow> nat \<Rightarrow> usize \<Rightarrow> usize \<Rightarrow> ('r, 'e) scheduler \<Rightarrow> bool" where
  "commit_told pc fpc n i f s \<longleftrightarrow> (pc = CWait WParked \<and> \<not> slot_token (commit_wait s) \<longrightarrow>
    (s_abort s \<longrightarrow> 0 < n) \<and> (i < finality_idx (scheduler_ctx s) \<longrightarrow> commit_notice fpc f))"

definition wake_ok :: "fin_pc \<Rightarrow> com_pc \<Rightarrow> tx_id multiset \<Rightarrow> nat \<Rightarrow> nat \<Rightarrow> ('r, 'e, 't, 'b) sched_sys \<Rightarrow> bool" where
  "wake_ok fpc cpc ws n m y \<longleftrightarrow> sched_inv y \<and>
    (slot_thread (finality_wait (sys_sched y)) \<longleftrightarrow> fpc \<noteq> FStart) \<and> (slot_thread (commit_wait (sys_sched y)) \<longleftrightarrow> cpc \<noteq> CStart) \<and>
    batch_range fpc (sys_final y) \<and> finality_told fpc ws n (sys_final y) (sys_lower y) (sys_sched y) \<and>
    commit_told cpc fpc (n + m) (pc_idx (sys_commit y)) (sys_final y) (sys_sched y)"

abbreviation wake_inv :: "('r, 'e, 't, 'b) wake_sys \<Rightarrow> bool" where
  "wake_inv w \<equiv> wake_ok (wk_fin w) (wk_com w) (wk_wakes w) (wk_cancels w) (wk_unparks w) (wk_sys w)"

lemma sched_inv_finality_idx: "sched_inv y \<Longrightarrow> finality_idx (scheduler_ctx (sys_sched y)) = sys_final y"
  by (simp add: sched_inv_def final_ok_def)

lemma told_quiet:
  assumes q: "quiet s s'"
  shows "slot_thread (finality_wait s') = slot_thread (finality_wait s)" and "slot_thread (commit_wait s') = slot_thread (commit_wait s)"
    and "finality_told pc ws n f l s \<Longrightarrow> slot_thread (finality_wait s) \<longleftrightarrow> pc \<noteq> FStart \<Longrightarrow>
      (ready f l s' \<Longrightarrow> ready f l s \<or> f \<in># ws') \<Longrightarrow> ws \<subseteq># ws' \<Longrightarrow> finality_told pc ws' n f l s'"
    and "commit_told cpc fpc n i f s \<Longrightarrow> slot_thread (commit_wait s) \<longleftrightarrow> cpc \<noteq> CStart \<Longrightarrow>
      finality_idx (scheduler_ctx s') = finality_idx (scheduler_ctx s) \<Longrightarrow> commit_told cpc fpc n i f s'"
proof -
  have sig: "s_abort s' = s_abort s \<and> finality_wait s' = finality_wait s \<and> commit_wait s' = commit_wait s \<or>
      s_abort s' \<and> finality_wait s' = notify (finality_wait s) \<and> commit_wait s' = notify (commit_wait s)"
    using q by (auto simp: quiet_def signals_def cancel_def)
  show "slot_thread (finality_wait s') = slot_thread (finality_wait s)" "slot_thread (commit_wait s') = slot_thread (commit_wait s)"
    using sig by auto
  show "finality_told pc ws' n f l s'" if "finality_told pc ws n f l s" "slot_thread (finality_wait s) \<longleftrightarrow> pc \<noteq> FStart"
    "ready f l s' \<Longrightarrow> ready f l s \<or> f \<in># ws'" "ws \<subseteq># ws'"
    using sig
  proof
    assume "s_abort s' = s_abort s \<and> finality_wait s' = finality_wait s \<and> commit_wait s' = commit_wait s"
    then show ?thesis using that mset_subset_eqD [OF that(4)] unfolding finality_told_def by metis
  qed (use that in \<open>auto simp: finality_told_def\<close>)
  show "commit_told cpc fpc n i f s'" if "commit_told cpc fpc n i f s" "slot_thread (commit_wait s) \<longleftrightarrow> cpc \<noteq> CStart"
    "finality_idx (scheduler_ctx s') = finality_idx (scheduler_ctx s)"
    using sig that by (auto simp: commit_told_def)
qed

lemma wake_ok_worker:
  assumes ok: "wake_ok fpc cpc ws n m y" and inv: "sched_inv (y\<lparr>sys_sched := s', sys_tasks := ts\<rparr>)" and q: "quiet (sys_sched y) s'"
    and ready: "ready (sys_final y) (sys_lower y) s' \<Longrightarrow> ready (sys_final y) (sys_lower y) (sys_sched y) \<or> sys_final y \<in># ws'"
    and ws: "ws \<subseteq># ws'"
  shows "wake_ok fpc cpc ws' n m (y\<lparr>sys_sched := s', sys_tasks := ts\<rparr>)"
proof -
  have "finality_idx (scheduler_ctx s') = finality_idx (scheduler_ctx (sys_sched y))"
    using sched_inv_finality_idx [OF inv] sched_inv_finality_idx [of y] ok by (simp add: wake_ok_def)
  moreover have "finality_told fpc ws' n (sys_final y) (sys_lower y) s'"
    by (rule told_quiet(3) [OF q]) (use ok ready ws in \<open>auto simp: wake_ok_def\<close>)
  ultimately show ?thesis using ok inv told_quiet(1,2,4) [OF q] unfolding wake_ok_def by simp
qed

text \<open>An update of the signals alone.\<close>

lemma sched_inv_signals:
  assumes "sched_inv y"
  shows "sched_inv (y\<lparr>sys_sched := (sys_sched y)\<lparr>finality_wait := x\<rparr>\<rparr>)" "sched_inv (y\<lparr>sys_sched := (sys_sched y)\<lparr>commit_wait := x\<rparr>\<rparr>)"
    "sched_inv (y\<lparr>sys_sched := (sys_sched y)\<lparr>s_abort := b\<rparr>\<rparr>)"
  using assms by (simp_all add: sched_inv_def shape_ok_def tx_ok_def final_ok_def commit_ok_def)

lemma candidate_signals [simp]:
  "lock_finality_candidate f l (s\<lparr>finality_wait := x\<rparr>) = lock_finality_candidate f l s"
  "lock_finality_candidate f l (s\<lparr>commit_wait := x\<rparr>) = lock_finality_candidate f l s"
  "lock_finality_candidate f l (s\<lparr>s_abort := b\<rparr>) = lock_finality_candidate f l s"
  by (simp_all add: lock_finality_candidate_def cong: if_cong)

lemmas told_defs = wake_ok_def finality_told_def commit_told_def

lemma wake_ok_wake:
  assumes "wake_ok fpc cpc ws n m y" and "t \<in># ws"
  shows "wake_ok fpc cpc (ws - {#t#}) n m (y\<lparr>sys_sched := wake_finality t (sys_sched y)\<rparr>)"
proof (cases "t = sys_final y")
  case True
  then have "wake_finality t (sys_sched y) = (sys_sched y)\<lparr>finality_wait := notify (finality_wait (sys_sched y))\<rparr>"
    using assms sched_inv_finality_idx [of y] by (simp add: wake_finality_def wake_ok_def)
  then show ?thesis using assms(1) by (auto simp: told_defs sched_inv_signals)
next
  case False
  then have "wake_finality t (sys_sched y) = sys_sched y"
    using assms sched_inv_finality_idx [of y] by (simp add: wake_finality_def wake_ok_def)
  moreover have "sys_final y \<in># ws - {#t#} \<longleftrightarrow> sys_final y \<in># ws" using False by (simp add: in_diff_count)
  ultimately show ?thesis using assms(1) by (simp add: told_defs)
qed

lemma wake_ok_finality:
  assumes ok: "wake_ok fpc cpc ws n m y" and step: "finality_thread fpc y = Some (pc, y')"
  shows "wake_ok pc cpc ws n m y'"
proof (cases fpc)
  case FStart
  then show ?thesis using ok step by (auto simp: told_defs sched_inv_signals register_current_thread_def bind_eq_Some_conv split: if_splits)
next
  case FLoop
  then have "y' = y" "pc = FDone \<or> pc = FBatch (sys_final y)" using step by (auto split: if_splits)
  then show ?thesis using ok FLoop by (auto simp: told_defs)
next
  case (FBatch p)
  show ?thesis
  proof (cases "lock_finality_candidate (sys_final y) (sys_lower y) (sys_sched y)")
    case (Some x)
    show ?thesis
    proof (cases x)
      case None
      then show ?thesis using ok step FBatch Some by (auto simp: told_defs)
    next
      case cand: (Some tl)
      obtain tx e where tl: "tl = (tx, e)" by fastforce
      have inv: "sched_inv (y\<lparr>sys_sched := finalize_candidate False (sys_final y) tx (sys_sched y), sys_final := sys_final y + 1, sys_lower := e\<rparr>)"
        by (rule sched_inv_finality) (use ok Some cand tl in \<open>simp_all add: wake_ok_def\<close>)
      have "signals (finalize_candidate False (sys_final y) tx (sys_sched y)) = signals (sys_sched y)"
        by (simp add: finalize_candidate_def Let_def)
      then show ?thesis using ok step FBatch Some cand tl inv by (auto simp: told_defs signals_def split: if_splits)
    qed
  qed (use step FBatch in simp)
next
  case (FNotify p)
  then show ?thesis using ok step by (auto simp: told_defs sched_inv_signals)
next
  case (FEnd p)
  then show ?thesis using ok step by (auto simp: told_defs sched_inv_signals split: if_splits)
next
  case (FWait k)
  then show ?thesis using ok step
    by (cases k) (auto simp: told_defs sched_inv_signals finality_blocked_def is_aborted_def split: if_splits)
qed (use step in simp)

lemma wake_ok_commit:
  assumes ok: "wake_ok fpc cpc ws n m y" and step: "commit_thread R A add cpc y = Some (pc, y')"
  shows "wake_ok fpc pc ws n m y'"
proof (cases cpc)
  case CStart
  then show ?thesis using ok step by (auto simp: told_defs sched_inv_signals register_current_thread_def bind_eq_Some_conv split: if_splits)
next
  case CLoop
  then have "y' = y" "pc \<noteq> CStart" "pc \<noteq> CWait WParked" using step by (auto split: if_splits)
  then show ?thesis using ok CLoop by (simp add: told_defs)
next
  case (CBatch p)
  then obtain i out where pc: "sys_commit y = CommitRunning i out" using step by (cases "sys_commit y") auto
  show ?thesis
  proof (cases "i < finality_idx (scheduler_ctx (sys_sched y))")
    case True
    then obtain r oc' s' where com: "commit_one R A add i out (sys_oc y) (sys_sched y) = Some (r, oc', s')"
      and y': "y' = y\<lparr>sys_sched := s', sys_oc := oc', sys_commit := (case r of Inr (n, out') \<Rightarrow> CommitRunning n out' | Inl e \<Rightarrow> CommitEnded i e)\<rparr>"
      and pc': "pc = (case r of Inr _ \<Rightarrow> CBatch p | Inl _ \<Rightarrow> CDone)"
      using step CBatch pc by (auto simp: bind_eq_Some_conv)
    have inv: "sched_inv y" using ok by (simp add: wake_ok_def)
    have inv': "sched_inv y'" unfolding y' by (rule sched_inv_commit [OF inv pc True com])
    have q: "quiet (sys_sched y) s'" using quiet_commit [OF com] by (auto simp: quiet_def)
    have "finality_told fpc ws n (sys_final y) (sys_lower y) s'"
      by (rule told_quiet(3) [OF q]) (use ok commit_keeps [OF inv inv' [unfolded y'] com] in \<open>auto simp: wake_ok_def\<close>)
    then show ?thesis using ok inv' told_quiet(1,2) [OF q] CBatch pc'
      by (auto simp: wake_ok_def commit_told_def y' split: sum.splits)
  next
    case False
    then show ?thesis using ok step CBatch pc by (auto simp: told_defs split: if_splits)
  qed
next
  case (CWait k)
  then show ?thesis using ok step
    by (cases k) (auto simp: told_defs sched_inv_signals commit_blocked_def is_aborted_def split: if_splits)
qed (use step in simp)

lemma wake_ok_step: "wake_step R A add E w w' \<Longrightarrow> wake_inv w \<Longrightarrow> wake_inv w'"
proof (induction rule: wake_step.induct)
  case (claim w t s')
  then have inv: "sched_inv (wk_sys w)" by (simp add: wake_ok_def)
  show ?case using wake_ok_worker [OF claim(2) sched_inv_next [OF inv claim(1)] quiet_same [OF signals_next [OF claim(1)]]]
    next_keeps(1) [OF inv claim(1)] by simp
next
  case (execution v w executor t s')
  then have inv: "sched_inv (wk_sys w)" by (simp add: wake_ok_def)
  show ?case using wake_ok_worker [OF execution(4) sched_inv_execute [OF inv execution(1,3)] quiet_execute [OF execution(3)]]
    execute_keeps [OF inv execution(1,3)] by simp
next
  case (validation v w k s')
  then have inv: "sched_inv (wk_sys w)" by (simp add: wake_ok_def)
  note v = validate_keeps [OF inv validation(1,2)]
  show ?case
    using wake_ok_worker [OF validation(3) validate_locked_inv(1) [OF inv validation(1,2)], of "add_mset (v_txid v) (wk_wakes w)"]
      quiet_validate [OF validation(2)] v by (cases "sys_final (wk_sys w) = v_txid v") auto
next
  case (wake t w)
  then show ?case using wake_ok_wake by simp
next
  case (finality w pc y)
  then show ?case using wake_ok_finality [of _ _ _ _ _ "wk_sys w" pc y] by simp
next
  case (commit w pc y)
  then show ?case using wake_ok_commit [of _ _ _ _ _ "wk_sys w" R A add pc y] by simp
qed (auto simp: told_defs sched_inv_signals)

lemma wake_ok_start: "wake_inv (wake_start (block_start txs ben anchor oc))"
  using sched_inv_start [of txs ben anchor oc]
  by (simp add: told_defs wake_start_def block_start_def sys_new_def scheduler_build_def wait_slot_new_def)

lemma wake_ok_reachable:
  "(wake_step R A add E)\<^sup>*\<^sup>* w w' \<Longrightarrow> wake_inv w \<Longrightarrow> wake_inv w'"
  by (induction rule: rtranclp_induct) (auto intro: wake_ok_step)

text \<open>The finality thread does not stop before a notification it owes.\<close>

lemma notice_delivered:
  assumes ok: "wake_ok fpc cpc ws n m y" and cpc: "cpc \<noteq> CStart" and due: "commit_notice fpc (sys_final y)"
  shows "\<exists>pc y'. finality_thread fpc y = Some (pc, y') \<and> (slot_token (commit_wait (sys_sched y')) \<or> commit_notice pc (sys_final y'))"
proof (cases fpc)
  case (FBatch p)
  have shape: "shape_ok (sys_sched y)" using ok by (simp add: wake_ok_def sched_inv_def)
  then have "lock_finality_candidate (sys_final y) (sys_lower y) (sys_sched y) \<noteq> None"
    by (auto simp: lock_finality_candidate_def shape_ok_def context_wf_def list_get_def lower_timestamp_def unconfirmed_timestamp_def Let_def)
  then show ?thesis using due FBatch by (auto split: option.splits)
qed (use ok cpc due in \<open>auto simp: wake_ok_def\<close>)

section \<open>Property\<close>

text \<open>\<^bold>\<open>C20\<close>. No wakeup of the finality or the commit thread is lost, at any point of the two loops, the workers'
  validations and a cancellation. A finality thread that is parked without a token is blocked, unless the
  cancellation that raised the flag has yet to notify it, or the validator of the very transaction that has become
  ready has released its locks and has yet to look at the finality cursor; that look finds the transaction and leaves
  the token. A commit thread that is parked without a token is blocked, unless the cancellation has yet to notify it,
  or the finality thread stands before one of its two notifications; every step it then takes leaves the token or
  comes closer to the notification.\<close>

theorem no_lost_wakeup:
  assumes "(wake_step R A add E)\<^sup>*\<^sup>* (wake_start (block_start txs ben anchor oc)) w"
  shows "let y = wk_sys w; s = sys_sched y
    in (wk_fin w = FWait WParked \<and> \<not> slot_token (finality_wait s) \<longrightarrow>
          (is_aborted s \<longrightarrow> 0 < wk_cancels w) \<and>
          (lock_finality_candidate (sys_final y) (sys_lower y) s \<noteq> Some None \<longrightarrow> sys_final y \<in># wk_wakes w)) \<and>
       (wk_fin w \<noteq> FStart \<longrightarrow> slot_token (finality_wait (wake_finality (sys_final y) s))) \<and>
       (wk_com w = CWait WParked \<and> \<not> slot_token (commit_wait s) \<longrightarrow>
          (is_aborted s \<longrightarrow> 0 < wk_cancels w + wk_unparks w) \<and>
          (pc_idx (sys_commit y) < finality_idx (scheduler_ctx s) \<longrightarrow> commit_notice (wk_fin w) (sys_final y))) \<and>
       (wk_com w \<noteq> CStart \<and> commit_notice (wk_fin w) (sys_final y) \<longrightarrow>
          (\<exists>pc y'. finality_thread (wk_fin w) y = Some (pc, y') \<and>
             (slot_token (commit_wait (sys_sched y')) \<or> commit_notice pc (sys_final y'))))"
proof -
  have ok: "wake_inv w" by (rule wake_ok_reachable [OF assms wake_ok_start])
  then have "finality_idx (scheduler_ctx (sys_sched (wk_sys w))) = sys_final (wk_sys w)"
    using sched_inv_finality_idx [of "wk_sys w"] by (simp add: wake_ok_def)
  then have "wk_fin w \<noteq> FStart \<longrightarrow> slot_token (finality_wait (wake_finality (sys_final (wk_sys w)) (sys_sched (wk_sys w))))"
    using ok by (simp add: wake_ok_def wake_finality_def)
  then show ?thesis using ok notice_delivered [OF ok] unfolding Let_def told_defs is_aborted_def by simp
qed

section \<open>A concrete run\<close>

datatype wake_cmd = WkClaim | WkExecute tx_version | WkValidate tx_version | WkWake tx_id | WkFinality | WkCommit

type_synonym sample_wake = "(nat, unit, nat, unit) wake_sys"

fun wake_do :: "wake_cmd \<Rightarrow> sample_wake \<Rightarrow> sample_wake option" where
  "wake_do WkClaim w =
    do { (t, s') \<leftarrow> next_iteration (sys_sched (wk_sys w));
         Some (w\<lparr>wk_sys := (wk_sys w)\<lparr>sys_sched := s', sys_tasks := sys_tasks (wk_sys w) + opt_task t\<rparr>\<rparr>) }"
| "wake_do (WkExecute v) w =
    (if Execution v \<in># sys_tasks (wk_sys w) then
       do { (t, s') \<leftarrow> execute_task sample_revm sample_executor v (sys_sched (wk_sys w));
            Some (w\<lparr>wk_sys := (wk_sys w)\<lparr>sys_sched := s', sys_tasks := sys_tasks (wk_sys w) - {#Execution v#} + opt_task t\<rparr>\<rparr>) }
     else None)"
| "wake_do (WkValidate v) w =
    (if Validation v \<in># sys_tasks (wk_sys w) then
       do { (k, s') \<leftarrow> validate_locked v (sys_sched (wk_sys w));
            Some (w\<lparr>wk_sys := (wk_sys w)\<lparr>sys_sched := s', sys_tasks := sys_tasks (wk_sys w) - {#Validation v#}\<rparr>,
              wk_wakes := (if k then add_mset (v_txid v) (wk_wakes w) else wk_wakes w)\<rparr>) }
     else None)"
| "wake_do (WkWake t) w =
    (if t \<in># wk_wakes w then
       Some (w\<lparr>wk_sys := (wk_sys w)\<lparr>sys_sched := wake_finality t (sys_sched (wk_sys w))\<rparr>, wk_wakes := wk_wakes w - {#t#}\<rparr>)
     else None)"
| "wake_do WkFinality w =
    do { (pc, y) \<leftarrow> finality_thread (wk_fin w) (wk_sys w); Some (w\<lparr>wk_fin := pc, wk_sys := y\<rparr>) }"
| "wake_do WkCommit w =
    do { (pc, y) \<leftarrow> commit_thread sample_revm sample_status (\<lambda>_ t. t) (wk_com w) (wk_sys w); Some (w\<lparr>wk_com := pc, wk_sys := y\<rparr>) }"

abbreviation sample_wake_step :: "sample_wake \<Rightarrow> sample_wake \<Rightarrow> bool" where
  "sample_wake_step \<equiv> wake_step sample_revm sample_status (\<lambda>_ t. t) UNIV"

lemma wake_do_step:
  assumes "wake_do c w = Some w'"
  shows "sample_wake_step w w'"
proof (cases c)
  case (WkExecute v)
  then obtain t s' where "Execution v \<in># sys_tasks (wk_sys w)"
    and "execute_task sample_revm sample_executor v (sys_sched (wk_sys w)) = Some (t, s')"
    and "w' = w\<lparr>wk_sys := (wk_sys w)\<lparr>sys_sched := s', sys_tasks := sys_tasks (wk_sys w) - {#Execution v#} + opt_task t\<rparr>\<rparr>"
    using assms by (auto simp: bind_eq_Some_conv split: if_splits)
  then show ?thesis using wake_step.execution by blast
next
  case (WkValidate v)
  then obtain k s' where "Validation v \<in># sys_tasks (wk_sys w)" and "validate_locked v (sys_sched (wk_sys w)) = Some (k, s')"
    and "w' = w\<lparr>wk_sys := (wk_sys w)\<lparr>sys_sched := s', sys_tasks := sys_tasks (wk_sys w) - {#Validation v#}\<rparr>,
      wk_wakes := (if k then add_mset (v_txid v) (wk_wakes w) else wk_wakes w)\<rparr>"
    using assms by (cases "Validation v \<in># sys_tasks (wk_sys w)") (force simp: bind_eq_Some_conv)+
  then show ?thesis using wake_step.validation by blast
qed (use assms in \<open>auto simp: bind_eq_Some_conv intro: wake_step.intros split: if_splits\<close>)

fun wake_run :: "wake_cmd list \<Rightarrow> sample_wake \<Rightarrow> sample_wake option" where
  "wake_run [] w = Some w"
| "wake_run (c # cs) w = do { w1 \<leftarrow> wake_do c w; wake_run cs w1 }"

lemma wake_run_steps: "wake_run cs w = Some w' \<Longrightarrow> sample_wake_step\<^sup>*\<^sup>* w w'"
  by (induction cs arbitrary: w) (auto simp: bind_eq_Some_conv dest!: wake_do_step intro: converse_rtranclp_into_rtranclp)

lemma wake_run_reachable:
  assumes "case wake_run cs (wake_start sample_block) of None \<Rightarrow> False | Some w \<Rightarrow> P w"
  shows "\<exists>w. sample_wake_step\<^sup>*\<^sup>* (wake_start sample_block) w \<and> P w"
  using assms wake_run_steps [of cs] by (auto split: option.splits)

text \<open>Both threads park, the transaction is executed and validated, and its validator has yet to look; then it
  looks, and the finality thread publishes.\<close>

definition sample_parked :: "wake_cmd list" where
  "sample_parked = replicate 5 WkCommit @ replicate 6 WkFinality @
     [WkClaim, WkExecute (TxVersion 0 1), WkClaim, WkValidate (TxVersion 0 1)]"

definition sample_published :: "wake_cmd list" where
  "sample_published = sample_parked @ [WkWake 0, WkFinality, WkFinality, WkFinality]"

theorem no_lost_wakeup_witness:
  "(\<exists>w. sample_wake_step\<^sup>*\<^sup>* (wake_start sample_block) w \<and> wk_fin w = FWait WParked \<and>
      lock_finality_candidate 0 0 (sys_sched (wk_sys w)) \<noteq> Some None \<and> 0 \<in># wk_wakes w) \<and>
   (\<exists>w. sample_wake_step\<^sup>*\<^sup>* (wake_start sample_block) w \<and> wk_com w = CWait WParked \<and>
      finality_idx (scheduler_ctx (sys_sched (wk_sys w))) = 1 \<and> commit_notice (wk_fin w) 1)"
proof
  have "case wake_run sample_parked (wake_start sample_block) of None \<Rightarrow> False
      | Some w \<Rightarrow> wk_fin w = FWait WParked \<and> \<not> slot_token (finality_wait (sys_sched (wk_sys w))) \<and>
          lock_finality_candidate 0 0 (sys_sched (wk_sys w)) \<noteq> Some None \<and> sys_final (wk_sys w) = 0 \<and> sys_lower (wk_sys w) = 0"
    by code_simp
  from wake_run_reachable [OF this] obtain w where w: "sample_wake_step\<^sup>*\<^sup>* (wake_start sample_block) w" "wk_fin w = FWait WParked"
    "\<not> slot_token (finality_wait (sys_sched (wk_sys w)))" "lock_finality_candidate 0 0 (sys_sched (wk_sys w)) \<noteq> Some None"
    "sys_final (wk_sys w) = 0" "sys_lower (wk_sys w) = 0" by blast
  then show "\<exists>w. sample_wake_step\<^sup>*\<^sup>* (wake_start sample_block) w \<and> wk_fin w = FWait WParked \<and>
      lock_finality_candidate 0 0 (sys_sched (wk_sys w)) \<noteq> Some None \<and> 0 \<in># wk_wakes w"
    using no_lost_wakeup [OF w(1) [unfolded sample_block_def]] unfolding Let_def by auto
next
  have "case wake_run sample_published (wake_start sample_block) of None \<Rightarrow> False
      | Some w \<Rightarrow> wk_com w = CWait WParked \<and> \<not> slot_token (commit_wait (sys_sched (wk_sys w))) \<and>
          pc_idx (sys_commit (wk_sys w)) = 0 \<and> finality_idx (scheduler_ctx (sys_sched (wk_sys w))) = 1 \<and> sys_final (wk_sys w) = 1"
    by code_simp
  from wake_run_reachable [OF this] obtain w where w: "sample_wake_step\<^sup>*\<^sup>* (wake_start sample_block) w" "wk_com w = CWait WParked"
    "\<not> slot_token (commit_wait (sys_sched (wk_sys w)))" "pc_idx (sys_commit (wk_sys w)) = 0"
    "finality_idx (scheduler_ctx (sys_sched (wk_sys w))) = 1" "sys_final (wk_sys w) = 1" by blast
  then show "\<exists>w. sample_wake_step\<^sup>*\<^sup>* (wake_start sample_block) w \<and> wk_com w = CWait WParked \<and>
      finality_idx (scheduler_ctx (sys_sched (wk_sys w))) = 1 \<and> commit_notice (wk_fin w) 1"
    using no_lost_wakeup [OF w(1) [unfolded sample_block_def]] unfolding Let_def by auto
qed

end
