(* ===== verification/Spec2Isabelle.thy ===== *)
theory Spec2Isabelle
  imports Control Loops Evm_Build Bundle Wakeup
begin

text \<open>
  \<^bold>\<open>Verification of grevm, a parallel EVM block executor.\<close>

  \<^bold>\<open>The program.\<close> A \<open>Scheduler\<close> runs the transactions of one block optimistically. Worker threads execute
  incarnations of transactions against a multi-version memory; every incarnation records what it
  read, and a validation compares those versions with the stores again. A transaction whose reads
  changed is executed once more, its old writes marked as estimates, and the validations of later
  transactions are rewound by logical timestamps. A finality thread extends the prefix of transactions
  whose validation is newer than every rewind, and a commit thread applies that prefix in block order to
  the cached state. The block's beneficiary is kept out of the memory: rewards are deferred and
  resolved through a history of their own. When something does not fit (a nonce at the committed
  boundary, an EVM error at the commit head), the rest of the block is replayed sequentially from the
  committed prefix.

  \<^bold>\<open>The theories\<close>, each naming its source under \<open>src/src/\<close>:

  \<^item> \<open>Prelude\<close>, \<open>Model\<close>: the machine types with their wrapping, checked and saturating arithmetic,
    panicking vector access, and the data of \<open>model.rs\<close>, \<open>account.rs\<close>, \<open>outcome.rs\<close>. revm's data has
    the fields the program uses, its methods are the arguments \<open>R\<close> (\<open>revm_ops\<close>) and \<open>A\<close> (\<open>status_ops\<close>).
  \<^item> \<open>Versions\<close>: the locale \<open>versioned_store\<close>, the contract that a value is identified by its slot and its
    incarnation, interpreted by the beneficiary history and by the multi-version memory.
  \<^item> \<open>Beneficiary\<close> (\<open>beneficiary.rs\<close>, \<open>beneficiary/history.rs\<close>, \<open>beneficiary/reward.rs\<close>): the reward policy,
    the history with its backward scan, and that resolving gives the account a serial run has.
  \<^item> \<open>Tx_Dependency\<close> (\<open>tx_dependency.rs\<close>): the claim index, blockers and reverse edges; no claimable
    transaction is skipped and none waits for ever, under every interleaving of \<open>td_step\<close>.
  \<^item> \<open>Sched_Context\<close> (\<open>scheduler/cursor.rs\<close>, \<open>scheduler/context.rs\<close>), \<open>Wait_Slot\<close> (\<open>scheduler/wait.rs\<close>),
    \<open>Metrics\<close> (\<open>scheduler/metrics.rs\<close>): cursors, the execution frontier as a machine of single atomic
    accesses, timestamps, the parking token with \<open>wait_while\<close> step by step, and the counters.
  \<^item> \<open>Incarnation_Db\<close> (\<open>incarnation_db.rs\<close>), \<open>Validation\<close> (the read-set scan of \<open>Scheduler::validate\<close>): the reads
    of one incarnation, where every single access sees the shared stores of a moment of its own, and
    the publication of its writes. The locale \<open>publication_contract\<close> carries a property of single
    publications to a whole transaction; it is interpreted three times. Validation makes the result
    that of one consistent world.
  \<^item> \<open>Cache_State\<close>, \<open>Parallel_State\<close> (\<open>parallel_state.rs\<close>), \<open>Commit_Refinement\<close>, \<open>Bundle\<close> (\<open>bundle.rs\<close>): the
    caches over the database, the locale \<open>cached_source\<close> of a cached read, the refinement of a plain
    world by reads and commits, and the parallel creation of the bundle.
  \<^item> \<open>Ordered_Commit\<close> (\<open>scheduler/ordered_commit.rs\<close>), \<open>Fallback\<close> (\<open>scheduler/fallback.rs\<close>), \<open>Executor\<close>
    (\<open>scheduler/executor.rs\<close>): the commit of one result with its nonce check and reward, the replay of a
    suffix, and one incarnation from beginning to end.
  \<^item> \<open>Scheduler\<close> (\<open>scheduler.rs\<close>, \<open>scheduler/control.rs\<close>): the shared state and every operation of the three
    kinds of threads. \<open>Sched_System\<close> interleaves them (\<open>sched_step\<close>) and proves the consistency invariant
    \<open>sched_inv\<close>; \<open>Stability\<close> that the reads of a finalized transaction are current; \<open>Loops\<close> that the
    memory is typed and that the loops of the finality and the commit thread end. \<open>Signals\<close> is what each operation
    does to the abort flag and the wait slots; \<open>Wakeup\<close> runs \<open>run_finality_loop\<close> and \<open>run_commit_loop\<close> with their waiting
    beside workers and cancellations, and shows that no notification is lost.
  \<^item> \<open>Serial_World\<close>, \<open>Committed_World\<close>, \<open>Serializability\<close>: what a serial run is, how memory, history and
    committed state together present the world before a transaction, and that every interleaving
    commits the serial results. \<open>Committed_World\<close> also has the transparency of the caches.
  \<^item> \<open>Config\<close> (\<open>config.rs\<close>, \<open>delegated_safety/config.rs\<close>), \<open>Reserve\<close> (\<open>delegated_safety/reserve.rs\<close>), \<open>Handler\<close>
    (\<open>delegated_safety/handler.rs\<close>, \<open>delegated_safety/instructions.rs\<close>), \<open>Precompile\<close> (\<open>precompile.rs\<close>),
    \<open>Evm_Build\<close> (\<open>scheduler/executor.rs\<close>): the configuration, the balance reserve of delegated accounts,
    the handler around revm's hooks, the creation guard, custom precompiles behind a restricted
    facade, and the construction of the EVM and of the handler of workers and replay.
  \<^item> \<open>Control\<close>: building a scheduler and a whole call of \<open>parallel_execute\<close>, from the election of the one
    caller through the thread scope to the recovery.

  \<^bold>\<open>Correspondence.\<close> A struct is a record and an enum a datatype; an operation is a function that returns
  the changed state. A panic, failed assertion or index out of range is \<open>None\<close>, a \<open>Result\<close> a sum with the
  error on the left. Fixed-width values of the EVM are words; indices and incarnations, which never
  leave the size of the block or the number of executions, and the counters of the metrics are natural numbers. Hash maps whose order
  matters are association lists with the order as an argument or arbitrary.

  \<^bold>\<open>Concurrency.\<close> A step of \<open>sched_step\<close> is a claim, a whole task of a worker, one finalized transaction, one
  commit, or a cancellation; several workers hold tasks at the same time, and claims may return any
  index, since cursors are advisory. The effects of a task on the shared state take place in one step, at
  its end; what the task reads before does not: in \<open>block_step\<close> each database access of an
  incarnation sees the memory, the history and the committed state of any earlier moment of its own.
  A validation is one step from its timestamp to the status it sets, so the order of timestamp and scan inside it is
  not tested. \<open>wake_step\<close> is finer where threads wait: publishing and notifying are separate steps of the finality
  thread, a validator looks at the finality cursor after it has released its locks, a cancellation raises the flag
  and notifies the two threads one by one, and \<open>wait_while\<close> evaluates its predicate twice before it parks. The other
  finer machines are those of the frontier, the cursor, the dependency graph
  and a slot read racing a commit, each at the granularity of its atomic accesses or critical
  sections.

  \<^bold>\<open>What is shown.\<close> C1 to C5 are the chain to serializability: a validated incarnation computes what the
  transaction computes on one world (C4), its validation stays current until finality (C5), hence its
  result is the serial one (C3), the committed output and state are those of a serial run (C1), and a
  whole call is a serial prefix and a replayed rest (C2). C6 to C10 are progress: no lost claims, no
  stuck dependencies, loops that end, an exact frontier. C11 to C20 are the contracts of the parts that
  C1 and C2 rest on, with their error paths and the wakeups of the waiting threads (C20). C21 to C28 are types, the
  agreement of workers and replay (C22), the reserve and what its violation leaves (C23, C24), precompiles and
  bundle; C29 to C40 the remaining operations, among them the transparency of the caches (C33) and when building a
  scheduler from the environment panics (C40). C32 and C36 are about two races
  the code does not exclude, and mark the conditions of C1 to C3: an incarnation that records the reset
  of an account's storage again at every slot can lose the version an earlier slot depended on and still
  validate (so the machine of C1 asks that the recorded versions are kept), and a slot fetched
  before its account is destroyed and inserted into the cache afterwards brings the old value back (so
  a fill of the cache is one step there).

  \<^bold>\<open>Bounds.\<close> \<open>next_task\<close> takes the number of its iterations and the effect of the other threads before each,
  because the code spins; \<open>claim_before_loop\<close> takes the values its compare-and-swap sees.
  \<open>commit_batch\<close> takes fuel, and C9 shows that one round more than there are finalized and uncommitted
  transactions is enough. \<open>finality_batch\<close>, the frontier scan and every other loop are total functions.

  \<^bold>\<open>Hypotheses on other code.\<close> The EVM and the transaction inside it are a program of database requests that
  ends with a result and a state, or an error; \<open>env_ok\<close> asks that a program does not look at the
  code of an account it loads without asking for it, and that its output is well formed. \<open>revm_laws\<close>,
  \<open>status_laws\<close>, the laws of the journal in \<open>Handler\<close> and of the transitions in \<open>Bundle\<close> state documented
  behaviour of revm, and each has a concrete instance in a witness.

  \<^bold>\<open>Not modelled.\<close> Clocks, logging, histograms and the names of threads have no effect on results. That a panic
  of a thread is raised again in the caller is not a returned value; that it stops the others is modelled.
  Memory orderings weaker than sequential consistency are not. The command line tools (\<open>bin/\<close>) are
  network and file access around the library; \<open>test_utils/\<close>, the tests and the benchmarks are fixtures;
  \<open>lib.rs\<close> and \<open>mod.rs\<close> declare modules. Formatting (\<open>Debug\<close>, \<open>Display\<close>) is left out.
\<close>

end
